(* ===== verification/Mallob_Prelude.thy ===== *)
theory Mallob_Prelude
  imports Main "HOL-Library.Word" "HOL-Library.Monad_Syntax"
begin

text \<open>
  Shared vocabulary of the development: the ranges of the C++ integer types, the result type of
  operations that may hit a failing assertion or undefined behaviour, the model of the ordered
  containers of the C++ standard library (\<open>std::set\<close> and \<open>std::map\<close> as lists that are strictly
  sorted by key), and the collections of rewrite rules that the component theories use.
\<close>

named_theorems codec_simps \<open>lengths and read-back equations of the byte codecs\<close>
named_theorems oset_simps \<open>membership and sortedness of the ordered-container operations\<close>

section \<open>Machine integers\<close>

text \<open>A C++ \<open>int\<close> is modelled as an unbounded integer; where the 32-bit width matters the
  predicate \<open>int32\<close> states that a value is representable.\<close>

definition int32 :: "int \<Rightarrow> bool" where
  "int32 x \<longleftrightarrow> - (2 ^ 31) \<le> x \<and> x < 2 ^ 31"

abbreviation INT_MAX :: int where
  "INT_MAX \<equiv> 2147483647"

text \<open>C++ division and remainder of signed integers truncate towards zero.\<close>

definition c_div :: "int \<Rightarrow> int \<Rightarrow> int" where
  "c_div a b = sgn a * sgn b * (\<bar>a\<bar> div \<bar>b\<bar>)"

definition c_mod :: "int \<Rightarrow> int \<Rightarrow> int" where
  "c_mod a b = a - c_div a b * b"

lemma c_div_nonneg: "0 \<le> a \<Longrightarrow> 0 < b \<Longrightarrow> c_div a b = a div b"
  by (cases "a = 0") (auto simp: c_div_def sgn_if)

lemma c_mod_nonneg: "0 \<le> a \<Longrightarrow> 0 < b \<Longrightarrow> c_mod a b = a mod b"
  by (simp add: c_mod_def c_div_nonneg minus_div_mult_eq_mod)

section \<open>Results\<close>

text \<open>An operation that runs into a failing \<open>assert\<close> or into undefined behaviour (a read past the
  end of a vector, a dereferenced end iterator) returns \<open>Inl\<close> with the reason. \<open>Diverged\<close> stands for
  a call of a loop that does not return, where the loop itself is modelled with an option result.\<close>

datatype fault = Assertion_failed | Undefined_behaviour | Aborted | Diverged

type_synonym 'a res = "fault + 'a"

definition res_bind :: "'a res \<Rightarrow> ('a \<Rightarrow> 'b res) \<Rightarrow> 'b res" where
  "res_bind r f = (case r of Inl e \<Rightarrow> Inl e | Inr x \<Rightarrow> f x)"

definition check :: "bool \<Rightarrow> 'a res \<Rightarrow> 'a res" where
  "check b r = (if b then r else Inl Assertion_failed)"

definition of_opt :: "'a option \<Rightarrow> 'a res" where
  "of_opt x = (case x of None \<Rightarrow> Inl Diverged | Some y \<Rightarrow> Inr y)"

lemma of_opt_simps [simp]: "of_opt None = Inl Diverged" "of_opt (Some x) = Inr x"
  by (simp_all add: of_opt_def)

lemma of_opt_eq_Inr_iff [simp]: "of_opt x = Inr y \<longleftrightarrow> x = Some y"
  by (cases x) auto

lemma res_bind_simps [simp]:
  "res_bind (Inl e) f = Inl e"
  "res_bind (Inr x) f = f x"
  by (simp_all add: res_bind_def)

lemma check_simps [simp]:
  "check True r = r"
  "check False r = Inl Assertion_failed"
  by (simp_all add: check_def)

lemma check_eq_Inr_iff [simp]: "check b r = Inr y \<longleftrightarrow> b \<and> r = Inr y"
  by (cases b) auto

lemma res_bind_assoc: "res_bind (res_bind r f) g = res_bind r (\<lambda>x. res_bind (f x) g)"
  by (cases r) simp_all

lemma res_bind_eq_Inr_iff: "res_bind r f = Inr y \<longleftrightarrow> (\<exists>x. r = Inr x \<and> f x = Inr y)"
  by (cases r) auto

section \<open>Ordered containers\<close>

text \<open>
  A \<open>std::set<T>\<close> whose comparator looks only at a key of its elements is a list whose keys
  are strictly increasing. \<open>oset_insert\<close> is \<open>set::insert\<close>: an element whose key is already
  present is left alone. \<open>oset_put\<close> is the assignment \<open>map[k] = v\<close>, which replaces it.
\<close>

abbreviation oset :: "('a \<Rightarrow> 'k::linorder) \<Rightarrow> 'a list \<Rightarrow> bool" where
  "oset k xs \<equiv> sorted_wrt (<) (map k xs)"

fun oset_insert :: "('a \<Rightarrow> 'k::linorder) \<Rightarrow> 'a \<Rightarrow> 'a list \<Rightarrow> 'a list" where
  "oset_insert k x [] = [x]"
| "oset_insert k x (y # ys) =
     (if k x < k y then x # y # ys
      else if k x = k y then y # ys
      else y # oset_insert k x ys)"

fun oset_put :: "('a \<Rightarrow> 'k::linorder) \<Rightarrow> 'a \<Rightarrow> 'a list \<Rightarrow> 'a list" where
  "oset_put k x [] = [x]"
| "oset_put k x (y # ys) =
     (if k x < k y then x # y # ys
      else if k x = k y then x # ys
      else y # oset_put k x ys)"

definition oset_erase :: "('a \<Rightarrow> 'k::linorder) \<Rightarrow> 'k \<Rightarrow> 'a list \<Rightarrow> 'a list" where
  "oset_erase k x xs = filter (\<lambda>y. k y \<noteq> x) xs"

definition oset_find :: "('a \<Rightarrow> 'k::linorder) \<Rightarrow> 'k \<Rightarrow> 'a list \<Rightarrow> 'a option" where
  "oset_find k x xs = find (\<lambda>y. k y = x) xs"

lemma oset_insert_keys [oset_simps]: "k ` set (oset_insert k x xs) = insert (k x) (k ` set xs)"
  by (induction xs) auto

lemma oset_put_keys [oset_simps]: "k ` set (oset_put k x xs) = insert (k x) (k ` set xs)"
  by (induction xs) auto

lemma oset_sorted_insert [oset_simps]: "oset k xs \<Longrightarrow> oset k (oset_insert k x xs)"
proof (induction xs)
  case (Cons y ys)
  have "\<forall>z \<in> set (oset_insert k x ys). k z = k x \<or> k z \<in> k ` set ys"
    using oset_insert_keys [of k x ys] by auto
  with Cons show ?case by (fastforce simp: neq_iff)
qed simp

lemma oset_sorted_put [oset_simps]: "oset k xs \<Longrightarrow> oset k (oset_put k x xs)"
proof (induction xs)
  case (Cons y ys)
  have "\<forall>z \<in> set (oset_put k x ys). k z = k x \<or> k z \<in> k ` set ys"
    using oset_put_keys [of k x ys] by auto
  with Cons show ?case by (fastforce simp: neq_iff)
qed simp

lemma oset_sorted_filter [oset_simps]: "oset k xs \<Longrightarrow> oset k (filter P xs)"
  by (induction xs) auto

lemma oset_sorted_erase [oset_simps]: "oset k xs \<Longrightarrow> oset k (oset_erase k x xs)"
  by (simp add: oset_erase_def oset_sorted_filter)

lemma oset_key_inj: "oset k xs \<Longrightarrow> x \<in> set xs \<Longrightarrow> y \<in> set xs \<Longrightarrow> k x = k y \<Longrightarrow> x = y"
  by (auto simp: strict_sorted_iff distinct_map dest: inj_onD)

lemma oset_insert_set [oset_simps]:
  "oset k xs \<Longrightarrow>
     set (oset_insert k x xs) = (if k x \<in> k ` set xs then set xs else insert x (set xs))"
  by (induction xs) (auto simp: image_iff)

lemma oset_put_set [oset_simps]:
  "oset k xs \<Longrightarrow> set (oset_put k x xs) = insert x {y \<in> set xs. k y \<noteq> k x}"
  by (induction xs) (auto simp: image_iff)

lemma oset_erase_set [oset_simps]: "set (oset_erase k x xs) = {y \<in> set xs. k y \<noteq> x}"
  by (auto simp: oset_erase_def)

lemma oset_find_None [oset_simps]: "oset_find k x xs = None \<longleftrightarrow> x \<notin> k ` set xs"
  by (auto simp: oset_find_def find_None_iff)

lemma oset_find_Nil [simp]: "oset_find k x [] = None"
  by (simp add: oset_find_def)

lemma oset_find_key: "oset_find k x xs = Some y \<Longrightarrow> k y = x"
  by (auto simp: oset_find_def find_Some_iff)

lemma oset_find_Some:
  "oset k xs \<Longrightarrow> oset_find k x xs = Some y \<longleftrightarrow> y \<in> set xs \<and> k y = x"
  by (induction xs) (auto simp: oset_find_def)

lemma oset_find_put [oset_simps]:
  "oset k xs \<Longrightarrow>
     oset_find k a (oset_put k x xs) = (if a = k x then Some x else oset_find k a xs)"
  by (induction xs) (auto simp: oset_find_def find_None_iff)

lemma oset_find_erase [oset_simps]:
  "oset_find k a (oset_erase k x xs) = (if a = x then None else oset_find k a xs)"
  by (induction xs) (auto simp: oset_find_def oset_erase_def)

lemma oset_find_filter:
  "oset k xs \<Longrightarrow>
     oset_find k a (filter P xs) =
       (case oset_find k a xs of None \<Rightarrow> None | Some x \<Rightarrow> if P x then Some x else None)"
proof (induction xs)
  case (Cons y ys)
  have "k y \<notin> k ` set ys" using Cons.prems by auto
  then have "oset_find k (k y) (filter P ys) = None"
    by (auto simp: oset_find_None)
  with Cons show ?case by (auto simp: oset_find_def)
qed (simp add: oset_find_def)

text \<open>An ordered container is determined by its set of elements.\<close>

lemma oset_eqI:
  assumes "oset k xs" "oset k ys" "set xs = set ys"
  shows "xs = ys"
  using assms
proof (induction xs arbitrary: ys)
  case (Cons x xs)
  then obtain y ys' where ys: "ys = y # ys'" by (cases ys) auto
  have "x \<in> insert y (set ys')" "y \<in> insert x (set xs)"
    using Cons.prems(3) ys by auto
  then have xy: "x = y"
    using Cons.prems(1,2) ys by fastforce
  have "x \<notin> set xs" "x \<notin> set ys'"
    using Cons.prems(1,2) ys xy by auto
  with Cons.prems(3) ys xy have "set xs = set ys'" by auto
  with Cons.IH [of ys'] Cons.prems(1,2) ys xy show ?case by auto
qed simp

lemma oset_eq_findI:
  assumes "oset k xs" "oset k ys" "\<And>a. oset_find k a xs = oset_find k a ys"
  shows "xs = ys"
proof (rule oset_eqI [OF assms(1,2)])
  have "x \<in> set xs \<longleftrightarrow> oset_find k (k x) xs = Some x" for x
    using oset_find_Some [OF assms(1)] by simp
  moreover have "x \<in> set ys \<longleftrightarrow> oset_find k (k x) ys = Some x" for x
    using oset_find_Some [OF assms(2)] by simp
  ultimately show "set xs = set ys" using assms(3) by auto
qed

lemma oset_distinct: "oset k xs \<Longrightarrow> distinct xs"
  by (induction xs) auto

lemma oset_insert_last: "\<forall>y \<in> set xs. k y < k x \<Longrightarrow> oset_insert k x xs = xs @ [x]"
  by (induction xs) auto

lemma fold_oset_insert_sorted: "oset k (xs @ ys) \<Longrightarrow> fold (oset_insert k) ys xs = xs @ ys"
proof (induction ys arbitrary: xs)
  case (Cons y ys)
  then have "oset_insert k y xs = xs @ [y]" by (intro oset_insert_last) (auto simp: sorted_wrt_append)
  then show ?case using Cons.IH [of "xs @ [y]"] Cons.prems by simp
qed simp

lemma length_oset_put: "oset k xs \<Longrightarrow> length (oset_put k x xs) = (if k x \<in> k ` set xs then length xs else Suc (length xs))"
  by (induction xs) (auto simp: image_iff)

lemma length_oset_erase: "oset k xs \<Longrightarrow> x \<in> k ` set xs \<Longrightarrow> Suc (length (oset_erase k x xs)) = length xs"
proof (induction xs)
  case (Cons y ys)
  have "oset_erase k (k y) ys = ys" using Cons.prems(1) by (auto simp: oset_erase_def filter_id_conv)
  with Cons show ?case by (cases "k y = x") (auto simp: oset_erase_def)
qed simp

lemma oset_erase_put: "oset fst xs \<Longrightarrow> oset_erase fst i (oset_put fst (i, x) xs) = oset_erase fst i xs"
  by (induction xs) (auto simp: oset_erase_def)

lemma oset_put_put: "oset fst xs \<Longrightarrow> oset_put fst (i, y) (oset_put fst (i, x) xs) = oset_put fst (i, y) xs"
  by (induction xs) auto

lemma oset_put_last:
  "oset k (xs @ [x]) \<Longrightarrow> oset_put k x xs = xs @ [x]"
  by (induction xs) auto

end
