(* ===== verification/Permutation.thy ===== *)
theory Permutation
  imports Mallob_Prelude "HOL-Library.Multiset"
begin

text \<open>
  Pseudorandom permutations of the ranks (src/src/util/permutation.hpp and .cpp). A permutation of
  \<open>[0, n)\<close> is a Feistel network over pairs of digits in base \<open>\<lceil>sqrt n\<rceil>\<close>, iterated until the
  value falls into the domain, with a table of adjusted values on top. Shuffled tables come from
  \<open>std::shuffle\<close> and random draws from \<open>Random::global_rand\<close>; both are arguments here.
  A call that does not return (or that indexes a table out of range) has the value \<open>None\<close>.
\<close>

section \<open>The permutation object\<close>

text \<open>\<open>_disallowed_permutations\<close> holds pointers that are only used for calls of \<open>get\<close>; an element
  here is that function of the other object.\<close>

record adj_perm =
  ap_n :: int
  ap_root_n :: int
  ap_feistels :: "int list list"
  ap_adjusted_values :: "int \<rightharpoonup> int"
  ap_identity_disallowed :: bool
  ap_disallowed_permutations :: "(int \<Rightarrow> int option) list"

text \<open>\<open>ceil(sqrt((float) n))\<close>: the smallest integer whose square is at least \<open>n\<close>. The float
  computation yields this value for all \<open>n \<le> 2\<^sup>2\<^sup>4\<close>.\<close>

function ceil_sqrt_from :: "int \<Rightarrow> int \<Rightarrow> int" where
  "ceil_sqrt_from k n = (if k \<ge> n \<or> n \<le> k * k \<or> k < 0 then k else ceil_sqrt_from (k + 1) n)"
  by pat_completeness auto
termination
  by (relation "measure (\<lambda>(k, n). nat (n - k))") auto

declare ceil_sqrt_from.simps [simp del]

definition ceil_sqrt :: "int \<Rightarrow> int" where
  "ceil_sqrt n = ceil_sqrt_from 0 n"

text \<open>\<open>shuffle seed f\<close> stands for the \<open>f\<close>-th call of \<open>std::shuffle\<close> with the generator that was
  initialized with the seed.\<close>

type_synonym shuffler = "int \<Rightarrow> nat \<Rightarrow> int list \<Rightarrow> int list"

definition AdjustablePermutation :: "shuffler \<Rightarrow> int \<Rightarrow> int \<Rightarrow> adj_perm" where
  "AdjustablePermutation shuffle n seed =
     \<lparr>ap_n = n, ap_root_n = ceil_sqrt n,
      ap_feistels = map (\<lambda>f. shuffle seed f [0..ceil_sqrt n - 1]) [1..<4],
      ap_adjusted_values = Map.empty, ap_identity_disallowed = False,
      ap_disallowed_permutations = []\<rparr>"

definition setIdentityDisallowed :: "bool \<Rightarrow> adj_perm \<Rightarrow> adj_perm" where
  "setIdentityDisallowed disallow p = p\<lparr>ap_identity_disallowed := disallow\<rparr>"

definition addDisallowedPermutation :: "(int \<Rightarrow> int option) \<Rightarrow> adj_perm \<Rightarrow> adj_perm" where
  "addDisallowedPermutation g p =
     p\<lparr>ap_disallowed_permutations := ap_disallowed_permutations p @ [g]\<rparr>"

section \<open>Reading a value\<close>

partial_function (option) lift_negative :: "int \<Rightarrow> int \<Rightarrow> int option" where
  "lift_negative n x = (if x < 0 then lift_negative n (x + 100 * n) else Some x)"

definition wrap_argument :: "int \<Rightarrow> int \<Rightarrow> int option" where
  "wrap_argument n x =
     (if x < 0 \<or> x \<ge> n
      then (case lift_negative n x of None \<Rightarrow> None | Some y \<Rightarrow> Some (c_mod y n))
      else Some x)"

fun feistel_rounds :: "int \<Rightarrow> int list list \<Rightarrow> int \<Rightarrow> int \<Rightarrow> (int \<times> int) option" where
  "feistel_rounds root [] a b = Some (a, b)"
| "feistel_rounds root (F # Fs) a b =
     (if 0 \<le> b \<and> b < int (length F)
      then feistel_rounds root Fs b (c_mod (a + F ! nat b) root)
      else None)"

definition feistel :: "adj_perm \<Rightarrow> int \<Rightarrow> int option" where
  "feistel p x =
     (case feistel_rounds (ap_root_n p) (ap_feistels p) (c_mod x (ap_root_n p)) (c_div x (ap_root_n p)) of
        None \<Rightarrow> None
      | Some (a, b) \<Rightarrow> Some (a + ap_root_n p * b))"

definition acceptable :: "adj_perm \<Rightarrow> int \<Rightarrow> int \<Rightarrow> bool" where
  "acceptable p input x \<longleftrightarrow>
     x < ap_n p \<and> \<not> (ap_identity_disallowed p \<and> x = input)
     \<and> list_all (\<lambda>g. g input \<noteq> Some x) (ap_disallowed_permutations p)"

partial_function (option) get_loop :: "adj_perm \<Rightarrow> int \<Rightarrow> int \<Rightarrow> int option" where
  "get_loop p input x =
     (case feistel p x of
        None \<Rightarrow> None
      | Some y \<Rightarrow> if acceptable p input y then Some y else get_loop p input y)"

definition perm_get :: "adj_perm \<Rightarrow> int \<Rightarrow> int option" where
  "perm_get p x =
     (case wrap_argument (ap_n p) x of
        None \<Rightarrow> None
      | Some x \<Rightarrow>
          (case ap_adjusted_values p x of
             Some y \<Rightarrow> Some y
           | None \<Rightarrow> get_loop p x x))"

section \<open>Adjusting values\<close>

definition perm_adjust :: "adj_perm \<Rightarrow> int \<Rightarrow> int \<Rightarrow> adj_perm option" where
  "perm_adjust p x new_x =
     (case wrap_argument (ap_n p) x of
        None \<Rightarrow> None
      | Some x \<Rightarrow>
          (case perm_get p x of
             None \<Rightarrow> None
           | Some y \<Rightarrow>
               Some (if y \<noteq> new_x
                     then p\<lparr>ap_adjusted_values := (ap_adjusted_values p)(x \<mapsto> new_x)\<rparr> else p)))"

definition perm_clear :: "adj_perm \<Rightarrow> int \<Rightarrow> adj_perm" where
  "perm_clear p x = p\<lparr>ap_adjusted_values := (ap_adjusted_values p)(x := None)\<rparr>"

definition perm_clear_all :: "adj_perm \<Rightarrow> adj_perm" where
  "perm_clear_all p = p\<lparr>ap_adjusted_values := Map.empty\<rparr>"

section \<open>Expander graphs over the ranks\<close>

partial_function (option) find_index :: "adj_perm \<Rightarrow> int \<Rightarrow> int \<Rightarrow> int option" where
  "find_index p myRank myIndex =
     (case perm_get p myIndex of
        None \<Rightarrow> None
      | Some v \<Rightarrow> if v \<noteq> myRank then find_index p myRank (myIndex + 1) else Some myIndex)"

fun undirected_edges :: "adj_perm \<Rightarrow> int \<Rightarrow> int \<Rightarrow> int \<Rightarrow> nat list \<Rightarrow> int list option" where
  "undirected_edges p n degree myIndex [] = Some []"
| "undirected_edges p n degree myIndex (i # is) =
     (let offset = 1 + int i * max 1 (c_div n (degree - 1)) in
      do {
        a \<leftarrow> perm_get p (c_mod (n + myIndex + offset) n);
        b \<leftarrow> perm_get p (c_mod (n + myIndex - offset) n);
        es \<leftarrow> undirected_edges p n degree myIndex is;
        Some (a # b # es)
      })"

definition createUndirectedExpanderGraph ::
    "shuffler \<Rightarrow> int \<Rightarrow> int \<Rightarrow> int \<Rightarrow> int list option res" where
  "createUndirectedExpanderGraph shuffle n degree myRank =
     check (c_mod degree 2 = 0) (Inr
       (let p = AdjustablePermutation shuffle n ((n - 1) * degree) in
        do {
          myIndex \<leftarrow> find_index p myRank 0;
          undirected_edges p n degree myIndex [0..<nat (c_div degree 2)]
        }))"

text \<open>The directed graph. Draws of \<open>(int) (Random::global_rand()*(n-1))\<close> are taken from a list; when
  it is used up the search for a swap position has not ended (\<open>None\<close>).\<close>

fun intrinsic_partners :: "adj_perm \<Rightarrow> int \<Rightarrow> int list \<Rightarrow> int list \<Rightarrow> int list option" where
  "intrinsic_partners pInit n [] partners = Some partners"
| "intrinsic_partners pInit n (pos # ps) partners =
     do {
       val \<leftarrow> perm_get pInit pos;
       nextVal \<leftarrow> perm_get pInit (c_mod (pos + 1) n);
       intrinsic_partners pInit n ps (partners[nat val := nextVal])
     }"

definition isValid :: "adj_perm list \<Rightarrow> int list \<Rightarrow> int \<Rightarrow> int \<Rightarrow> bool" where
  "isValid permutations partners pos val \<longleftrightarrow>
     pos \<noteq> val \<and> partners ! nat pos \<noteq> val
     \<and> list_all (\<lambda>perm. perm_get perm pos \<noteq> Some val) permutations"

fun swap_loop ::
    "(int \<Rightarrow> int \<Rightarrow> bool) \<Rightarrow> adj_perm \<Rightarrow> int \<Rightarrow> int \<Rightarrow> int list \<Rightarrow> (int \<times> int \<times> int list) option" where
  "swap_loop valid p pos val [] = None"
| "swap_loop valid p pos val (d # draws) =
     (let swapPos = (if d \<ge> pos then d + 1 else d) in
      do {
        swapVal \<leftarrow> perm_get p swapPos;
        if valid pos swapVal \<and> valid swapPos val then Some (swapPos, swapVal, draws)
        else swap_loop valid p pos val draws
      })"

fun position_loop ::
    "(int \<Rightarrow> int \<Rightarrow> bool) \<Rightarrow> int list \<Rightarrow> adj_perm \<Rightarrow> int list \<Rightarrow> (adj_perm \<times> int list) option" where
  "position_loop valid [] p draws = Some (p, draws)"
| "position_loop valid (pos # ps) p draws =
     do {
       val \<leftarrow> perm_get p pos;
       if valid pos val then position_loop valid ps p draws
       else do {
         (swapPos, swapVal, draws) \<leftarrow> swap_loop valid p pos val draws;
         p \<leftarrow> perm_adjust p pos swapVal;
         p \<leftarrow> perm_adjust p swapPos val;
         position_loop valid ps p draws
       }
     }"

fun permutation_loop ::
    "shuffler \<Rightarrow> int \<Rightarrow> int list \<Rightarrow> int list \<Rightarrow> adj_perm list \<Rightarrow> int list \<Rightarrow> adj_perm list option" where
  "permutation_loop shuffle n partners [] permutations draws = Some permutations"
| "permutation_loop shuffle n partners (r # rs) permutations draws =
     do {
       (p, draws) \<leftarrow> position_loop (isValid permutations partners) [0..n - 1]
                       (AdjustablePermutation shuffle n (n * (r + 1))) draws;
       permutation_loop shuffle n partners rs (permutations @ [p]) draws
     }"

definition getPermutations :: "shuffler \<Rightarrow> int list \<Rightarrow> int \<Rightarrow> int \<Rightarrow> int list list option" where
  "getPermutations shuffle draws n degree =
     do {
       partners \<leftarrow> intrinsic_partners (AdjustablePermutation shuffle n (n - 1)) n [0..n - 1]
                     (replicate (nat n) 0);
       permutations \<leftarrow> permutation_loop shuffle n partners [1..degree - 1] [] draws;
       Some (partners # map (\<lambda>p. map (\<lambda>j. the (perm_get p j)) [0..n - 1]) permutations)
     }"

definition createExpanderGraph :: "int list list \<Rightarrow> int \<Rightarrow> int list" where
  "createExpanderGraph permutations myRank = map (\<lambda>perm. perm ! nat myRank) permutations"

declare lift_negative.simps [code] get_loop.simps [code] find_index.simps [code]

section \<open>Cycle walking\<close>

text \<open>
  Iterating a bijection of a finite set until it lands in a subset: from a point of the subset the
  walk returns, and the first-return map is a bijection of the subset.
\<close>

locale cycle_walk =
  fixes f :: "'a \<Rightarrow> 'a" and S T :: "'a set"
  assumes fin: "finite S" and bij: "bij_betw f S S" and sub: "T \<subseteq> S"
begin

lemma f_mem: "x \<in> S \<Longrightarrow> f x \<in> S"
  using bij by (auto simp: bij_betw_def)

lemma f_inj: "x \<in> S \<Longrightarrow> y \<in> S \<Longrightarrow> f x = f y \<Longrightarrow> x = y"
  using bij by (auto simp: bij_betw_def inj_on_def)

lemma iter_mem: "x \<in> S \<Longrightarrow> (f ^^ k) x \<in> S"
  by (induction k) (auto intro: f_mem)

lemma iter_inj: "x \<in> S \<Longrightarrow> y \<in> S \<Longrightarrow> (f ^^ k) x = (f ^^ k) y \<Longrightarrow> x = y"
  by (induction k) (auto dest: f_inj [OF iter_mem iter_mem])

lemma returns: "x \<in> S \<Longrightarrow> \<exists>k > 0. (f ^^ k) x = x"
proof -
  assume x: "x \<in> S"
  let ?g = "\<lambda>k. (f ^^ k) x"
  have "?g ` {..card S} \<subseteq> S" using iter_mem [OF x] by auto
  then have "card (?g ` {..card S}) \<le> card S" by (rule card_mono [OF fin])
  then have "\<not> inj_on ?g {..card S}" by (intro pigeonhole) simp
  then obtain i j where ij: "i < j" "?g i = ?g j"
    unfolding inj_on_def by (metis linorder_neqE_nat)
  have "(f ^^ j) x = (f ^^ i) ((f ^^ (j - i)) x)"
    using funpow_add [of i "j - i" f] ij(1) by simp
  then have "(f ^^ i) x = (f ^^ i) ((f ^^ (j - i)) x)" using ij(2) by simp
  then have "(f ^^ (j - i)) x = x" using iter_inj [OF x iter_mem [OF x, of "j - i"]] by metis
  then show ?thesis using ij by (intro exI [of _ "j - i"]) simp
qed

definition first_return :: "'a \<Rightarrow> nat" where
  "first_return x = (LEAST k. 0 < k \<and> (f ^^ k) x \<in> T)"

lemma first_return_props:
  assumes "x \<in> T"
  shows "0 < first_return x" and "(f ^^ first_return x) x \<in> T"
    and "0 < k \<Longrightarrow> k < first_return x \<Longrightarrow> (f ^^ k) x \<notin> T"
proof -
  obtain m where "m > 0" "(f ^^ m) x = x" using returns [of x] assms sub by auto
  then have ex: "0 < m \<and> (f ^^ m) x \<in> T" using assms by simp
  show "0 < first_return x" "(f ^^ first_return x) x \<in> T"
    using LeastI [of "\<lambda>k. 0 < k \<and> (f ^^ k) x \<in> T", OF ex] by (auto simp: first_return_def)
  show "0 < k \<Longrightarrow> k < first_return x \<Longrightarrow> (f ^^ k) x \<notin> T"
    using not_less_Least [of k "\<lambda>k. 0 < k \<and> (f ^^ k) x \<in> T"] by (auto simp: first_return_def)
qed

definition walk :: "'a \<Rightarrow> 'a" where
  "walk x = (f ^^ first_return x) x"

lemma walk_inj_le:
  assumes xy: "x \<in> T" "y \<in> T" "walk x = walk y" and le: "first_return x \<le> first_return y"
  shows "x = y"
proof -
  let ?d = "first_return y - first_return x"
  have "(f ^^ first_return x) ((f ^^ ?d) y) = (f ^^ first_return x) x"
    using xy(3) le funpow_add [of "first_return x" ?d f] by (simp add: walk_def)
  then have eq: "(f ^^ ?d) y = x"
    using iter_inj [of "(f ^^ ?d) y" x] iter_mem xy(1,2) sub by blast
  then have "\<not> (0 < ?d \<and> ?d < first_return y)"
    using first_return_props(3) [OF xy(2), of ?d] xy(1) by auto
  then have "?d = 0" using first_return_props(1) [OF xy(1)] le by linarith
  then show ?thesis using eq by simp
qed

lemma walk_bij: "bij_betw walk T T"
proof -
  have "inj_on walk T"
    unfolding inj_on_def by (metis walk_inj_le nat_le_linear)
  moreover have "walk ` T \<subseteq> T" by (auto simp: walk_def first_return_props)
  moreover have "finite T" using fin sub by (rule rev_finite_subset)
  ultimately show ?thesis by (simp add: bij_betw_def endo_inj_surj)
qed

end

section \<open>The Feistel network is a bijection\<close>

lemma c_mod_range: "0 \<le> a \<Longrightarrow> 0 < m \<Longrightarrow> 0 \<le> c_mod a m \<and> c_mod a m < m"
  by (simp add: c_mod_nonneg)

text \<open>A round table: one non-negative entry for each digit.\<close>

definition round_tables :: "int \<Rightarrow> int list list \<Rightarrow> bool" where
  "round_tables root Fs \<longleftrightarrow> (\<forall>F \<in> set Fs. int (length F) = root \<and> (\<forall>v \<in> set F. 0 \<le> v))"

lemma feistel_rounds_defined:
  assumes "0 < root" "round_tables root Fs" "0 \<le> a" "a < root" "0 \<le> b" "b < root"
  shows "\<exists>a' b'. feistel_rounds root Fs a b = Some (a', b')
    \<and> 0 \<le> a' \<and> a' < root \<and> 0 \<le> b' \<and> b' < root"
  using assms(2-)
proof (induction Fs arbitrary: a b)
  case (Cons F Fs)
  have F: "int (length F) = root" "F ! nat b \<ge> 0"
    using Cons.prems by (auto simp: round_tables_def)
  then show ?case
    using Cons.IH [of b "c_mod (a + F ! nat b) root"] Cons.prems c_mod_range [of "a + F ! nat b" root]
      assms(1) by (auto simp: round_tables_def)
qed simp

lemma mod_add_cancel_range:
  fixes a a' c m :: int
  assumes "0 \<le> a" "a < m" "0 \<le> a'" "a' < m" "(a + c) mod m = (a' + c) mod m"
  shows "a = a'"
proof -
  have "(a + c) mod m = (a' + c) mod m \<longleftrightarrow> a mod m = a' mod m"
    by (simp add: mod_eq_dvd_iff)
  then show ?thesis using assms by simp
qed

lemma feistel_rounds_inj:
  assumes "0 < root" "round_tables root Fs"
    and "0 \<le> a" "a < root" "0 \<le> b" "b < root" "0 \<le> a'" "a' < root" "0 \<le> b'" "b' < root"
    and "feistel_rounds root Fs a b = feistel_rounds root Fs a' b'"
  shows "a = a' \<and> b = b'"
  using assms(2-)
proof (induction Fs arbitrary: a b a' b')
  case (Cons F Fs)
  have F: "int (length F) = root" "F ! nat b \<ge> 0" "F ! nat b' \<ge> 0"
    using Cons.prems by (auto simp: round_tables_def)
  have "b = b' \<and> c_mod (a + F ! nat b) root = c_mod (a' + F ! nat b') root"
    by (rule Cons.IH)
      (use Cons.prems F assms(1) c_mod_range in \<open>auto simp: round_tables_def\<close>)
  then have "b = b'" "(a + F ! nat b) mod root = (a' + F ! nat b) mod root"
    using Cons.prems F assms(1) by (auto simp: c_mod_nonneg)
  then show ?case using mod_add_cancel_range [of a root a'] Cons.prems by auto
qed auto

text \<open>Well-formedness of the static part of a permutation.\<close>

definition perm_ok :: "adj_perm \<Rightarrow> bool" where
  "perm_ok p \<longleftrightarrow> 0 < ap_n p \<and> 0 < ap_root_n p \<and> ap_n p \<le> ap_root_n p * ap_root_n p
     \<and> round_tables (ap_root_n p) (ap_feistels p)"

text \<open>No further restriction on the values.\<close>

definition perm_plain :: "adj_perm \<Rightarrow> bool" where
  "perm_plain p \<longleftrightarrow> \<not> ap_identity_disallowed p \<and> ap_disallowed_permutations p = []"

lemma digits:
  fixes x m :: int
  assumes "0 \<le> x" "x < m * m" "0 < m"
  shows "0 \<le> x div m" "x div m < m" "0 \<le> x mod m" "x mod m < m"
proof -
  have "m * (x div m) \<le> x"
    using pos_mod_sign [OF assms(3), of x] mult_div_mod_eq [of m x] by linarith
  then have "m * (x div m) < m * m" using assms(2) by (rule le_less_trans)
  then show "x div m < m" using assms(3) by (simp only: mult_less_cancel_left_pos)
qed (use assms in \<open>auto simp: pos_imp_zdiv_nonneg_iff\<close>)

lemma undigits:
  fixes a b m :: int
  assumes "0 \<le> a" "a < m" "0 \<le> b" "b < m"
  shows "0 \<le> a + m * b" "a + m * b < m * m" "(a + m * b) mod m = a" "(a + m * b) div m = b"
proof -
  have "m * b \<le> m * (m - 1)" using assms by (intro mult_left_mono) auto
  then show "a + m * b < m * m" using assms by (simp add: algebra_simps)
qed (use assms in auto)

lemma feistel_defined:
  assumes "perm_ok p" "0 \<le> x" "x < ap_root_n p * ap_root_n p"
  shows "\<exists>y. feistel p x = Some y \<and> 0 \<le> y \<and> y < ap_root_n p * ap_root_n p"
proof -
  let ?m = "ap_root_n p"
  have m: "0 < ?m" "round_tables ?m (ap_feistels p)" using assms(1) by (auto simp: perm_ok_def)
  note d = digits [OF assms(2,3) m(1)]
  obtain a b where "feistel_rounds ?m (ap_feistels p) (x mod ?m) (x div ?m) = Some (a, b)"
    "0 \<le> a" "a < ?m" "0 \<le> b" "b < ?m"
    using feistel_rounds_defined [OF m d(3,4,1,2)] by auto
  then show ?thesis using m(1) assms(2) undigits [of a ?m b]
    by (auto simp: feistel_def c_mod_nonneg c_div_nonneg)
qed

lemma feistel_inj:
  assumes "perm_ok p" "0 \<le> x" "x < ap_root_n p * ap_root_n p" "0 \<le> y" "y < ap_root_n p * ap_root_n p"
    and "feistel p x = feistel p y"
  shows "x = y"
proof -
  let ?m = "ap_root_n p"
  have m: "0 < ?m" "round_tables ?m (ap_feistels p)" using assms(1) by (auto simp: perm_ok_def)
  note dx = digits [OF assms(2,3) m(1)] and dy = digits [OF assms(4,5) m(1)]
  let ?r = "\<lambda>x. feistel_rounds ?m (ap_feistels p) (x mod ?m) (x div ?m)"
  obtain a b where x: "?r x = Some (a, b)" "0 \<le> a" "a < ?m" "0 \<le> b" "b < ?m"
    using feistel_rounds_defined [OF m dx(3,4,1,2)] by auto
  obtain c d where y: "?r y = Some (c, d)" "0 \<le> c" "c < ?m" "0 \<le> d" "d < ?m"
    using feistel_rounds_defined [OF m dy(3,4,1,2)] by auto
  have "a + ?m * b = c + ?m * d"
    using assms(2,4,6) m(1) x(1) y(1) by (simp add: feistel_def c_mod_nonneg c_div_nonneg)
  then have "a = c" "b = d"
    using undigits(3,4) [OF x(2-5)] undigits(3,4) [OF y(2-5)] by metis+
  then have "?r x = ?r y" using x y by simp
  then have "x mod ?m = y mod ?m \<and> x div ?m = y div ?m"
    using feistel_rounds_inj [OF m dx(3,4,1,2) dy(3,4,1,2)] by simp
  then have "x div ?m * ?m + x mod ?m = y div ?m * ?m + y mod ?m" by simp
  then show ?thesis by (simp only: div_mult_mod_eq)
qed

text \<open>The network as a total function (the identity for an ill-formed object, so that the laws of
  the locale hold without a side condition).\<close>

definition network :: "adj_perm \<Rightarrow> int \<Rightarrow> int" where
  "network p x = (if perm_ok p then the (feistel p x) else x)"

definition square :: "adj_perm \<Rightarrow> int set" where
  "square p = {0..<ap_root_n p * ap_root_n p}"

definition domain :: "adj_perm \<Rightarrow> int set" where
  "domain p = {0..<min (ap_n p) (ap_root_n p * ap_root_n p)}"

lemma network_bij: "bij_betw (network p) (square p) (square p)"
proof (cases "perm_ok p")
  case True
  have inj: "inj_on (network p) (square p)"
  proof (rule inj_onI)
    fix x y assume "x \<in> square p" "y \<in> square p" "network p x = network p y"
    then show "x = y"
      using True feistel_defined [OF True, of x] feistel_defined [OF True, of y] feistel_inj [OF True, of x y]
      by (auto simp: network_def square_def)
  qed
  have "network p ` square p \<subseteq> square p"
    using feistel_defined [OF True] True by (force simp: network_def square_def)
  then show ?thesis using inj by (simp add: bij_betw_def endo_inj_surj square_def)
next
  case False
  then have "network p = (\<lambda>x. x)" by (intro ext) (simp add: network_def)
  then show ?thesis by (simp add: bij_betw_def)
qed

interpretation fw: cycle_walk "network p" "square p" "domain p" for p
  by unfold_locales (auto simp: network_bij, auto simp: square_def domain_def)

lemma domain_eq: "perm_ok p \<Longrightarrow> domain p = {0..<ap_n p}"
  by (simp add: domain_def perm_ok_def min_def)

lemma feistel_network: "perm_ok p \<Longrightarrow> x \<in> square p \<Longrightarrow> feistel p x = Some (network p x)"
  using feistel_defined [of p x] by (auto simp: network_def square_def)

lemma get_loop_walk:
  assumes p: "perm_ok p" "perm_plain p" and x: "x \<in> domain p" and j: "j < fw.first_return p x"
  shows "get_loop p inp ((network p ^^ j) x) = Some (fw.walk p x)"
  using j
proof (induction "fw.first_return p x - j" arbitrary: j)
  case (Suc m)
  have S: "(network p ^^ k) x \<in> square p" for k
    using fw.iter_mem fw.sub x by blast
  have step: "get_loop p inp ((network p ^^ j) x) =
      (if (network p ^^ Suc j) x \<in> domain p then Some ((network p ^^ Suc j) x)
       else get_loop p inp ((network p ^^ Suc j) x))"
    using feistel_network [OF p(1) S [of j]] S [of "Suc j"] p
    by (subst get_loop.simps) (auto simp: acceptable_def perm_plain_def domain_eq square_def)
  show ?case
  proof (cases "Suc j < fw.first_return p x")
    case True
    then have "(network p ^^ Suc j) x \<notin> domain p"
      using fw.first_return_props(3) [OF x, of "Suc j"] by simp
    then show ?thesis using step Suc.hyps(1) [of "Suc j"] Suc.hyps(2) True by simp
  next
    case False
    then have "Suc j = fw.first_return p x" using Suc.prems by simp
    then show ?thesis using step fw.first_return_props(2) [OF x] by (metis fw.walk_def)
  qed
qed simp

lemma get_loop_total:
  "perm_ok p \<Longrightarrow> perm_plain p \<Longrightarrow> x \<in> domain p \<Longrightarrow> get_loop p inp x = Some (fw.walk p x)"
  using get_loop_walk [of p x 0 inp] fw.first_return_props(1) [of x p] by simp

lemma lift_negative_eq:
  assumes "0 < n"
  shows "\<exists>k \<ge> 0. lift_negative n x = Some (x + 100 * n * k) \<and> 0 \<le> x + 100 * n * k"
proof (induction "nat (- x)" arbitrary: x rule: less_induct)
  case less
  show ?case
  proof (cases "x < 0")
    case True
    then have "nat (- (x + 100 * n)) < nat (- x)" using assms by auto
    from less [OF this] obtain k where "k \<ge> 0" "lift_negative n (x + 100 * n) = Some (x + 100 * n + 100 * n * k)"
      "0 \<le> x + 100 * n + 100 * n * k" by auto
    then show ?thesis using True
      by (intro exI [of _ "k + 1"]) (auto simp: lift_negative.simps [of n x] algebra_simps)
  next
    case False
    then show ?thesis by (intro exI [of _ 0]) (auto simp: lift_negative.simps)
  qed
qed

lemma wrap_argument_mod: "0 < n \<Longrightarrow> wrap_argument n x = Some (x mod n)"
proof -
  assume n: "0 < n"
  obtain k where k: "k \<ge> 0" "lift_negative n x = Some (x + 100 * n * k)" "0 \<le> x + 100 * n * k"
    using lift_negative_eq [OF n] by auto
  have "(x + 100 * n * k) mod n = x mod n"
    by (metis mod_mult_self2 mult.assoc mult.commute)
  then show ?thesis using n k by (auto simp: wrap_argument_def c_mod_nonneg)
qed

text \<open>What a well-formed object maps an argument to, as a total function.\<close>

definition perm_fun :: "adj_perm \<Rightarrow> int \<Rightarrow> int" where
  "perm_fun p x =
     (case ap_adjusted_values p (x mod ap_n p) of Some y \<Rightarrow> y | None \<Rightarrow> fw.walk p (x mod ap_n p))"

lemma perm_get_eq:
  assumes "perm_ok p" "perm_plain p"
  shows "perm_get p x = Some (perm_fun p x)"
proof -
  have n: "0 < ap_n p" using assms by (simp add: perm_ok_def)
  then have "x mod ap_n p \<in> domain p" by (simp add: domain_eq assms)
  then show ?thesis using n assms
    by (auto simp: perm_get_def perm_fun_def wrap_argument_mod get_loop_total split: option.splits)
qed

lemma perm_adjust_eq:
  assumes "perm_ok p" "perm_plain p"
  shows "perm_adjust p x v = Some (if perm_fun p x \<noteq> v
    then p\<lparr>ap_adjusted_values := (ap_adjusted_values p)(x mod ap_n p \<mapsto> v)\<rparr> else p)"
proof -
  have n: "0 < ap_n p" using assms by (simp add: perm_ok_def)
  then have "perm_fun p (x mod ap_n p) = perm_fun p x"
    by (simp add: perm_fun_def cong: option.case_cong)
  with n show ?thesis
    by (simp add: perm_adjust_def wrap_argument_mod perm_get_eq [OF assms])
qed

lemma walk_update [simp]:
  "fw.walk (p\<lparr>ap_adjusted_values := m\<rparr>) x = fw.walk p x"
proof -
  have "network (p\<lparr>ap_adjusted_values := m\<rparr>) = network p"
    by (intro ext) (simp add: network_def feistel_def perm_ok_def cong: option.case_cong)
  moreover have "domain (p\<lparr>ap_adjusted_values := m\<rparr>) = domain p" by (simp add: domain_def)
  ultimately show ?thesis by (simp add: fw.walk_def fw.first_return_def)
qed

lemma perm_ok_update [simp]:
  "perm_ok (p\<lparr>ap_adjusted_values := m\<rparr>) = perm_ok p"
  "perm_plain (p\<lparr>ap_adjusted_values := m\<rparr>) = perm_plain p"
  by (simp_all add: perm_ok_def perm_plain_def)

lemma perm_adjust_spec:
  assumes "perm_ok p" "perm_plain p"
  obtains q where "perm_adjust p x v = Some q" "perm_ok q" "perm_plain q" "ap_n q = ap_n p"
    "\<And>y. perm_fun q y = (if y mod ap_n p = x mod ap_n p then v else perm_fun p y)"
proof
  let ?q = "if perm_fun p x \<noteq> v
    then p\<lparr>ap_adjusted_values := (ap_adjusted_values p)(x mod ap_n p \<mapsto> v)\<rparr> else p"
  show "perm_adjust p x v = Some ?q" by (rule perm_adjust_eq [OF assms])
  show "perm_ok ?q" "perm_plain ?q" "ap_n ?q = ap_n p" using assms by auto
  show "perm_fun ?q y = (if y mod ap_n p = x mod ap_n p then v else perm_fun p y)" for y
    by (auto simp: perm_fun_def split: option.splits)
qed

section \<open>Construction\<close>

lemma ceil_sqrt_from_spec:
  "0 \<le> k \<Longrightarrow> 0 < n \<Longrightarrow> k \<le> ceil_sqrt_from k n \<and> n \<le> ceil_sqrt_from k n * ceil_sqrt_from k n"
proof (induction k n rule: ceil_sqrt_from.induct)
  case (1 k n)
  show ?case
  proof (cases "k \<ge> n \<or> n \<le> k * k")
    case True
    moreover have "n \<le> k * k" if "k \<ge> n"
      using that "1.prems" mult_mono [of n k 1 k] by simp
    ultimately show ?thesis by (subst (1 2 3) ceil_sqrt_from.simps) auto
  next
    case False
    then have "ceil_sqrt_from k n = ceil_sqrt_from (k + 1) n"
      using "1.prems" by (subst ceil_sqrt_from.simps) auto
    then show ?thesis using "1.IH" False "1.prems" by auto
  qed
qed

lemma ceil_sqrt_spec: "0 < n \<Longrightarrow> 0 < ceil_sqrt n \<and> n \<le> ceil_sqrt n * ceil_sqrt n"
proof -
  assume n: "0 < n"
  have *: "0 \<le> ceil_sqrt n" "n \<le> ceil_sqrt n * ceil_sqrt n"
    using ceil_sqrt_from_spec [of 0 n] n by (auto simp: ceil_sqrt_def)
  then have "ceil_sqrt n \<noteq> 0" using n by auto
  then show ?thesis using * by simp
qed

lemma AdjustablePermutation_ok:
  assumes "0 < n" "\<And>s f xs. mset (shuffle s f xs) = mset xs"
  shows "perm_ok (AdjustablePermutation shuffle n seed)" and "perm_plain (AdjustablePermutation shuffle n seed)"
proof -
  have len: "length (shuffle s f xs) = length xs" and set: "set (shuffle s f xs) = set xs" for s f xs
    using assms(2) [of s f xs] by (metis size_mset, metis set_mset_mset)
  show "perm_ok (AdjustablePermutation shuffle n seed)" "perm_plain (AdjustablePermutation shuffle n seed)"
    using ceil_sqrt_spec [OF assms(1)] assms(1)
    by (auto simp: perm_ok_def perm_plain_def AdjustablePermutation_def round_tables_def len set)
qed



text \<open>
  After \<open>adjust(x, v)\<close> on a permutation with arbitrary earlier adjustments, \<open>get\<close>
  returns \<open>v\<close> for every argument that denotes \<open>x\<close> modulo \<open>n\<close> and what it returned before for every
  other argument; \<open>clear()\<close> brings back the underlying permutation.
\<close>
lemma adjust_overrides_one_value:
  assumes "perm_ok p" "perm_plain p"
  shows "\<exists>q. perm_adjust p x v = Some q
      \<and> (\<forall>y. perm_get q y = (if y mod ap_n p = x mod ap_n p then Some v else perm_get p y))
      \<and> perm_get (perm_clear_all q) = perm_get (perm_clear_all p)"
proof -
  obtain q where q: "perm_adjust p x v = Some q" "perm_ok q" "perm_plain q"
    "\<And>y. perm_fun q y = (if y mod ap_n p = x mod ap_n p then v else perm_fun p y)"
    using perm_adjust_spec [OF assms] by metis
  have "perm_clear_all q = perm_clear_all p"
    using q(1) perm_adjust_eq [OF assms, of x v] by (auto simp: perm_clear_all_def)
  then show ?thesis using q perm_get_eq [OF assms] perm_get_eq [OF q(2,3)] by auto
qed

section \<open>The undirected expander graph\<close>

text \<open>A permutation object all of whose values are defined and that permutes \<open>[0, n)\<close>.\<close>

definition perm_on :: "int \<Rightarrow> adj_perm \<Rightarrow> bool" where
  "perm_on n p \<longleftrightarrow> perm_ok p \<and> perm_plain p \<and> ap_n p = n \<and> bij_betw (perm_fun p) {0..<n} {0..<n}"

lemma perm_on_fresh:
  assumes "0 < n" "\<And>s f xs. mset (shuffle s f xs) = mset xs"
  shows "perm_on n (AdjustablePermutation shuffle n seed)"
proof -
  let ?p = "AdjustablePermutation shuffle n seed"
  note ok = AdjustablePermutation_ok [of n shuffle seed, OF assms]
  have n: "ap_n ?p = n" "ap_adjusted_values ?p = Map.empty"
    by (simp_all add: AdjustablePermutation_def)
  have "bij_betw (fw.walk ?p) {0..<n} {0..<n}"
    using fw.walk_bij [of ?p] domain_eq [OF ok(1)] n by simp
  moreover have "perm_fun ?p x = fw.walk ?p x" if "x \<in> {0..<n}" for x
    using n that by (simp add: perm_fun_def)
  ultimately have "bij_betw (perm_fun ?p) {0..<n} {0..<n}"
    using bij_betw_cong [of "{0..<n}" "perm_fun ?p" "fw.walk ?p" "{0..<n}"] by blast
  then show ?thesis using ok n(1) unfolding perm_on_def by blast
qed

lemma perm_on_get: "perm_on n p \<Longrightarrow> perm_get p x = Some (perm_fun p x)"
  by (simp add: perm_on_def perm_get_eq)

lemma perm_on_mod: "perm_on n p \<Longrightarrow> 0 < n \<Longrightarrow> perm_fun p (x mod n) = perm_fun p x"
  by (simp add: perm_on_def perm_fun_def cong: option.case_cong)

lemma perm_on_mem: "perm_on n p \<Longrightarrow> 0 < n \<Longrightarrow> perm_fun p x \<in> {0..<n}"
proof -
  assume p: "perm_on n p" and n: "0 < n"
  have "perm_fun p (x mod n) \<in> {0..<n}"
    using p n bij_betwE [of "perm_fun p" "{0..<n}" "{0..<n}"] by (simp add: perm_on_def)
  then show ?thesis using perm_on_mod [OF p n] by simp
qed

lemma perm_on_inj:
  assumes "perm_on n p" "0 < n"
  shows "perm_fun p x = perm_fun p y \<longleftrightarrow> x mod n = y mod n"
proof
  assume "perm_fun p x = perm_fun p y"
  then have "perm_fun p (x mod n) = perm_fun p (y mod n)" using perm_on_mod [OF assms] by simp
  then show "x mod n = y mod n"
    using assms by (auto simp: perm_on_def bij_betw_def inj_on_def)
qed (use perm_on_mod [OF assms] in metis)

lemma find_index_finds:
  assumes p: "perm_on n p" and j: "k \<le> j" "perm_fun p j = rank"
  shows "\<exists>i. find_index p rank k = Some i \<and> k \<le> i \<and> i \<le> j \<and> perm_fun p i = rank"
  using j(1)
proof (induction "nat (j - k)" arbitrary: k)
  case 0
  then show ?case using j by (auto simp: find_index.simps [of p rank k] perm_on_get [OF p])
next
  case (Suc m)
  then have "\<exists>i. find_index p rank (k + 1) = Some i \<and> k + 1 \<le> i \<and> i \<le> j \<and> perm_fun p i = rank"
    by (intro Suc.hyps(1)) auto
  then show ?case using Suc.prems
    by (auto simp: find_index.simps [of p rank k] perm_on_get [OF p])
qed

definition undirected_offset :: "int \<Rightarrow> int \<Rightarrow> nat \<Rightarrow> int" where
  "undirected_offset n degree i = 1 + int i * max 1 (c_div n (degree - 1))"

lemma c_mod_mod: "0 < n \<Longrightarrow> c_mod y n mod n = y mod n"
  by (simp add: c_mod_def mod_diff_eq [symmetric])

lemma undirected_edges_eq:
  assumes "perm_on n p" "0 < n"
  shows "undirected_edges p n degree k is =
    Some (concat (map (\<lambda>i. [perm_fun p (k + undirected_offset n degree i),
                            perm_fun p (k - undirected_offset n degree i)]) is))"
proof (induction "is")
  case (Cons i "is")
  have *: "perm_fun p (c_mod (n + y) n) = perm_fun p y" for y
    by (subst perm_on_inj [OF assms]) (simp add: c_mod_mod assms)
  show ?case
    using Cons * [of "k + undirected_offset n degree i"] * [of "k - undirected_offset n degree i"]
    by (simp add: perm_on_get [OF assms(1)] undirected_offset_def Let_def algebra_simps)
qed simp



section \<open>The directed expander graph\<close>

lemma swap_loop_spec:
  assumes "perm_on n p" "swap_loop valid p pos val draws = Some (sp, sv, ds)"
    and "\<forall>d \<in> set draws. 0 \<le> d \<and> d \<le> n - 2" "0 \<le> pos"
  shows "sv = perm_fun p sp" "valid pos sv" "valid sp val" "sp \<in> {0..<n}" "sp \<noteq> pos" "set ds \<subseteq> set draws"
proof -
  have "sv = perm_fun p sp \<and> valid pos sv \<and> valid sp val \<and> sp \<in> {0..<n} \<and> sp \<noteq> pos \<and> set ds \<subseteq> set draws"
    using assms(2,3)
  proof (induction draws)
    case (Cons d draws)
    let ?sp = "if d \<ge> pos then d + 1 else d"
    show ?case
    proof (cases "valid pos (perm_fun p ?sp) \<and> valid ?sp val")
      case True
      have "?sp \<in> {0..<n}" "?sp \<noteq> pos" using Cons.prems(2) assms(4) by auto
      then show ?thesis using Cons.prems(1) True by (auto simp: perm_on_get [OF assms(1)] Let_def)
    next
      case False
      then have "swap_loop valid p pos val draws = Some (sp, sv, ds)"
        using Cons.prems(1) by (auto simp: perm_on_get [OF assms(1)] Let_def split: if_splits)
      then show ?thesis using Cons.IH Cons.prems(2) by auto
    qed
  qed simp
  then show "sv = perm_fun p sp" "valid pos sv" "valid sp val" "sp \<in> {0..<n}" "sp \<noteq> pos" "set ds \<subseteq> set draws"
    by auto
qed

definition swap_at :: "int \<Rightarrow> int \<Rightarrow> int \<Rightarrow> int" where
  "swap_at i j x = (if x = i then j else if x = j then i else x)"

lemma perm_on_swap:
  assumes p: "perm_on n p" and ij: "i \<in> {0..<n}" "j \<in> {0..<n}" "i \<noteq> j"
  obtains q q' where "perm_adjust p i (perm_fun p j) = Some q"
    "perm_adjust q j (perm_fun p i) = Some q'" "perm_on n q'"
    "\<And>x. x \<in> {0..<n} \<Longrightarrow> perm_fun q' x = perm_fun p (swap_at i j x)"
proof -
  have ok: "perm_ok p" "perm_plain p" "ap_n p = n" using p by (auto simp: perm_on_def)
  obtain q where q: "perm_adjust p i (perm_fun p j) = Some q" "perm_ok q" "perm_plain q" "ap_n q = n"
    "\<And>y. perm_fun q y = (if y mod n = i mod n then perm_fun p j else perm_fun p y)"
    using perm_adjust_spec [OF ok(1,2), of i "perm_fun p j"] ok(3) by metis
  obtain q' where q': "perm_adjust q j (perm_fun p i) = Some q'" "perm_ok q'" "perm_plain q'" "ap_n q' = n"
    "\<And>y. perm_fun q' y = (if y mod n = j mod n then perm_fun p i else perm_fun q y)"
    using perm_adjust_spec [OF q(2,3), of j "perm_fun p i"] q(4) by metis
  have eq: "perm_fun q' x = (perm_fun p \<circ> swap_at i j) x" if "x \<in> {0..<n}" for x
    using that ij q'(5) [of x] q(5) [of x] by (auto simp: swap_at_def)
  have "bij_betw (swap_at i j) {0..<n} {0..<n}"
    using ij by (intro bij_betw_byWitness [where f' = "swap_at i j"]) (auto simp: swap_at_def)
  then have "bij_betw (perm_fun p \<circ> swap_at i j) {0..<n} {0..<n}"
    using p by (intro bij_betw_trans) (auto simp: perm_on_def)
  then have "bij_betw (perm_fun q') {0..<n} {0..<n}"
    using bij_betw_cong [of "{0..<n}" "perm_fun q'" "perm_fun p \<circ> swap_at i j" "{0..<n}"] eq by blast
  then have "perm_on n q'" using q' by (simp add: perm_on_def)
  then show ?thesis using that [OF q(1) q'(1)] eq by simp
qed

lemma position_loop_spec:
  assumes "perm_on n p" "\<forall>d \<in> set draws. 0 \<le> d \<and> d \<le> n - 2" "0 \<le> k"
    and "position_loop valid [k..n - 1] p draws = Some (q, ds)"
    and "\<forall>x \<in> {0..<k}. x < n \<longrightarrow> valid x (perm_fun p x)"
  shows "perm_on n q \<and> set ds \<subseteq> set draws \<and> (\<forall>x \<in> {0..<n}. valid x (perm_fun q x))"
  using assms
proof (induction "nat (n - k)" arbitrary: k p draws)
  case 0
  then show ?case by auto
next
  case (Suc m)
  have k: "k < n" "[k..n - 1] = k # [k + 1..n - 1]"
    using Suc.hyps(2) by (auto simp: upto_rec1)
  note get = perm_on_get [OF Suc.prems(1)]
  have IH: "perm_on n q \<and> set ds \<subseteq> set draws' \<and> (\<forall>x \<in> {0..<n}. valid x (perm_fun q x))"
    if "perm_on n p'" "set draws' \<subseteq> set draws" "position_loop valid [k + 1..n - 1] p' draws' = Some (q, ds)"
      "\<And>x. x \<in> {0..<n} \<Longrightarrow> x \<le> k \<Longrightarrow> valid x (perm_fun p' x)" for p' draws'
    using that Suc.hyps(2) Suc.prems(2,3) by (intro Suc.hyps(1) [of "k + 1" p' draws']) auto
  show ?case
  proof (cases "valid k (perm_fun p k)")
    case True
    have "position_loop valid [k + 1..n - 1] p draws = Some (q, ds)"
      using Suc.prems(4) True unfolding k(2) by (simp add: get)
    moreover have "valid x (perm_fun p x)" if "x \<in> {0..<n}" "x \<le> k" for x
      using that True Suc.prems(5) by (cases "x = k") auto
    ultimately show ?thesis using IH [OF Suc.prems(1) subset_refl] by auto
  next
    case False
    then obtain sp sv draws' where swap: "swap_loop valid p k (perm_fun p k) draws = Some (sp, sv, draws')"
      using Suc.prems(4) unfolding k(2) by (auto simp: get split: Option.bind_splits)
    note sw = swap_loop_spec [OF Suc.prems(1) swap Suc.prems(2,3)]
    obtain p1 p2 where adj: "perm_adjust p k (perm_fun p sp) = Some p1"
      "perm_adjust p1 sp (perm_fun p k) = Some p2" "perm_on n p2"
      "\<And>x. x \<in> {0..<n} \<Longrightarrow> perm_fun p2 x = perm_fun p (swap_at k sp x)"
      using perm_on_swap [OF Suc.prems(1), of k sp] k(1) Suc.prems(3) sw(4,5) by (metis atLeastLessThan_iff)
    have "position_loop valid [k + 1..n - 1] p2 draws' = Some (q, ds)"
      using Suc.prems(4) False swap adj(1,2) sw(1) unfolding k(2) by (simp add: get)
    moreover have "valid x (perm_fun p2 x)" if "x \<in> {0..<n}" "x \<le> k" for x
      using that adj(4) [OF that(1)] sw(1-3) Suc.prems(5)
      by (cases "x = k"; cases "x = sp") (auto simp: swap_at_def)
    ultimately show ?thesis using IH [OF adj(3) sw(6)] sw(6) by auto
  qed
qed

lemma intrinsic_partners_spec:
  assumes p: "perm_on n p" "0 < n" and "0 \<le> k" "length parts = nat n"
  shows "\<exists>parts'. intrinsic_partners p n [k..n - 1] parts = Some parts' \<and> length parts' = nat n
    \<and> (\<forall>x \<in> {k..<n}. parts' ! nat (perm_fun p x) = perm_fun p (x + 1))
    \<and> (\<forall>y \<in> {0..<n}. y \<notin> perm_fun p ` {k..<n} \<longrightarrow> parts' ! nat y = parts ! nat y)"
  using assms(3-)
proof (induction "nat (n - k)" arbitrary: k parts)
  case (Suc m)
  have k: "k < n" "[k..n - 1] = k # [k + 1..n - 1]"
    using Suc.hyps(2) by (auto simp: upto_rec1)
  let ?parts = "parts[nat (perm_fun p k) := perm_fun p (k + 1)]"
  have "perm_fun p (c_mod (k + 1) n) = perm_fun p (k + 1)"
    using p Suc.prems(1) by (simp add: perm_on_inj c_mod_mod)
  then have step: "intrinsic_partners p n [k..n - 1] parts = intrinsic_partners p n [k + 1..n - 1] ?parts"
    unfolding k(2) by (simp add: perm_on_get [OF p(1)])
  obtain parts' where parts': "intrinsic_partners p n [k + 1..n - 1] ?parts = Some parts'" "length parts' = nat n"
    "\<forall>x \<in> {k + 1..<n}. parts' ! nat (perm_fun p x) = perm_fun p (x + 1)"
    "\<forall>y \<in> {0..<n}. y \<notin> perm_fun p ` {k + 1..<n} \<longrightarrow> parts' ! nat y = ?parts ! nat y"
  proof -
    have "m = nat (n - (k + 1))" using Suc.hyps(2) by linarith
    from Suc.hyps(1) [OF this, of ?parts] show ?thesis using that Suc.prems by force
  qed
  have mem: "perm_fun p k \<in> {0..<n}" by (rule perm_on_mem [OF p])
  have "perm_fun p k \<notin> perm_fun p ` {k + 1..<n}"
  proof
    assume "perm_fun p k \<in> perm_fun p ` {k + 1..<n}"
    then obtain y where "perm_fun p k = perm_fun p y" "y \<in> {k + 1..<n}" by (rule imageE)
    then show False using Suc.prems(1) perm_on_inj [OF p, of k y] by simp
  qed
  then have "parts' ! nat (perm_fun p k) = perm_fun p (k + 1)"
    using parts'(4) mem Suc.prems(2) by auto
  moreover have "parts' ! nat y = parts ! nat y" if "y \<in> {0..<n}" "y \<notin> perm_fun p ` {k..<n}" for y
  proof -
    have "y \<noteq> perm_fun p k" using that(2) k(1) by auto
    then have "nat y \<noteq> nat (perm_fun p k)" using that(1) mem by auto
    then show ?thesis using parts'(4) that by force
  qed
  moreover have "parts' ! nat (perm_fun p x) = perm_fun p (x + 1)" if "x \<in> {k..<n}" for x
    using that calculation(1) parts'(3) by (cases "x = k") auto
  ultimately show ?case using step parts'(1,2) by auto
qed auto

text \<open>Two permutations never agree.\<close>

definition edge_disjoint :: "int \<Rightarrow> adj_perm \<Rightarrow> adj_perm \<Rightarrow> bool" where
  "edge_disjoint n p q \<longleftrightarrow> (\<forall>x \<in> {0..<n}. perm_fun p x \<noteq> perm_fun q x)"

definition fresh_edges :: "int \<Rightarrow> int list \<Rightarrow> adj_perm \<Rightarrow> bool" where
  "fresh_edges n partners p \<longleftrightarrow>
     perm_on n p \<and> (\<forall>x \<in> {0..<n}. perm_fun p x \<noteq> x \<and> perm_fun p x \<noteq> partners ! nat x)"

lemma permutation_loop_spec:
  assumes "0 < n" "\<And>s f xs. mset (shuffle s f xs) = mset xs"
    and "\<forall>d \<in> set draws. 0 \<le> d \<and> d \<le> n - 2"
    and "\<forall>p \<in> set perms. fresh_edges n partners p" "sorted_wrt (edge_disjoint n) perms"
    and "permutation_loop shuffle n partners rs perms draws = Some qs"
  shows "length qs = length perms + length rs \<and> (\<forall>p \<in> set qs. fresh_edges n partners p)
    \<and> sorted_wrt (edge_disjoint n) qs"
  using assms(3-)
proof (induction rs arbitrary: perms draws)
  case (Cons r rs)
  let ?valid = "isValid perms partners"
  obtain p ds where pl: "position_loop ?valid [0..n - 1]
      (AdjustablePermutation shuffle n (n * (r + 1))) draws = Some (p, ds)"
    "permutation_loop shuffle n partners rs (perms @ [p]) ds = Some qs"
    using Cons.prems(4) by (auto split: Option.bind_splits)
  have p: "perm_on n p" "set ds \<subseteq> set draws" "\<And>x. x \<in> {0..<n} \<Longrightarrow> ?valid x (perm_fun p x)"
    using position_loop_spec [OF perm_on_fresh [OF assms(1,2)] Cons.prems(1) order_refl pl(1)] by auto
  have "fresh_edges n partners p"
    using p(1) p(3) [unfolded isValid_def] unfolding fresh_edges_def by metis
  moreover have "edge_disjoint n q p" if "q \<in> set perms" for q
    using that p(3) Cons.prems(2)
    by (fastforce simp: edge_disjoint_def isValid_def list_all_iff fresh_edges_def perm_on_get)
  ultimately have "length qs = length (perms @ [p]) + length rs \<and> (\<forall>p \<in> set qs. fresh_edges n partners p)
      \<and> sorted_wrt (edge_disjoint n) qs"
    using Cons.prems(1-3) p(2) by (intro Cons.IH [OF _ _ _ pl(2)]) (auto simp: sorted_wrt_append)
  then show ?case by simp
qed auto

lemma perm_on_cycle:
  assumes p: "perm_on n p" "0 < n" and f: "\<And>x. x \<in> {0..<n} \<Longrightarrow> f (perm_fun p x) = perm_fun p (x + 1)"
    and rs: "r \<in> {0..<n}" "s \<in> {0..<n}"
  shows "\<exists>k. (f ^^ k) r = s"
proof -
  have onto: "perm_fun p ` {0..<n} = {0..<n}" using p by (simp add: perm_on_def bij_betw_def)
  have step: "(f ^^ k) (perm_fun p x) = perm_fun p (x + int k)" for k x
  proof (induction k)
    case (Suc k)
    have "f (perm_fun p (x + int k)) = perm_fun p ((x + int k) mod n + 1)"
      using f [of "(x + int k) mod n"] p perm_on_mod [OF p] by simp
    also have "\<dots> = perm_fun p (x + int k + 1)"
      by (subst perm_on_inj [OF p]) (simp add: mod_add_left_eq)
    finally show ?case using Suc by (simp add: algebra_simps)
  qed simp
  obtain x y where xy: "x \<in> {0..<n}" "perm_fun p x = r" "y \<in> {0..<n}" "perm_fun p y = s"
    using rs onto by (metis imageE)
  have "perm_fun p (x + int (nat (y - x + n))) = perm_fun p y"
    using xy by (subst perm_on_inj [OF p]) auto
  then show ?thesis using step [of "nat (y - x + n)" x] xy(2,4) by metis
qed

lemma partners_bij:
  assumes p: "perm_on n p" "0 < n" and f: "\<And>x. x \<in> {0..<n} \<Longrightarrow> f (perm_fun p x) = perm_fun p (x + 1)"
  shows "bij_betw f {0..<n} {0..<n}"
proof -
  have onto: "perm_fun p ` {0..<n} = {0..<n}" using p by (simp add: perm_on_def bij_betw_def)
  have "f ` {0..<n} \<subseteq> {0..<n}"
  proof
    fix y assume "y \<in> f ` {0..<n}"
    then have "y \<in> f ` perm_fun p ` {0..<n}" by (simp only: onto)
    then show "y \<in> {0..<n}" using f perm_on_mem [OF p] by auto
  qed
  moreover have "inj_on f {0..<n}"
  proof (rule inj_onI)
    fix r s assume rs: "r \<in> {0..<n}" "s \<in> {0..<n}" "f r = f s"
    then obtain x y where xy: "x \<in> {0..<n}" "perm_fun p x = r" "y \<in> {0..<n}" "perm_fun p y = s"
      using onto by (metis imageE)
    then have "(x + 1) mod n = (y + 1) mod n" using rs(3) f perm_on_inj [OF p] by metis
    then show "r = s" using xy mod_add_cancel_range [of x n y 1] by auto
  qed
  ultimately show ?thesis by (simp add: bij_betw_def endo_inj_surj)
qed

lemma getPermutations_spec:
  assumes n: "2 \<le> n" and shuffle: "\<And>s f xs. mset (shuffle s f xs) = mset xs"
    and draws: "\<forall>d \<in> set draws. 0 \<le> d \<and> d \<le> n - 2"
    and ret: "getPermutations shuffle draws n degree = Some perms"
  shows "length perms = Suc (nat (degree - 1))"
    and "\<And>r. r \<in> {0..<n} \<Longrightarrow> distinct (createExpanderGraph perms r)
      \<and> r \<notin> set (createExpanderGraph perms r) \<and> set (createExpanderGraph perms r) \<subseteq> {0..<n}"
    and "\<And>i. i < length perms \<Longrightarrow> bij_betw (\<lambda>r. createExpanderGraph perms r ! i) {0..<n} {0..<n}"
    and "\<And>r s. r \<in> {0..<n} \<Longrightarrow> s \<in> {0..<n} \<Longrightarrow>
      \<exists>k. ((\<lambda>v. createExpanderGraph perms v ! 0) ^^ k) r = s"
proof -
  let ?p = "AdjustablePermutation shuffle n (n - 1)"
  have n0: "0 < n" using n by simp
  have p: "perm_on n ?p" by (rule perm_on_fresh [OF n0 shuffle])
  obtain parts qs where ip: "intrinsic_partners ?p n [0..n - 1] (replicate (nat n) 0) = Some parts"
    and pl: "permutation_loop shuffle n parts [1..degree - 1] [] draws = Some qs"
    and perms: "perms = parts # map (\<lambda>q. map (\<lambda>j. the (perm_get q j)) [0..n - 1]) qs"
    using ret by (auto simp: getPermutations_def split: Option.bind_splits)
  have parts: "parts ! nat (perm_fun ?p x) = perm_fun ?p (x + 1)" if "x \<in> {0..<n}" for x
    using intrinsic_partners_spec [OF p n0 order_refl, of "replicate (nat n) 0"] ip that by auto
  have qs: "length qs = nat (degree - 1)" "\<And>q. q \<in> set qs \<Longrightarrow> fresh_edges n parts q"
    "sorted_wrt (edge_disjoint n) qs"
    using permutation_loop_spec [OF n0 shuffle draws _ _ pl] by auto
  have get: "perm_get q j = Some (perm_fun q j)" if "q \<in> set qs" for q j
    using qs(2) [OF that] perm_on_get [of n q j] by (simp add: fresh_edges_def)
  show "length perms = Suc (nat (degree - 1))" using qs(1) perms by simp
  have graph: "createExpanderGraph perms r = parts ! nat r # map (\<lambda>q. perm_fun q r) qs"
    if "r \<in> {0..<n}" for r
    using that get by (auto simp: createExpanderGraph_def perms)
  have bij0: "bij_betw (\<lambda>r. parts ! nat r) {0..<n} {0..<n}"
    by (rule partners_bij [OF p n0]) (rule parts)
  have onto: "perm_fun ?p ` {0..<n} = {0..<n}" using p by (simp add: perm_on_def bij_betw_def)
  have no_fix: "parts ! nat r \<noteq> r" if mem: "r \<in> {0..<n}" for r
  proof -
    obtain x where x: "x \<in> {0..<n}" "perm_fun ?p x = r"
      using mem onto by (metis imageE)
    have "(x + 1) mod n \<noteq> x mod n"
      using x(1) n by (cases "x + 1 = n") simp_all
    then show ?thesis using parts [OF x(1)] x(2) perm_on_inj [OF p n0, of "x + 1" x] by simp
  qed
  show "distinct (createExpanderGraph perms r) \<and> r \<notin> set (createExpanderGraph perms r)
      \<and> set (createExpanderGraph perms r) \<subseteq> {0..<n}" if r: "r \<in> {0..<n}" for r
  proof -
    have "sorted_wrt (\<lambda>q q'. perm_fun q r \<noteq> perm_fun q' r) qs"
      using sorted_wrt_mono_rel [OF _ qs(3), of "\<lambda>q q'. perm_fun q r \<noteq> perm_fun q' r"] r
      by (simp add: edge_disjoint_def)
    then have "distinct (map (\<lambda>q. perm_fun q r) qs)" by (induction qs) auto
    moreover have "parts ! nat r \<in> {0..<n}" using bij_betwE [OF bij0] r by blast
    moreover have "perm_fun q r \<in> {0..<n}" "perm_fun q r \<noteq> r" "perm_fun q r \<noteq> parts ! nat r"
      if "q \<in> set qs" for q
      using qs(2) [OF that] r perm_on_mem [of n q r] n0 by (auto simp: fresh_edges_def)
    ultimately show ?thesis unfolding graph [OF r] using no_fix [OF r] by (fastforce simp: image_iff)
  qed
  show "bij_betw (\<lambda>r. createExpanderGraph perms r ! i) {0..<n} {0..<n}" if "i < length perms" for i
  proof (cases i)
    case 0
    then show ?thesis using bij0 by (subst bij_betw_cong [where g = "\<lambda>r. parts ! nat r"]) (auto simp: graph)
  next
    case (Suc j)
    then have j: "j < length qs" using that perms by simp
    then have "bij_betw (perm_fun (qs ! j)) {0..<n} {0..<n}"
      using qs(2) [of "qs ! j"] by (simp add: fresh_edges_def perm_on_def)
    then show ?thesis using Suc j
      by (subst bij_betw_cong [where g = "perm_fun (qs ! j)"]) (auto simp: graph)
  qed
  show "\<exists>k. ((\<lambda>v. createExpanderGraph perms v ! 0) ^^ k) r = s"
    if "r \<in> {0..<n}" "s \<in> {0..<n}" for r s
    by (rule perm_on_cycle [OF p n0 _ that]) (use graph parts perm_on_mem [OF p n0] in auto)
qed



end
