(* ===== verification/Byte_Codec.thy ===== *)
theory Byte_Codec
  imports Mallob_Prelude
begin

text \<open>
  The byte layout behind \<open>Serializable\<close> (src/src/data/serializable.hpp): every message of the
  system copies the bytes of its fields into a vector with \<open>memcpy(packed.data()+i, &x, n); i += n\<close>
  and reads them back the same way. \<open>put_int\<close>, \<open>put_size_t\<close>, \<open>put_float\<close>, \<open>put_bool\<close> are the bytes of
  one object (little endian); \<open>rd\<close> is one \<open>memcpy\<close> out of the vector followed by \<open>i += n\<close>, which
  yields \<open>None\<close> where the copy would run past the end of the vector or produce a value that the
  target type does not have. The locale \<open>field_codec\<close> is the contract of one field type, the locale
  \<open>serializable\<close> that of a whole message; the generic lemmas about sequences of fixed-size
  records are proved once in them.
\<close>

type_synonym byte = "8 word"

section \<open>Object representations\<close>

fun le_bytes :: "nat \<Rightarrow> nat \<Rightarrow> byte list" where
  "le_bytes 0 x = []"
| "le_bytes (Suc n) x = word_of_nat (x mod 256) # le_bytes n (x div 256)"

fun le_nat :: "byte list \<Rightarrow> nat" where
  "le_nat [] = 0"
| "le_nat (b # bs) = unat b + 256 * le_nat bs"

text \<open>\<open>sizeof(int) = 4\<close>, two's complement.\<close>

definition put_int :: "int \<Rightarrow> byte list" where
  "put_int x = le_bytes 4 (nat (x mod 2 ^ 32))"

definition get_int :: "byte list \<Rightarrow> int option" where
  "get_int bs = (let v = int (le_nat bs) in Some (if v < 2 ^ 31 then v else v - 2 ^ 32))"

text \<open>\<open>sizeof(size_t) = 8\<close>.\<close>

definition put_size_t :: "64 word \<Rightarrow> byte list" where
  "put_size_t x = le_bytes 8 (unat x)"

definition get_size_t :: "byte list \<Rightarrow> 64 word option" where
  "get_size_t bs = Some (word_of_nat (le_nat bs))"

text \<open>A \<open>float\<close> is its 32-bit pattern; serialization never looks inside.\<close>

type_synonym float32 = "32 word"

definition put_float :: "float32 \<Rightarrow> byte list" where
  "put_float x = le_bytes 4 (unat x)"

definition get_float :: "byte list \<Rightarrow> float32 option" where
  "get_float bs = Some (word_of_nat (le_nat bs))"

definition put_bool :: "bool \<Rightarrow> byte list" where
  "put_bool b = [if b then 1 else 0]"

definition get_bool :: "byte list \<Rightarrow> bool option" where
  "get_bool bs = (if bs = [0] then Some False else if bs = [1] then Some True else None)"

text \<open>One \<open>memcpy\<close> of \<open>n\<close> bytes out of the message, advancing the read position.\<close>

definition rd :: "nat \<Rightarrow> (byte list \<Rightarrow> 'a option) \<Rightarrow> byte list \<Rightarrow> ('a \<times> byte list) option" where
  "rd n get bs =
     (if n \<le> length bs
      then (case get (take n bs) of None \<Rightarrow> None | Some x \<Rightarrow> Some (x, drop n bs))
      else None)"

abbreviation "rd_int \<equiv> rd 4 get_int"
abbreviation "rd_size_t \<equiv> rd 8 get_size_t"
abbreviation "rd_float \<equiv> rd 4 get_float"
abbreviation "rd_bool \<equiv> rd 1 get_bool"

text \<open>
  A trailing array: \<open>n = packed.size()-i; v.resize(n/sizeof(T)); memcpy(v.data(), packed.data()+i, n)\<close>.
  When \<open>n\<close> is not a multiple of the element size the copy writes past the end of \<open>v\<close>.
\<close>

fun chunks :: "nat \<Rightarrow> nat \<Rightarrow> byte list \<Rightarrow> byte list list" where
  "chunks w 0 bs = []"
| "chunks w (Suc n) bs = take w bs # chunks w n (drop w bs)"

fun collect :: "'a option list \<Rightarrow> 'a list option" where
  "collect [] = Some []"
| "collect (None # xs) = None"
| "collect (Some x # xs) = (case collect xs of None \<Rightarrow> None | Some ys \<Rightarrow> Some (x # ys))"

definition get_array :: "nat \<Rightarrow> (byte list \<Rightarrow> 'a option) \<Rightarrow> byte list \<Rightarrow> 'a list option" where
  "get_array w get bs =
     (if length bs mod w \<noteq> 0 then None
      else collect (map get (chunks w (length bs div w) bs)))"

section \<open>Facts about the representations\<close>

lemma length_le_bytes [simp, codec_simps]: "length (le_bytes n x) = n"
  by (induction n arbitrary: x) auto

lemma le_nat_le_bytes: "le_nat (le_bytes n x) = x mod 256 ^ n"
proof (induction n arbitrary: x)
  case (Suc n)
  have "unat (word_of_nat (x mod 256) :: byte) = x mod 256"
    by (simp add: unat_of_nat)
  with Suc show ?case by (simp add: mod_mult2_eq)
qed simp

lemma le_nat_bound: "le_nat bs < 256 ^ length bs"
proof (induction bs)
  case (Cons b bs)
  have "unat b < 256" using unsigned_less [of b, where 'a = nat] by simp
  moreover have "256 * (le_nat bs + 1) \<le> 256 * 256 ^ length bs"
    using Cons by (intro mult_left_mono) auto
  ultimately show ?case by simp
qed simp

lemma le_bytes_le_nat: "le_bytes (length bs) (le_nat bs) = bs"
proof (induction bs)
  case (Cons b bs)
  have b: "unat b < 256" using unsigned_less [of b, where 'a = nat] by simp
  then have "(unat b + 256 * le_nat bs) mod 256 = unat b"
    and "(unat b + 256 * le_nat bs) div 256 = le_nat bs"
    by auto
  with Cons show ?case by simp
qed simp

lemma length_put [simp, codec_simps]:
  "length (put_int x) = 4" "length (put_size_t s) = 8" "length (put_float f) = 4"
  "length (put_bool b) = 1"
  by (simp_all add: put_int_def put_size_t_def put_float_def put_bool_def)

lemma get_put_int: "int32 x \<Longrightarrow> get_int (put_int x) = Some x"
proof -
  assume "int32 x"
  then have "x mod 2 ^ 32 = (if 0 \<le> x then x else x + 2 ^ 32)"
    using mod_pos_pos_trivial [of x "2 ^ 32"] mod_pos_pos_trivial [of "x + 2 ^ 32" "2 ^ 32"]
    by (auto simp: int32_def)
  with \<open>int32 x\<close> show ?thesis
    by (auto simp: get_int_def put_int_def le_nat_le_bytes int32_def)
qed

lemma get_put_size_t: "get_size_t (put_size_t x) = Some x"
proof -
  have "unat x mod 256 ^ 8 = unat x"
    using unsigned_less [of x, where 'a = nat] by simp
  then show ?thesis by (simp add: get_size_t_def put_size_t_def le_nat_le_bytes)
qed

lemma get_put_float: "get_float (put_float x) = Some x"
proof -
  have "unat x mod 256 ^ 4 = unat x"
    using unsigned_less [of x, where 'a = nat] by simp
  then show ?thesis by (simp add: get_float_def put_float_def le_nat_le_bytes)
qed

lemma get_put_bool: "get_bool (put_bool b) = Some b"
  by (simp add: get_bool_def put_bool_def)

lemma get_int_int32: "length bs = 4 \<Longrightarrow> get_int bs = Some x \<Longrightarrow> int32 x"
  using le_nat_bound [of bs] by (auto simp: get_int_def int32_def Let_def split: if_splits)

section \<open>Contract of one field type\<close>

locale field_codec =
  fixes width :: nat
    and put :: "'a \<Rightarrow> byte list"
    and get :: "byte list \<Rightarrow> 'a option"
    and ok :: "'a \<Rightarrow> bool"
  assumes width_pos: "0 < width"
    and length_put_field: "length (put x) = width"
    and get_put: "ok x \<Longrightarrow> get (put x) = Some x"
begin

lemma rd_put: "ok x \<Longrightarrow> rd width get (put x @ rest) = Some (x, rest)"
  by (simp add: rd_def length_put_field get_put)

lemma rd_put_Nil: "ok x \<Longrightarrow> rd width get (put x) = Some (x, [])"
  using rd_put [of x "[]"] by simp

lemma rd_too_short: "length bs < width \<Longrightarrow> rd width get bs = None"
  by (simp add: rd_def)

lemma length_concat_put: "length (concat (map put xs)) = width * length xs"
  by (induction xs) (auto simp: length_put_field)

lemma chunks_concat: "chunks width (length xs) (concat (map put xs)) = map put xs"
  by (induction xs) (auto simp: length_put_field)

lemma collect_get_put: "\<forall>x \<in> set xs. ok x \<Longrightarrow> collect (map (get \<circ> put) xs) = Some xs"
  by (induction xs) (auto simp: get_put)

lemma get_array_concat: "\<forall>x \<in> set xs. ok x \<Longrightarrow> get_array width get (concat (map put xs)) = Some xs"
  using width_pos
  by (simp add: get_array_def length_concat_put chunks_concat collect_get_put)

lemma get_array_misaligned: "length bs mod width \<noteq> 0 \<Longrightarrow> get_array width get bs = None"
  by (simp add: get_array_def)

end

interpretation int_field: field_codec 4 put_int get_int int32
  by unfold_locales (auto simp: get_put_int)

interpretation size_t_field: field_codec 8 put_size_t get_size_t "\<lambda>_. True"
  by unfold_locales (auto simp: get_put_size_t)

interpretation float_field: field_codec 4 put_float get_float "\<lambda>_. True"
  by unfold_locales (auto simp: get_put_float)

interpretation bool_field: field_codec 1 put_bool get_bool "\<lambda>_. True"
  by unfold_locales (auto simp: get_put_bool)

lemmas rd_puts [simp, codec_simps] =
  int_field.rd_put size_t_field.rd_put [OF TrueI] float_field.rd_put [OF TrueI]
  bool_field.rd_put [OF TrueI] int_field.rd_put_Nil size_t_field.rd_put_Nil [OF TrueI]
  float_field.rd_put_Nil [OF TrueI] bool_field.rd_put_Nil [OF TrueI]
  bool_field.rd_put [OF TrueI, unfolded One_nat_def]
  bool_field.rd_put_Nil [OF TrueI, unfolded One_nat_def]

lemma put_bool_not_Nil [simp, codec_simps]: "put_bool b \<noteq> []"
  by (simp add: put_bool_def)

section \<open>Contract of a whole message\<close>

text \<open>
  \<open>Serializable\<close>: \<open>deserialize\<close> of the bytes that \<open>serialize\<close> produced yields the object again.
  For a message of constant size, a sequence of packed messages is read back by cutting it into
  pieces of that size, which is what the receivers of lists of requests and events do.
\<close>

locale serializable =
  fixes ser :: "'m \<Rightarrow> byte list"
    and des :: "byte list \<Rightarrow> 'm option"
    and valid :: "'m \<Rightarrow> bool"
  assumes roundtrip: "valid m \<Longrightarrow> des (ser m) = Some m"
begin

lemma ser_inj: "valid m \<Longrightarrow> valid m' \<Longrightarrow> ser m = ser m' \<Longrightarrow> m = m'"
  by (metis option.inject roundtrip)

end

locale fixed_serializable = serializable +
  fixes size :: nat
  assumes size_pos: "0 < size"
    and length_ser: "length (ser m) = size"
begin

lemma field_codec_of_message: "field_codec size ser des valid"
  by (rule field_codec.intro [OF size_pos length_ser roundtrip])

end

sublocale fixed_serializable \<subseteq> as_field: field_codec size ser des valid
  by (rule field_codec_of_message)

end
