(* ===== verification/Hashing.thy ===== *)
theory Hashing
  imports Byte_Codec
begin

unbundle bit_operations_syntax

text \<open>
  The hash functions the scheduler depends on: \<open>robin_hood::hash_int\<close> (the 128-bit multiplication
  variant that is compiled on 64-bit GCC and Clang), \<open>hash_combine\<close> of src/src/util/hashing.hpp and the
  running \<open>Checksum\<close> of src/src/data/checksum.hpp. All arithmetic is modulo \<open>2 ^ 64\<close>.
\<close>

text \<open>\<open>umul128(obj, k, &h)\<close> yields the low half and stores the high half of the product in \<open>h\<close>.\<close>

definition hash_int :: "64 word \<Rightarrow> 64 word" where
  "hash_int obj =
     (let p = unat obj * 0xde5fb9d2630458e9;
          h = (word_of_nat (p div 2 ^ 64) :: 64 word);
          l = (word_of_nat p :: 64 word)
      in h + l)"

text \<open>\<open>robin_hood::hash<int>\<close>: the \<open>int\<close> is converted to \<open>uint64_t\<close>, which sign-extends it.\<close>

definition robin_hood_hash :: "int \<Rightarrow> 64 word" where
  "robin_hood_hash x = hash_int (word_of_int x)"

definition hash_combine :: "64 word \<Rightarrow> 64 word \<Rightarrow> 64 word" where
  "hash_combine s h = s XOR (h + 0x9e3779b9 + push_bit 6 s + drop_bit 2 s)"

record checksum =
  cs_count :: "64 word"
  cs_val :: "64 word"

definition Checksum_init :: checksum where
  "Checksum_init = \<lparr>cs_count = 0, cs_val = 0\<rparr>"

definition Checksum_combine :: "int \<Rightarrow> checksum \<Rightarrow> checksum" where
  "Checksum_combine x c =
     c\<lparr>cs_count := cs_count c + 1, cs_val := hash_combine (cs_val c) (robin_hood_hash x)\<rparr>"

text \<open>\<open>sizeof(Checksum) = 16\<close>: the two members in declaration order.\<close>

definition put_checksum :: "checksum \<Rightarrow> byte list" where
  "put_checksum c = put_size_t (cs_count c) @ put_size_t (cs_val c)"

definition get_checksum :: "byte list \<Rightarrow> checksum option" where
  "get_checksum bs =
     do {
       (count, bs) \<leftarrow> rd_size_t bs;
       (v, _) \<leftarrow> rd_size_t bs;
       Some \<lparr>cs_count = count, cs_val = v\<rparr>
     }"

abbreviation "rd_checksum \<equiv> rd 16 get_checksum"

interpretation checksum_field: field_codec 16 put_checksum get_checksum "\<lambda>_. True"
  by unfold_locales (simp_all add: put_checksum_def get_checksum_def)

lemmas rd_put_checksum [simp, codec_simps] =
  checksum_field.rd_put [OF TrueI] checksum_field.rd_put_Nil [OF TrueI]

lemma length_put_checksum [simp, codec_simps]: "length (put_checksum c) = 16"
  by (rule checksum_field.length_put_field)

lemma Checksum_count_fold:
  "cs_count (fold Checksum_combine xs c) = cs_count c + word_of_nat (length xs)"
  by (induction xs arbitrary: c) (auto simp: Checksum_combine_def)

end
