(* ===== verification/Job_Transfer.thy ===== *)
theory Job_Transfer
  imports Hashing "HOL-Library.Product_Lexorder"
begin

text \<open>
  The messages of src/src/data/job_transfer.hpp and .cpp: job requests and their rejection, work
  requests, job signatures, application messages, integer pairs and vectors and job statistics.
  Each message is a record; \<open>..._serialize\<close> and \<open>..._deserialize\<close> follow the field order of the code,
  which differs from the declaration order of the members for \<open>JobRequest\<close>. The comparison operators
  of \<open>JobRequest\<close> (the key order of the request sets) and of \<open>WorkRequest\<close> are here too.
\<close>

section \<open>Messages\<close>

datatype application = ONESHOT_SAT | INCREMENTAL_SAT | DUMMY

definition put_application :: "application \<Rightarrow> byte list" where
  "put_application a =
     put_int (case a of ONESHOT_SAT \<Rightarrow> 0 | INCREMENTAL_SAT \<Rightarrow> 1 | DUMMY \<Rightarrow> 2)"

definition get_application :: "byte list \<Rightarrow> application option" where
  "get_application bs =
     (case get_int bs of None \<Rightarrow> None
      | Some x \<Rightarrow> if x = 0 then Some ONESHOT_SAT else if x = 1 then Some INCREMENTAL_SAT
                 else if x = 2 then Some DUMMY else None)"

abbreviation "rd_application \<equiv> rd 4 get_application"

definition isApplicationIncremental :: "application \<Rightarrow> bool" where
  "isApplicationIncremental a \<longleftrightarrow> a = INCREMENTAL_SAT"

record job_request =
  req_jobId :: int
  req_rootRank :: int
  req_requestingNodeRank :: int
  req_requestedNodeIndex :: int
  req_revision :: int
  req_timeOfBirth :: float32
  req_numHops :: int
  req_balancingEpoch :: int
  req_application :: application

definition JobRequest ::
    "int \<Rightarrow> application \<Rightarrow> int \<Rightarrow> int \<Rightarrow> int \<Rightarrow> float32 \<Rightarrow> int \<Rightarrow> int \<Rightarrow> job_request" where
  "JobRequest jobId appl rootRank requestingNodeRank requestedNodeIndex timeOfBirth
     balancingEpoch numHops =
     \<lparr>req_jobId = jobId, req_rootRank = rootRank, req_requestingNodeRank = requestingNodeRank,
      req_requestedNodeIndex = requestedNodeIndex, req_revision = 0,
      req_timeOfBirth = timeOfBirth, req_numHops = numHops,
      req_balancingEpoch = balancingEpoch, req_application = appl\<rparr>"

definition JobRequest_getTransferSize :: nat where
  "JobRequest_getTransferSize = 7 * 4 + 4 + 4"

definition JobRequest_serialize :: "job_request \<Rightarrow> byte list" where
  "JobRequest_serialize r =
     put_int (req_jobId r) @ put_application (req_application r) @ put_int (req_rootRank r) @
     put_int (req_requestingNodeRank r) @ put_int (req_requestedNodeIndex r) @
     put_int (req_revision r) @ put_float (req_timeOfBirth r) @ put_int (req_numHops r) @
     put_int (req_balancingEpoch r)"

definition JobRequest_deserialize :: "byte list \<Rightarrow> job_request option" where
  "JobRequest_deserialize bs =
     do {
       (jobId, bs) \<leftarrow> rd_int bs;
       (appl, bs) \<leftarrow> rd_application bs;
       (rootRank, bs) \<leftarrow> rd_int bs;
       (requestingNodeRank, bs) \<leftarrow> rd_int bs;
       (requestedNodeIndex, bs) \<leftarrow> rd_int bs;
       (revision, bs) \<leftarrow> rd_int bs;
       (timeOfBirth, bs) \<leftarrow> rd_float bs;
       (numHops, bs) \<leftarrow> rd_int bs;
       (balancingEpoch, bs) \<leftarrow> rd_int bs;
       Some \<lparr>req_jobId = jobId, req_rootRank = rootRank,
             req_requestingNodeRank = requestingNodeRank,
             req_requestedNodeIndex = requestedNodeIndex, req_revision = revision,
             req_timeOfBirth = timeOfBirth, req_numHops = numHops,
             req_balancingEpoch = balancingEpoch, req_application = appl\<rparr>
     }"

definition JobRequest_eq :: "job_request \<Rightarrow> job_request \<Rightarrow> bool" where
  "JobRequest_eq r s \<longleftrightarrow>
     req_jobId r = req_jobId s
     \<and> req_requestedNodeIndex r = req_requestedNodeIndex s
     \<and> req_balancingEpoch r = req_balancingEpoch s
     \<and> req_revision r = req_revision s
     \<and> req_numHops r = req_numHops s"

definition JobRequest_less :: "job_request \<Rightarrow> job_request \<Rightarrow> bool" where
  "JobRequest_less r s =
     (if req_balancingEpoch r \<noteq> req_balancingEpoch s
      then req_balancingEpoch r < req_balancingEpoch s
      else if req_jobId r \<noteq> req_jobId s then req_jobId r < req_jobId s
      else if req_requestedNodeIndex r \<noteq> req_requestedNodeIndex s
      then req_requestedNodeIndex r < req_requestedNodeIndex s
      else if req_revision r \<noteq> req_revision s then req_revision r < req_revision s
      else False)"

record oneshot_rejection =
  rej_request :: job_request
  rej_isChildStillDormant :: bool

definition OneshotJobRequestRejection_serialize :: "oneshot_rejection \<Rightarrow> byte list" where
  "OneshotJobRequestRejection_serialize m =
     JobRequest_serialize (rej_request m) @ put_bool (rej_isChildStillDormant m)"

text \<open>The flag is read from the last byte of the message.\<close>

definition OneshotJobRequestRejection_deserialize :: "byte list \<Rightarrow> oneshot_rejection option" where
  "OneshotJobRequestRejection_deserialize bs =
     do {
       req \<leftarrow> JobRequest_deserialize bs;
       (dormant, _) \<leftarrow> (if bs = [] then None else rd_bool (drop (length bs - 1) bs));
       Some \<lparr>rej_request = req, rej_isChildStillDormant = dormant\<rparr>
     }"

record work_request =
  wr_requestingRank :: int
  wr_numHops :: int
  wr_balancingEpoch :: int

definition WorkRequest_serialize :: "work_request \<Rightarrow> byte list" where
  "WorkRequest_serialize w =
     put_int (wr_requestingRank w) @ put_int (wr_numHops w) @ put_int (wr_balancingEpoch w)"

definition WorkRequest_deserialize :: "byte list \<Rightarrow> work_request option" where
  "WorkRequest_deserialize bs =
     do {
       (rank, bs) \<leftarrow> rd_int bs;
       (hops, bs) \<leftarrow> rd_int bs;
       (epoch, bs) \<leftarrow> rd_int bs;
       Some \<lparr>wr_requestingRank = rank, wr_numHops = hops, wr_balancingEpoch = epoch\<rparr>
     }"

text \<open>\<open>std::hash<int>\<close> is chosen by the standard library implementation: the parameter \<open>hash\<close>.\<close>

definition WorkRequestComparator :: "(int \<Rightarrow> nat) \<Rightarrow> work_request \<Rightarrow> work_request \<Rightarrow> bool" where
  "WorkRequestComparator hash lhs rhs =
     (if wr_balancingEpoch lhs \<noteq> wr_balancingEpoch rhs
      then wr_balancingEpoch lhs > wr_balancingEpoch rhs
      else if wr_numHops lhs \<noteq> wr_numHops rhs then wr_numHops lhs < wr_numHops rhs
      else hash (wr_requestingRank lhs) < hash (wr_requestingRank rhs))"

record job_signature =
  sig_jobId :: int
  sig_rootRank :: int
  sig_firstIncludedRevision :: int
  sig_transferSize :: "64 word"

definition JobSignature_serialize :: "job_signature \<Rightarrow> byte list" where
  "JobSignature_serialize s =
     put_int (sig_jobId s) @ put_int (sig_rootRank s) @ put_int (sig_firstIncludedRevision s) @
     put_size_t (sig_transferSize s)"

definition JobSignature_deserialize :: "byte list \<Rightarrow> job_signature option" where
  "JobSignature_deserialize bs =
     do {
       (jobId, bs) \<leftarrow> rd_int bs;
       (rootRank, bs) \<leftarrow> rd_int bs;
       (firstRev, bs) \<leftarrow> rd_int bs;
       (tsize, bs) \<leftarrow> rd_size_t bs;
       Some \<lparr>sig_jobId = jobId, sig_rootRank = rootRank,
             sig_firstIncludedRevision = firstRev, sig_transferSize = tsize\<rparr>
     }"

record job_message =
  msg_jobId :: int
  msg_revision :: int
  msg_tag :: int
  msg_epoch :: int
  msg_checksum :: checksum
  msg_payload :: "int list"

definition JobMessage_serialize :: "job_message \<Rightarrow> byte list" where
  "JobMessage_serialize m =
     put_int (msg_jobId m) @ put_int (msg_revision m) @ put_int (msg_tag m) @
     put_int (msg_epoch m) @ put_checksum (msg_checksum m) @
     concat (map put_int (msg_payload m))"

definition JobMessage_deserialize :: "byte list \<Rightarrow> job_message option" where
  "JobMessage_deserialize bs =
     do {
       (jobId, bs) \<leftarrow> rd_int bs;
       (revision, bs) \<leftarrow> rd_int bs;
       (tag, bs) \<leftarrow> rd_int bs;
       (epoch, bs) \<leftarrow> rd_int bs;
       (cs, bs) \<leftarrow> rd_checksum bs;
       payload \<leftarrow> get_array 4 get_int bs;
       Some \<lparr>msg_jobId = jobId, msg_revision = revision, msg_tag = tag, msg_epoch = epoch,
             msg_checksum = cs, msg_payload = payload\<rparr>
     }"

record int_pair =
  ip_first :: int
  ip_second :: int

definition IntPair_serialize :: "int_pair \<Rightarrow> byte list" where
  "IntPair_serialize p = put_int (ip_first p) @ put_int (ip_second p)"

definition IntPair_deserialize :: "byte list \<Rightarrow> int_pair option" where
  "IntPair_deserialize bs =
     do {
       (x, bs) \<leftarrow> rd_int bs;
       (y, bs) \<leftarrow> rd_int bs;
       Some \<lparr>ip_first = x, ip_second = y\<rparr>
     }"

definition IntVec_serialize :: "int list \<Rightarrow> byte list" where
  "IntVec_serialize data = concat (map put_int data)"

definition IntVec_deserialize :: "byte list \<Rightarrow> int list option" where
  "IntVec_deserialize bs = get_array 4 get_int bs"

record job_statistics =
  st_jobId :: int
  st_revision :: int
  st_successfulRank :: int
  st_usedWallclockSeconds :: float32
  st_usedCpuSeconds :: float32
  st_latencyOf1stVolumeUpdate :: float32

definition JobStatistics_serialize :: "job_statistics \<Rightarrow> byte list" where
  "JobStatistics_serialize s =
     put_int (st_jobId s) @ put_int (st_revision s) @ put_int (st_successfulRank s) @
     put_float (st_usedWallclockSeconds s) @ put_float (st_usedCpuSeconds s) @
     put_float (st_latencyOf1stVolumeUpdate s)"

definition JobStatistics_deserialize :: "byte list \<Rightarrow> job_statistics option" where
  "JobStatistics_deserialize bs =
     do {
       (jobId, bs) \<leftarrow> rd_int bs;
       (revision, bs) \<leftarrow> rd_int bs;
       (rank, bs) \<leftarrow> rd_int bs;
       (wc, bs) \<leftarrow> rd_float bs;
       (cpu, bs) \<leftarrow> rd_float bs;
       (lat, bs) \<leftarrow> rd_float bs;
       Some \<lparr>st_jobId = jobId, st_revision = revision, st_successfulRank = rank,
             st_usedWallclockSeconds = wc, st_usedCpuSeconds = cpu,
             st_latencyOf1stVolumeUpdate = lat\<rparr>
     }"

section \<open>Representable messages\<close>

definition JobRequest_ok :: "job_request \<Rightarrow> bool" where
  "JobRequest_ok r \<longleftrightarrow>
     int32 (req_jobId r) \<and> int32 (req_rootRank r) \<and> int32 (req_requestingNodeRank r)
     \<and> int32 (req_requestedNodeIndex r) \<and> int32 (req_revision r) \<and> int32 (req_numHops r)
     \<and> int32 (req_balancingEpoch r)"

definition WorkRequest_ok :: "work_request \<Rightarrow> bool" where
  "WorkRequest_ok w \<longleftrightarrow>
     int32 (wr_requestingRank w) \<and> int32 (wr_numHops w) \<and> int32 (wr_balancingEpoch w)"

definition JobSignature_ok :: "job_signature \<Rightarrow> bool" where
  "JobSignature_ok s \<longleftrightarrow>
     int32 (sig_jobId s) \<and> int32 (sig_rootRank s) \<and> int32 (sig_firstIncludedRevision s)"

definition JobMessage_ok :: "job_message \<Rightarrow> bool" where
  "JobMessage_ok m \<longleftrightarrow>
     int32 (msg_jobId m) \<and> int32 (msg_revision m) \<and> int32 (msg_tag m) \<and> int32 (msg_epoch m)
     \<and> (\<forall>x \<in> set (msg_payload m). int32 x)"

definition IntPair_ok :: "int_pair \<Rightarrow> bool" where
  "IntPair_ok p \<longleftrightarrow> int32 (ip_first p) \<and> int32 (ip_second p)"

definition JobStatistics_ok :: "job_statistics \<Rightarrow> bool" where
  "JobStatistics_ok s \<longleftrightarrow>
     int32 (st_jobId s) \<and> int32 (st_revision s) \<and> int32 (st_successfulRank s)"

section \<open>The messages satisfy the serialization contract\<close>

interpretation application_field: field_codec 4 put_application get_application "\<lambda>_. True"
proof unfold_locales
  fix a :: application
  show "get_application (put_application a) = Some a"
    by (cases a) (simp_all add: get_application_def put_application_def get_put_int int32_def)
qed (simp_all add: put_application_def)

lemmas rd_put_application [simp, codec_simps] =
  application_field.rd_put [OF TrueI] application_field.rd_put_Nil [OF TrueI]

lemma length_put_application [simp, codec_simps]: "length (put_application a) = 4"
  by (rule application_field.length_put_field)

lemma length_JobRequest_serialize [simp, codec_simps]:
  "length (JobRequest_serialize r) = JobRequest_getTransferSize"
  by (simp add: JobRequest_serialize_def JobRequest_getTransferSize_def)

lemma JobRequest_deserialize_prefix:
  "JobRequest_ok r \<Longrightarrow> JobRequest_deserialize (JobRequest_serialize r @ rest) = Some r"
  by (simp add: JobRequest_serialize_def JobRequest_deserialize_def JobRequest_ok_def)

interpretation job_request_msg:
  fixed_serializable JobRequest_serialize JobRequest_deserialize JobRequest_ok
    JobRequest_getTransferSize
proof unfold_locales
  fix r show "JobRequest_ok r \<Longrightarrow> JobRequest_deserialize (JobRequest_serialize r) = Some r"
    using JobRequest_deserialize_prefix [of r "[]"] by simp
qed (simp_all add: JobRequest_getTransferSize_def)

interpretation rejection_msg:
  fixed_serializable OneshotJobRequestRejection_serialize OneshotJobRequestRejection_deserialize
    "\<lambda>m. JobRequest_ok (rej_request m)" "JobRequest_getTransferSize + 1"
  by unfold_locales
    (auto simp: OneshotJobRequestRejection_serialize_def OneshotJobRequestRejection_deserialize_def
      JobRequest_deserialize_prefix)

interpretation work_request_msg:
  fixed_serializable WorkRequest_serialize WorkRequest_deserialize WorkRequest_ok 12
  by unfold_locales
    (auto simp: WorkRequest_serialize_def WorkRequest_deserialize_def WorkRequest_ok_def)

interpretation job_signature_msg:
  fixed_serializable JobSignature_serialize JobSignature_deserialize JobSignature_ok 20
  by unfold_locales
    (auto simp: JobSignature_serialize_def JobSignature_deserialize_def JobSignature_ok_def)

interpretation int_pair_msg:
  fixed_serializable IntPair_serialize IntPair_deserialize IntPair_ok 8
  by unfold_locales
    (auto simp: IntPair_serialize_def IntPair_deserialize_def IntPair_ok_def)

interpretation job_statistics_msg:
  fixed_serializable JobStatistics_serialize JobStatistics_deserialize JobStatistics_ok 24
  by unfold_locales
    (auto simp: JobStatistics_serialize_def JobStatistics_deserialize_def JobStatistics_ok_def)

interpretation job_message_msg:
  serializable JobMessage_serialize JobMessage_deserialize JobMessage_ok
  by unfold_locales
    (auto simp: JobMessage_serialize_def JobMessage_deserialize_def JobMessage_ok_def
      int_field.get_array_concat)

interpretation int_vec_msg:
  serializable IntVec_serialize IntVec_deserialize "\<lambda>xs. \<forall>x \<in> set xs. int32 x"
  by unfold_locales
    (auto simp: IntVec_serialize_def IntVec_deserialize_def int_field.get_array_concat)

section \<open>The order of the request sets\<close>

text \<open>\<open>operator<\<close> compares exactly this key, lexicographically.\<close>

definition JobRequest_key :: "job_request \<Rightarrow> int \<times> int \<times> int \<times> int" where
  "JobRequest_key r =
     (req_balancingEpoch r, req_jobId r, req_requestedNodeIndex r, req_revision r)"

lemma JobRequest_less_iff_key: "JobRequest_less r s \<longleftrightarrow> JobRequest_key r < JobRequest_key s"
  by (auto simp: JobRequest_less_def JobRequest_key_def)


lemma get_array_int_junk:
  assumes "0 < length junk" "length junk < 4"
  shows "get_array 4 get_int (concat (map put_int xs) @ junk) = None"
  using assms by (simp add: get_array_def int_field.length_concat_put)

section \<open>Properties\<close>

text \<open>
  (C38) A job request of 32-bit values occupies exactly \<open>getTransferSize()\<close> bytes and is read back
  unchanged, also when further bytes follow it in the message; hence so is a rejection, which
  appends one flag byte that the receiver fetches from the end of the message.
\<close>

theorem job_request_roundtrip:
  assumes "JobRequest_ok r"
  shows "length (JobRequest_serialize r) = JobRequest_getTransferSize
    \<and> JobRequest_deserialize (JobRequest_serialize r @ rest) = Some r
    \<and> OneshotJobRequestRejection_deserialize
        (OneshotJobRequestRejection_serialize \<lparr>rej_request = r, rej_isChildStillDormant = b\<rparr>)
      = Some \<lparr>rej_request = r, rej_isChildStillDormant = b\<rparr>"
  using assms JobRequest_deserialize_prefix
    rejection_msg.roundtrip [of "\<lparr>rej_request = r, rej_isChildStillDormant = b\<rparr>"]
  by simp

theorem job_request_roundtrip_witness:
  "let r = JobRequest 12 DUMMY 0 3 (-1) 0x3f800000 7 (-2)
   in JobRequest_deserialize (JobRequest_serialize r @ [1, 2]) = Some r"
  using job_request_roundtrip [of "JobRequest 12 DUMMY 0 3 (-1) 0x3f800000 7 (-2)" "[1, 2]" True]
  by (simp add: JobRequest_ok_def JobRequest_def int32_def)

text \<open>
  Work requests, job signatures, integer pairs and job statistics have constant size and
  round-trip; a vector of packed work requests is recovered by cutting it into pieces of that size.
\<close>

lemma fixed_messages_roundtrip:
  assumes "WorkRequest_ok w" "JobSignature_ok s" "IntPair_ok p" "JobStatistics_ok t"
  shows "WorkRequest_deserialize (WorkRequest_serialize w) = Some w
    \<and> JobSignature_deserialize (JobSignature_serialize s) = Some s
    \<and> IntPair_deserialize (IntPair_serialize p) = Some p
    \<and> JobStatistics_deserialize (JobStatistics_serialize t) = Some t
    \<and> length (WorkRequest_serialize w) = 12 \<and> length (JobSignature_serialize s) = 20
    \<and> length (IntPair_serialize p) = 8 \<and> length (JobStatistics_serialize t) = 24"
  using assms
  by (simp add: work_request_msg.roundtrip job_signature_msg.roundtrip int_pair_msg.roundtrip
      job_statistics_msg.roundtrip work_request_msg.length_ser job_signature_msg.length_ser
      int_pair_msg.length_ser job_statistics_msg.length_ser)



text \<open>
  The order of the request sets is a strict weak order: irreflexive, transitive, and two requests
  are equivalent exactly when epoch, job, index and revision coincide. Requests that compare equal
  with \<open>operator==\<close> are equivalent, but two equivalent requests may differ in their hop count.
\<close>

lemma job_request_order:
  "\<not> JobRequest_less r r
   \<and> (JobRequest_less r s \<and> JobRequest_less s t \<longrightarrow> JobRequest_less r t)
   \<and> (\<not> JobRequest_less r s \<and> \<not> JobRequest_less s r \<longleftrightarrow> JobRequest_key r = JobRequest_key s)
   \<and> (JobRequest_eq r s \<longleftrightarrow> JobRequest_key r = JobRequest_key s \<and> req_numHops r = req_numHops s)"
proof -
  have "JobRequest_eq r s \<longleftrightarrow> JobRequest_key r = JobRequest_key s \<and> req_numHops r = req_numHops s"
    by (auto simp: JobRequest_eq_def JobRequest_key_def)
  then show ?thesis
    unfolding JobRequest_less_iff_key by (auto simp: not_less)
qed

end
