(* ===== verification/Floats.thy ===== *)
theory Floats
  imports Complex_Main Byte_Codec "HOL-Library.Log_Nat"
begin

unbundle bit_operations_syntax

text \<open>
  Floating-point values. A \<open>float\<close> is its IEEE 754 binary32 bit pattern, whose value is the rational
  \<open>f32_val\<close> (an infinity gets a value beyond every finite one, so that comparisons come out right);
  the comparison operators are false on NaNs, as in C++. Computations on \<open>double\<close> are rational
  computations in which the result of every operation is rounded to 53 significant bits, to nearest,
  ties to even (\<open>round53\<close>), and \<open>float\<close> results are rounded to 24 bits (\<open>round24\<close>); the exponent range of \<open>double\<close> is not modelled, since the quantities
  of the balancing computation stay far inside it.
\<close>

section \<open>Single precision patterns\<close>

definition f32_exponent :: "float32 \<Rightarrow> nat" where
  "f32_exponent w = unat (drop_bit 23 w) mod 256"

definition f32_mantissa :: "float32 \<Rightarrow> nat" where
  "f32_mantissa w = unat w mod 2 ^ 23"

definition f32_negative :: "float32 \<Rightarrow> bool" where
  "f32_negative w \<longleftrightarrow> 2 ^ 31 \<le> unat w"

definition f32_nan :: "float32 \<Rightarrow> bool" where
  "f32_nan w \<longleftrightarrow> f32_exponent w = 255 \<and> f32_mantissa w \<noteq> 0"

definition f32_val :: "float32 \<Rightarrow> rat" where
  "f32_val w =
     (let e = f32_exponent w; m = f32_mantissa w;
          s = (if e = 0 then m else 2 ^ 23 + m); x = (if e = 0 then 1 else e);
          v = (if 150 \<le> x then of_nat s * 2 ^ (x - 150) else of_nat s / 2 ^ (150 - x))
      in if f32_negative w then - v else v)"

definition f32_eq :: "float32 \<Rightarrow> float32 \<Rightarrow> bool" where
  "f32_eq a b \<longleftrightarrow> \<not> f32_nan a \<and> \<not> f32_nan b \<and> f32_val a = f32_val b"

definition f32_le :: "float32 \<Rightarrow> float32 \<Rightarrow> bool" where
  "f32_le a b \<longleftrightarrow> \<not> f32_nan a \<and> \<not> f32_nan b \<and> f32_val a \<le> f32_val b"

definition f32_less :: "float32 \<Rightarrow> float32 \<Rightarrow> bool" where
  "f32_less a b \<longleftrightarrow> \<not> f32_nan a \<and> \<not> f32_nan b \<and> f32_val a < f32_val b"

abbreviation f32_zero :: float32 where "f32_zero \<equiv> 0"
abbreviation f32_one :: float32 where "f32_one \<equiv> 0x3f800000"

lemma f32_zero_val [simp]: "f32_val f32_zero = 0" "\<not> f32_nan f32_zero"
  by (simp_all add: f32_val_def f32_nan_def f32_exponent_def f32_mantissa_def f32_negative_def)

lemma f32_one_val: "f32_val f32_one = 1" "\<not> f32_nan f32_one"
  by (simp_all add: f32_val_def f32_nan_def f32_exponent_def f32_mantissa_def f32_negative_def)

lemma f32_eq_refl: "\<not> f32_nan a \<Longrightarrow> f32_eq a a"
  by (simp add: f32_eq_def)

lemma f32_less_imp_le: "f32_less a b \<Longrightarrow> f32_le a b"
  by (simp add: f32_less_def f32_le_def)

lemma f32_not_less_le: "f32_less a b \<Longrightarrow> \<not> f32_le b a"
  by (simp add: f32_less_def f32_le_def)

section \<open>Rounding to a number of significant bits\<close>

definition exponent2 :: "rat \<Rightarrow> int" where
  "exponent2 x =
     (let (p, q) = quotient_of x; e = bitlen p - bitlen q
      in if 2 powi e \<le> x then e else e - 1)"

definition round_half_even :: "rat \<Rightarrow> int" where
  "round_half_even y =
     (let f = \<lfloor>y\<rfloor>; d = y - of_int f
      in if d < 1 / 2 then f else if d > 1 / 2 then f + 1 else if even f then f else f + 1)"

definition round_sig :: "nat \<Rightarrow> rat \<Rightarrow> rat" where
  "round_sig p x =
     (if x = 0 then 0
      else let u = 2 powi (exponent2 \<bar>x\<bar> - (int p - 1)) in of_int (round_half_even (x / u)) * u)"

abbreviation round53 :: "rat \<Rightarrow> rat" where "round53 \<equiv> round_sig 53"
abbreviation round24 :: "rat \<Rightarrow> rat" where "round24 \<equiv> round_sig 24"

text \<open>The conversion of a floating-point value outside the range of \<open>int\<close> is undefined.\<close>

definition to_int :: "rat \<Rightarrow> int res" where
  "to_int x = (if \<bar>x\<bar> < 2 ^ 31 then Inr (if 0 \<le> x then \<lfloor>x\<rfloor> else \<lceil>x\<rceil>) else Inl Undefined_behaviour)"

lemma bitlen_powi:
  assumes "0 < k"
  shows "(2::rat) powi (bitlen k - 1) \<le> of_int k" "of_int k < (2::rat) powi bitlen k"
proof -
  have b: "1 \<le> bitlen k" using assms by (auto simp: bitlen_alt_def)
  have "2 ^ nat (bitlen k - 1) \<le> k" "k < 2 ^ nat (bitlen k)" using bitlen_bounds [OF assms] by auto
  then have "(of_int (2 ^ nat (bitlen k - 1)) :: rat) \<le> of_int k" "of_int k < (of_int (2 ^ nat (bitlen k)) :: rat)"
    by (simp_all only: of_int_le_iff of_int_less_iff)
  then show "(2::rat) powi (bitlen k - 1) \<le> of_int k" "of_int k < (2::rat) powi bitlen k"
    using b by (simp_all add: power_int_def)
qed

lemma exponent2_bounds:
  assumes "0 < x"
  shows "2 powi exponent2 x \<le> x" "x < 2 powi (exponent2 x + 1)"
proof -
  obtain p q where pq: "quotient_of x = (p, q)" by force
  have q: "0 < q" using quotient_of_denom_pos [OF pq] .
  have x: "x = of_int p / of_int q" using quotient_of_div [OF pq] .
  have p: "0 < p" using assms q by (simp add: x zero_less_divide_iff)
  let ?e = "bitlen p - bitlen q"
  have "x < 2 powi bitlen p / 2 powi (bitlen q - 1)"
    unfolding x using bitlen_powi [OF p] bitlen_powi [OF q] p by (intro frac_less) auto
  also have "\<dots> = 2 powi (?e + 1)" by (simp add: power_int_diff power_int_add)
  finally have up: "x < 2 powi (?e + 1)" .
  have "2 powi (bitlen p - 1) / 2 powi bitlen q \<le> x"
    unfolding x using bitlen_powi [OF p] bitlen_powi [OF q] p q by (intro frac_le) auto
  moreover have "2 powi (bitlen p - 1) / 2 powi bitlen q = (2::rat) powi (?e - 1)"
    by (simp add: power_int_diff)
  ultimately have lo: "2 powi (?e - 1) \<le> x" by simp
  show "2 powi exponent2 x \<le> x" "x < 2 powi (exponent2 x + 1)"
    using up lo by (auto simp: exponent2_def pq Let_def)
qed

lemma exponent2_mono:
  assumes "0 < x" "x \<le> y"
  shows "exponent2 x \<le> exponent2 y"
proof (rule ccontr)
  assume "\<not> exponent2 x \<le> exponent2 y"
  then have "(2::rat) powi (exponent2 y + 1) \<le> 2 powi exponent2 x"
    by (intro power_int_increasing) auto
  then show False using exponent2_bounds [OF assms(1)] exponent2_bounds [of y] assms by linarith
qed

lemma round_half_even_bounds: "\<lfloor>y\<rfloor> \<le> round_half_even y" "round_half_even y \<le> \<lfloor>y\<rfloor> + 1"
  by (auto simp: round_half_even_def Let_def)

lemma round_half_even_mono: "y \<le> z \<Longrightarrow> round_half_even y \<le> round_half_even z"
proof (cases "\<lfloor>y\<rfloor> = \<lfloor>z\<rfloor>")
  case True
  assume "y \<le> z"
  then show ?thesis using True by (auto simp: round_half_even_def Let_def)
next
  case False
  assume "y \<le> z"
  then have "\<lfloor>y\<rfloor> + 1 \<le> \<lfloor>z\<rfloor>" using False floor_mono [of y z] by linarith
  then show ?thesis using round_half_even_bounds [of y] round_half_even_bounds [of z] by linarith
qed

lemma round_half_even_of_int [simp]: "round_half_even (of_int k) = k"
  by (simp add: round_half_even_def)

lemma round_sig_unit: "0 < x \<Longrightarrow> round_sig p x =
    of_int (round_half_even (x / 2 powi (exponent2 x - (int p - 1)))) * 2 powi (exponent2 x - (int p - 1))"
  by (simp add: round_sig_def Let_def)

lemma round_sig_binade:
  assumes "0 < x" "1 \<le> p"
  shows "2 powi exponent2 x \<le> round_sig p x" "round_sig p x \<le> 2 powi (exponent2 x + 1)"
proof -
  let ?e = "exponent2 x"
  let ?u = "2 powi (?e - (int p - 1)) :: rat"
  have u: "0 < ?u" by simp
  have lo: "of_int (2 ^ (p - 1)) * ?u = 2 powi ?e" and hi: "of_int (2 ^ p) * ?u = 2 powi (?e + 1)"
    using assms(2) by (simp_all add: power_int_diff power_int_add of_nat_diff flip: power_int_of_nat)
  have "of_int (2 ^ (p - 1)) \<le> x / ?u" "x / ?u \<le> of_int (2 ^ p)"
    using exponent2_bounds [OF assms(1)] u lo hi by (simp_all only: pos_le_divide_eq pos_divide_le_eq less_imp_le)
  then have "2 ^ (p - 1) \<le> round_half_even (x / ?u)" "round_half_even (x / ?u) \<le> 2 ^ p"
    using round_half_even_mono round_half_even_of_int by metis+
  then have "of_int (2 ^ (p - 1)) * ?u \<le> round_sig p x" "round_sig p x \<le> of_int (2 ^ p) * ?u"
    unfolding round_sig_unit [OF assms(1)] using u by (simp_all only: mult_le_cancel_right_pos of_int_le_iff)
  then show "2 powi ?e \<le> round_sig p x" "round_sig p x \<le> 2 powi (?e + 1)" using lo hi by simp_all
qed

lemma round_sig_mono:
  assumes "0 \<le> x" "x \<le> y" "1 \<le> p"
  shows "round_sig p x \<le> round_sig p y"
proof (cases "x = 0")
  case True
  then show ?thesis
  proof (cases "y = 0")
    case False
    then have "0 < y" using True assms by simp
    then have "0 \<le> round_sig p y"
      using order_trans [OF _ round_sig_binade(1) [of y p], of 0] assms(3) by simp
    then show ?thesis using True by (simp add: round_sig_def)
  qed simp
next
  case False
  then have x: "0 < x" and y: "0 < y" using assms by auto
  show ?thesis
  proof (cases "exponent2 x = exponent2 y")
    case True
    have "x / 2 powi (exponent2 x - (int p - 1)) \<le> y / 2 powi (exponent2 y - (int p - 1))"
      using True assms by (simp add: divide_right_mono)
    then show ?thesis unfolding round_sig_unit [OF x] round_sig_unit [OF y]
      using True by (simp add: round_half_even_mono mult_right_mono)
  next
    case False
    then have "exponent2 x + 1 \<le> exponent2 y" using exponent2_mono [OF x assms(2)] by simp
    then have "(2::rat) powi (exponent2 x + 1) \<le> 2 powi exponent2 y" by (intro power_int_increasing) auto
    then show ?thesis using round_sig_binade [OF x assms(3)] round_sig_binade [OF y assms(3)] by linarith
  qed
qed

lemma round_sig_of_int:
  assumes "0 \<le> k" "k < 2 ^ p" "1 \<le> p"
  shows "round_sig p (of_int k) = of_int k"
proof (cases "k = 0")
  case False
  let ?x = "of_int k :: rat"
  have x: "0 < ?x" using False assms(1) by simp
  have "?x < 2 powi int p" using assms(2)
    by (metis of_int_less_iff of_int_numeral of_int_power power_int_of_nat)
  have "exponent2 ?x < int p"
  proof (rule ccontr)
    assume "\<not> exponent2 ?x < int p"
    then have "(2::rat) powi int p \<le> 2 powi exponent2 ?x" by (intro power_int_increasing) auto
    then show False using exponent2_bounds(1) [OF x] \<open>?x < 2 powi int p\<close> by linarith
  qed
  then obtain n where n: "int p - 1 - exponent2 ?x = int n" using nonneg_int_cases [of "int p - 1 - exponent2 ?x"] by auto
  have "?x / 2 powi (exponent2 ?x - (int p - 1)) = ?x * 2 powi (int p - 1 - exponent2 ?x)"
    by (simp add: power_int_diff divide_simps)
  also have "\<dots> = of_int (k * 2 ^ n)" by (simp add: n power_int_of_nat)
  finally have *: "round_half_even (?x / 2 powi (exponent2 ?x - (int p - 1))) = k * 2 ^ n"
    by (metis round_half_even_of_int)
  have "round_sig p ?x = of_int (k * 2 ^ n) * 2 powi (- int n)"
    unfolding round_sig_unit [OF x] * n [symmetric] by simp
  also have "\<dots> = ?x" by (simp add: power_int_minus)
  finally show ?thesis .
qed (simp add: round_sig_def)

lemma exponent2_unique:
  assumes "0 < x" "2 powi e \<le> x" "x < 2 powi (e + 1)"
  shows "exponent2 x = e"
proof (rule ccontr)
  assume "exponent2 x \<noteq> e"
  then consider "exponent2 x + 1 \<le> e" | "e + 1 \<le> exponent2 x" by linarith
  then show False
  proof cases
    case 1
    then have "(2::rat) powi (exponent2 x + 1) \<le> 2 powi e" by (intro power_int_increasing) auto
    then show False using exponent2_bounds(2) [OF assms(1)] assms(2) by linarith
  next
    case 2
    then have "(2::rat) powi (e + 1) \<le> 2 powi exponent2 x" by (intro power_int_increasing) auto
    then show False using exponent2_bounds(1) [OF assms(1)] assms(3) by linarith
  qed
qed

lemma round_sig_pos: "0 < x \<Longrightarrow> 1 \<le> p \<Longrightarrow> 0 < round_sig p x"
  using order.strict_trans2 [OF _ round_sig_binade(1) [of x p], of 0] by simp

lemma round_sig_double: "0 \<le> x \<Longrightarrow> round_sig p (2 * x) = 2 * round_sig p x"
proof (cases "x = 0")
  case False
  assume "0 \<le> x"
  then have x: "0 < x" using False by simp
  have e: "exponent2 (2 * x) = exponent2 x + 1"
    using exponent2_bounds [OF x] x by (intro exponent2_unique) (auto simp: power_int_add)
  have u: "(2::rat) powi (exponent2 (2 * x) - (int p - 1)) = 2 * 2 powi (exponent2 x - (int p - 1))"
    by (simp add: e power_int_add power_int_diff)
  have "2 * x / 2 powi (exponent2 (2 * x) - (int p - 1)) = x / 2 powi (exponent2 x - (int p - 1))"
    unfolding u by simp
  then show ?thesis using x by (simp add: round_sig_unit u)
qed (simp add: round_sig_def)

lemma round_sig_eq_multiple:
  assumes "0 < x" "x = of_int k * 2 powi (exponent2 x - (int p - 1))"
  shows "round_sig p x = x"
proof -
  let ?u = "2 powi (exponent2 x - (int p - 1)) :: rat"
  have "x / ?u = of_int k" by (subst assms(2)) simp
  then show ?thesis unfolding round_sig_unit [OF assms(1)] using assms(2) by simp
qed

lemma round_sig_idem:
  assumes "0 \<le> x" "1 \<le> p"
  shows "round_sig p (round_sig p x) = round_sig p x"
proof (cases "x = 0")
  case False
  then have x: "0 < x" using assms by simp
  let ?e = "exponent2 x" and ?r = "round_sig p x"
  let ?k = "round_half_even (x / 2 powi (?e - (int p - 1)))"
  have r: "?r = of_int ?k * 2 powi (?e - (int p - 1))" by (rule round_sig_unit [OF x])
  have pos: "0 < ?r" by (rule round_sig_pos [OF x assms(2)])
  show ?thesis
  proof (cases "?r < 2 powi (?e + 1)")
    case True
    then have "exponent2 ?r = ?e" using round_sig_binade(1) [OF x assms(2)] pos by (intro exponent2_unique)
    then show ?thesis using r by (intro round_sig_eq_multiple [OF pos, of ?k]) simp
  next
    case False
    then have eq: "?r = 2 powi (?e + 1)" using round_sig_binade(2) [OF x assms(2)] by simp
    have e: "exponent2 ?r = ?e + 1" unfolding eq by (intro exponent2_unique) (auto simp: power_int_add)
    have "of_int (2 ^ (p - 1)) = (2::rat) powi (int p - 1)"
      using assms(2) by (simp add: of_nat_diff flip: power_int_of_nat)
    then have "of_int (2 ^ (p - 1)) * 2 powi (?e + 1 - (int p - 1)) = (2::rat) powi (int p - 1 + (?e + 1 - (int p - 1)))"
      by (simp only: power_int_add [OF disjI1, OF zero_neq_numeral [symmetric]])
    then have "(2::rat) powi (?e + 1) = of_int (2 ^ (p - 1)) * 2 powi (?e + 1 - (int p - 1))"
      by (simp only: add_diff_cancel_left' diff_add_cancel add.commute [of "int p - 1"])
    then have "?r = of_int (2 ^ (p - 1)) * 2 powi (exponent2 ?r - (int p - 1))"
      unfolding e by (simp only: eq)
    then show ?thesis by (rule round_sig_eq_multiple [OF pos])
  qed
qed (simp add: round_sig_def)

lemma round_sig_finite:
  assumes "0 < l"
  shows "finite {x. l \<le> x \<and> x \<le> u \<and> round_sig p x = x}"
proof (cases "1 \<le> p")
  case True
  let ?f = "\<lambda>(e, k). of_int k * 2 powi (e - (int p - 1)) :: rat"
  have "{x. l \<le> x \<and> x \<le> u \<and> round_sig p x = x} \<subseteq> ?f ` ({exponent2 l..exponent2 u} \<times> {0..2 ^ p})"
  proof
    fix x assume "x \<in> {x. l \<le> x \<and> x \<le> u \<and> round_sig p x = x}"
    then have x: "0 < x" "l \<le> x" "x \<le> u" "round_sig p x = x" using assms by auto
    let ?u = "2 powi (exponent2 x - (int p - 1)) :: rat"
    have "exponent2 x \<in> {exponent2 l..exponent2 u}"
      using exponent2_mono [OF assms x(2)] exponent2_mono [OF x(1,3)] by simp
    moreover have "x = of_int (round_half_even (x / ?u)) * ?u" using round_sig_unit [OF x(1), of p] x(4) by simp
    moreover have "round_half_even (x / ?u) \<in> {0..2 ^ p}"
    proof -
      have "of_int (2 ^ p) * ?u = 2 powi (exponent2 x + 1)"
        using True by (simp add: power_int_diff power_int_add flip: power_int_of_nat)
      then have "x / ?u \<le> of_int (2 ^ p)"
        using exponent2_bounds(2) [OF x(1)] by (simp only: pos_divide_le_eq zero_less_power_int zero_less_numeral less_imp_le)
      moreover have "of_int 0 \<le> x / ?u" using x(1) by simp
      ultimately show ?thesis using round_half_even_mono round_half_even_of_int by (metis atLeastAtMost_iff)
    qed
    ultimately show "x \<in> ?f ` ({exponent2 l..exponent2 u} \<times> {0..2 ^ p})"
      by (intro image_eqI [of _ _ "(exponent2 x, round_half_even (x / ?u))"]) auto
  qed
  then show ?thesis by (rule finite_subset) auto
next
  case False
  let ?f = "\<lambda>(e, k). of_int k * 2 powi (e + 1) :: rat"
  have "{x. l \<le> x \<and> x \<le> u \<and> round_sig p x = x} \<subseteq> ?f ` ({exponent2 l..exponent2 u} \<times> {0..1})"
  proof
    fix x assume "x \<in> {x. l \<le> x \<and> x \<le> u \<and> round_sig p x = x}"
    then have x: "0 < x" "l \<le> x" "x \<le> u" "round_sig p x = x" using assms by auto
    let ?u = "2 powi (exponent2 x + 1) :: rat"
    have e: "exponent2 x - (int p - 1) = exponent2 x + 1" using False by simp
    have "0 \<le> x / ?u" "x / ?u \<le> 1" using exponent2_bounds(2) [OF x(1)] x(1) by auto
    then have "round_half_even (x / ?u) \<in> {0..1}"
      using round_half_even_mono [of 0 "x / ?u"] round_half_even_mono [of "x / ?u" 1]
        round_half_even_of_int [of 0] round_half_even_of_int [of 1] by simp
    moreover have "x = of_int (round_half_even (x / ?u)) * ?u"
      using round_sig_unit [OF x(1), of p] x(4) unfolding e by simp
    moreover have "exponent2 x \<in> {exponent2 l..exponent2 u}"
      using exponent2_mono [OF assms x(2)] exponent2_mono [OF x(1,3)] by simp
    ultimately show "x \<in> ?f ` ({exponent2 l..exponent2 u} \<times> {0..1})"
      by (intro image_eqI [of _ _ "(exponent2 x, round_half_even (x / ?u))"]) auto
  qed
  then show ?thesis by (rule finite_subset) auto
qed

text \<open>What the correctness of a computation relies on in the arithmetic it is run with: rounding is
  monotone, and exact on the integers that occur.\<close>

locale rounding =
  fixes rnd :: "rat \<Rightarrow> rat"
  assumes rnd_mono: "0 \<le> x \<Longrightarrow> x \<le> y \<Longrightarrow> rnd x \<le> rnd y"
    and rnd_int: "0 \<le> k \<Longrightarrow> k < 2 ^ 53 \<Longrightarrow> rnd (of_int k) = of_int k"
begin

lemma rnd_0: "rnd 0 = 0"
  using rnd_int [of 0] by simp

lemma rnd_nonneg: "0 \<le> x \<Longrightarrow> 0 \<le> rnd x"
  using rnd_mono [of 0 x] rnd_0 by simp

end

text \<open>The rounded values are a discrete set that is closed under doubling.\<close>

locale discrete_rounding = rounding +
  assumes rnd_idem: "0 \<le> x \<Longrightarrow> rnd (rnd x) = rnd x"
    and rnd_double: "0 \<le> x \<Longrightarrow> rnd (2 * x) = 2 * rnd x"
    and rnd_pos: "0 < x \<Longrightarrow> 0 < rnd x"
    and rnd_finite: "0 < l \<Longrightarrow> finite {x. l \<le> x \<and> x \<le> u \<and> rnd x = x}"
begin

lemma midpoint_between:
  assumes "0 \<le> l" "l \<le> u" "rnd l = l" "rnd u = u"
  shows "l \<le> rnd (rnd (l + u) / 2)" "rnd (rnd (l + u) / 2) \<le> u"
proof -
  have "2 * l \<le> rnd (l + u)" "rnd (l + u) \<le> 2 * u"
    using rnd_mono [of "2 * l" "l + u"] rnd_mono [of "l + u" "2 * u"] rnd_double [of l] rnd_double [of u] assms
    by auto
  then have "rnd l \<le> rnd (rnd (l + u) / 2)" "rnd (rnd (l + u) / 2) \<le> rnd u"
    using rnd_mono [of l "rnd (l + u) / 2"] rnd_mono [of "rnd (l + u) / 2" u] assms(1) by auto
  then show "l \<le> rnd (rnd (l + u) / 2)" "rnd (rnd (l + u) / 2) \<le> u" using assms by simp_all
qed

end

interpretation double: discrete_rounding round53
  by unfold_locales
    (auto intro: round_sig_mono round_sig_of_int round_sig_idem round_sig_double round_sig_pos round_sig_finite)

interpretation exact: rounding "\<lambda>x. x"
  by unfold_locales auto

end
