(* ===== verification/Scheduling_Update.thy ===== *)
theory Scheduling_Update
  imports Mallob_Prelude "HOL-Library.Multiset"
begin

text \<open>
  Inactive job nodes and scheduling updates (src/src/scheduling/job_scheduling_update.hpp): the sets of
  workers that once held a node of a job tree and are kept, scoped by subtree, at the active nodes so
  that they can be reactivated. \<open>InactiveJobNodeList\<close> is a \<open>std::set\<close> ordered by original index,
  newest epoch first, then rank; only the mutable status of an element is outside the key.
  Serialization copies the objects with their virtual table pointers and is not modelled.
\<close>

section \<open>Nodes and their order\<close>

datatype node_status = AVAILABLE | BUSY | LOST

record inactive_job_node =
  ijn_rank :: int
  ijn_originalIndex :: int
  ijn_lastEpoch :: int
  ijn_status :: node_status

definition InactiveJobNode :: "int \<Rightarrow> int \<Rightarrow> int \<Rightarrow> inactive_job_node" where
  "InactiveJobNode rank index epoch =
     \<lparr>ijn_rank = rank, ijn_originalIndex = index, ijn_lastEpoch = epoch, ijn_status = AVAILABLE\<rparr>"

text \<open>The part of a node that \<open>operator<\<close> and \<open>operator==\<close> look at.\<close>

datatype node_key = Node_Key (nk_index: int) (nk_epoch: int) (nk_rank: int)

definition node_less :: "node_key \<Rightarrow> node_key \<Rightarrow> bool" where
  "node_less x y =
     (if nk_index x \<noteq> nk_index y then nk_index x < nk_index y
      else if nk_epoch x \<noteq> nk_epoch y then nk_epoch x > nk_epoch y
      else nk_rank x < nk_rank y)"

instantiation node_key :: linorder
begin

definition less_node_key :: "node_key \<Rightarrow> node_key \<Rightarrow> bool" where
  "less_node_key = node_less"

definition less_eq_node_key :: "node_key \<Rightarrow> node_key \<Rightarrow> bool" where
  "less_eq_node_key x y \<longleftrightarrow> x = y \<or> x < y"

instance
proof
  fix x y z :: node_key
  show "x < y \<longleftrightarrow> x \<le> y \<and> \<not> y \<le> x"
    by (auto simp: less_eq_node_key_def less_node_key_def node_less_def split: if_splits)
  show "x \<le> x" by (simp add: less_eq_node_key_def)
  show "x \<le> y \<Longrightarrow> y \<le> z \<Longrightarrow> x \<le> z"
    by (auto simp: less_eq_node_key_def less_node_key_def node_less_def split: if_splits)
  show "x \<le> y \<Longrightarrow> y \<le> x \<Longrightarrow> x = y"
    by (auto simp: less_eq_node_key_def less_node_key_def node_less_def split: if_splits)
  show "x \<le> y \<or> y \<le> x"
    by (cases x; cases y) (auto simp: less_eq_node_key_def less_node_key_def node_less_def)
qed

end

definition node_key :: "inactive_job_node \<Rightarrow> node_key" where
  "node_key n = Node_Key (ijn_originalIndex n) (ijn_lastEpoch n) (ijn_rank n)"

type_synonym node_list = "inactive_job_node list"

abbreviation node_set :: "node_list \<Rightarrow> bool" where
  "node_set xs \<equiv> oset node_key xs"

definition nodes_insert :: "inactive_job_node \<Rightarrow> node_list \<Rightarrow> node_list" where
  "nodes_insert n xs = oset_insert node_key n xs"

definition nodes_erase :: "inactive_job_node \<Rightarrow> node_list \<Rightarrow> node_list" where
  "nodes_erase n xs = oset_erase node_key (node_key n) xs"

section \<open>Operations on lists of inactive nodes\<close>

definition containsUsableNodes :: "node_list \<Rightarrow> bool" where
  "containsUsableNodes xs \<longleftrightarrow> list_ex (\<lambda>n. ijn_status n = AVAILABLE) xs"

text \<open>One pass in set order; \<open>nodesByRank\<close> remembers the node to keep for each rank.\<close>

fun duplicates_loop ::
    "node_list \<Rightarrow> (int \<rightharpoonup> inactive_job_node) \<Rightarrow> node_list \<Rightarrow> node_list" where
  "duplicates_loop [] nodesByRank nodesToDelete = nodesToDelete"
| "duplicates_loop (n # ns) nodesByRank nodesToDelete =
     (case nodesByRank (ijn_rank n) of
        Some otherNode \<Rightarrow>
          if ijn_lastEpoch n > ijn_lastEpoch otherNode
          then duplicates_loop ns (nodesByRank(ijn_rank n \<mapsto> n)) (nodesToDelete @ [otherNode])
          else duplicates_loop ns nodesByRank (nodesToDelete @ [n])
      | None \<Rightarrow> duplicates_loop ns (nodesByRank(ijn_rank n \<mapsto> n)) nodesToDelete)"

definition filterDuplicates :: "node_list \<Rightarrow> node_list" where
  "filterDuplicates xs = fold nodes_erase (duplicates_loop xs Map.empty []) xs"

definition mergePreferringNewer :: "node_list \<Rightarrow> node_list \<Rightarrow> node_list" where
  "mergePreferringNewer xs other = filterDuplicates (fold nodes_insert other xs)"

definition mergeReplacing :: "node_list \<Rightarrow> node_list \<Rightarrow> node_list" where
  "mergeReplacing xs other =
     (let nodesByRank = fold (\<lambda>n m. m(ijn_rank n \<mapsto> n)) xs (Map.empty :: int \<rightharpoonup> inactive_job_node)
      in fold (\<lambda>n ys.
           nodes_insert n
             (case nodesByRank (ijn_rank n) of None \<Rightarrow> ys | Some old \<Rightarrow> nodes_erase old ys))
         other xs)"

text \<open>Descend to the layer of the tree that can hold an index (the loop does not end for a
  negative right border that is never passed).\<close>

partial_function (option) next_layer :: "int \<Rightarrow> int \<Rightarrow> int \<Rightarrow> (int \<times> int) option" where
  "next_layer leftIndex rightIndex idx =
     (if idx > rightIndex then next_layer (2 * leftIndex + 1) (2 * rightIndex + 2) idx
      else Some (leftIndex, rightIndex))"

fun extract_loop :: "int \<Rightarrow> int \<Rightarrow> node_list \<Rightarrow> node_list \<Rightarrow> node_list option" where
  "extract_loop leftIndex rightIndex [] result = Some result"
| "extract_loop leftIndex rightIndex (n # ns) result =
     (case next_layer leftIndex rightIndex (ijn_originalIndex n) of
        None \<Rightarrow> None
      | Some (l, r) \<Rightarrow>
          extract_loop l r ns
            (if ijn_originalIndex n \<ge> l \<and> ijn_originalIndex n \<le> r
             then nodes_insert n result else result))"

text \<open>Result: the extracted nodes and what remains.\<close>

definition extractSubtree :: "node_list \<Rightarrow> int \<Rightarrow> bool \<Rightarrow> (node_list \<times> node_list) option" where
  "extractSubtree xs indexOfRoot excludeRoot =
     (let leftIndex = (if excludeRoot then 2 * indexOfRoot + 1 else indexOfRoot);
          rightIndex = (if excludeRoot then 2 * indexOfRoot + 2 else indexOfRoot)
      in case extract_loop leftIndex rightIndex xs [] of
           None \<Rightarrow> None
         | Some result \<Rightarrow> Some (result, fold nodes_erase result xs))"

definition cleanUpStatuses :: "node_list \<Rightarrow> node_list" where
  "cleanUpStatuses xs =
     fold nodes_erase (filter (\<lambda>n. ijn_status n = LOST) xs)
       (map (\<lambda>n. if ijn_status n = LOST then n else n\<lparr>ijn_status := AVAILABLE\<rparr>) xs)"

section \<open>Scheduling updates\<close>

record job_scheduling_update =
  su_jobId :: int
  su_destinationIndex :: int
  su_epoch :: int
  su_volume :: int
  su_inactiveJobNodes :: node_list

definition JobSchedulingUpdate_init :: job_scheduling_update where
  "JobSchedulingUpdate_init =
     \<lparr>su_jobId = -1, su_destinationIndex = -1, su_epoch = -1, su_volume = -1,
      su_inactiveJobNodes = []\<rparr>"

partial_function (option) split_layer :: "int \<Rightarrow> int \<Rightarrow> int \<Rightarrow> (int \<times> int) option" where
  "split_layer leftMax rightMax nodeIndex =
     (if nodeIndex > rightMax then split_layer (2 * leftMax + 2) (2 * rightMax + 2) nodeIndex
      else Some (leftMax, rightMax))"

fun split_loop :: "int \<Rightarrow> node_list \<Rightarrow> node_list \<Rightarrow> node_list \<Rightarrow> (node_list \<times> node_list) option" where
  "split_loop index [] left right = Some (left, right)"
| "split_loop index (n # ns) left right =
     (if ijn_originalIndex n < 2 * index + 1
      then if length left < length right
           then split_loop index ns (nodes_insert n left) right
           else split_loop index ns left (nodes_insert n right)
      else case split_layer (2 * index + 1) (2 * index + 2) (ijn_originalIndex n) of
             None \<Rightarrow> None
           | Some (leftMax, rightMax) \<Rightarrow>
               if ijn_originalIndex n > leftMax
               then split_loop index ns left (nodes_insert n right)
               else split_loop index ns (nodes_insert n left) right)"

definition split_update ::
    "job_scheduling_update \<Rightarrow> int \<Rightarrow> (job_scheduling_update \<times> job_scheduling_update) option" where
  "split_update u index =
     (case split_loop index (su_inactiveJobNodes u) [] [] of
        None \<Rightarrow> None
      | Some (left, right) \<Rightarrow>
          (let base = JobSchedulingUpdate_init
             \<lparr>su_jobId := su_jobId u, su_epoch := su_epoch u, su_volume := su_volume u\<rparr>
           in Some (base\<lparr>su_inactiveJobNodes := left\<rparr>, base\<lparr>su_inactiveJobNodes := right\<rparr>)))"

definition update_valid :: "job_scheduling_update \<Rightarrow> bool" where
  "update_valid u \<longleftrightarrow> su_jobId u \<ge> 0"

declare next_layer.simps [code] split_layer.simps [code]

section \<open>The node sets stay sets\<close>

lemma node_key_simps [simp]:
  "nk_index (node_key n) = ijn_originalIndex n"
  "nk_epoch (node_key n) = ijn_lastEpoch n"
  "nk_rank (node_key n) = ijn_rank n"
  "node_key (n\<lparr>ijn_status := s\<rparr>) = node_key n"
  by (simp_all add: node_key_def)

lemma node_key_eq_iff:
  "node_key a = node_key b \<longleftrightarrow>
     ijn_originalIndex a = ijn_originalIndex b \<and> ijn_lastEpoch a = ijn_lastEpoch b
     \<and> ijn_rank a = ijn_rank b"
  by (simp add: node_key_def)

lemma nodes_insert_set [oset_simps]: "node_set xs \<Longrightarrow> node_set (nodes_insert n xs)"
  by (simp add: nodes_insert_def oset_sorted_insert)

lemma nodes_erase_set [oset_simps]: "node_set xs \<Longrightarrow> node_set (nodes_erase n xs)"
  by (simp add: nodes_erase_def oset_sorted_erase)

lemma fold_nodes_insert_set: "node_set xs \<Longrightarrow> node_set (fold nodes_insert ns xs)"
  by (induction ns arbitrary: xs) (auto simp: nodes_insert_set)

lemma fold_nodes_erase:
  "fold nodes_erase ns xs = filter (\<lambda>n. node_key n \<notin> node_key ` set ns) xs"
proof (induction ns arbitrary: xs)
  case (Cons a ns)
  have "fold nodes_erase (a # ns) xs =
      filter (\<lambda>n. node_key n \<notin> node_key ` set ns) (filter (\<lambda>n. node_key n \<noteq> node_key a) xs)"
    using Cons.IH [of "nodes_erase a xs"] by (simp add: nodes_erase_def [of a] oset_erase_def)
  also have "\<dots> = filter (\<lambda>n. node_key n \<notin> node_key ` set (a # ns)) xs"
    by (auto intro!: filter_cong)
  finally show ?case .
qed simp

lemma fold_nodes_erase_sub:
  assumes "node_set xs" "set ns \<subseteq> set xs"
  shows "fold nodes_erase ns xs = filter (\<lambda>n. n \<notin> set ns) xs"
proof -
  have "node_key n \<notin> node_key ` set ns \<longleftrightarrow> n \<notin> set ns" if "n \<in> set xs" for n
    using that assms oset_key_inj [OF assms(1)] by (auto simp: image_iff)
  then show ?thesis unfolding fold_nodes_erase by (intro filter_cong) auto
qed

lemma node_key_less_index:
  "node_key a < node_key b \<Longrightarrow> ijn_originalIndex a \<le> ijn_originalIndex b"
  by (auto simp: less_node_key_def node_less_def split: if_splits)

lemma node_set_index_sorted: "node_set xs \<Longrightarrow> sorted (map ijn_originalIndex xs)"
  by (induction xs) (auto intro: node_key_less_index)

lemma nodes_insert_last:
  "node_set (xs @ [n]) \<Longrightarrow> nodes_insert n xs = xs @ [n]"
  unfolding nodes_insert_def by (induction xs) auto


section \<open>Duplicate elimination\<close>

text \<open>The node to keep for its rank: the newest one, and the first of these in set order.\<close>

definition best_of_rank :: "inactive_job_node set \<Rightarrow> inactive_job_node \<Rightarrow> bool" where
  "best_of_rank S n \<longleftrightarrow>
     n \<in> S \<and> (\<forall>m \<in> S. ijn_rank m = ijn_rank n \<and> m \<noteq> n \<longrightarrow>
       ijn_lastEpoch m < ijn_lastEpoch n
       \<or> ijn_lastEpoch m = ijn_lastEpoch n \<and> node_key n < node_key m)"

lemma best_of_rank_mem: "best_of_rank S n \<Longrightarrow> n \<in> S"
  by (simp add: best_of_rank_def)

lemma best_of_rank_unique:
  "best_of_rank S m \<Longrightarrow> best_of_rank S n \<Longrightarrow> ijn_rank m = ijn_rank n \<Longrightarrow> m = n"
  by (force simp: best_of_rank_def)

lemma duplicates_loop_spec:
  assumes "node_set (P @ ns)"
    and "\<And>r n. by_rank r = Some n \<longleftrightarrow> best_of_rank (set P) n \<and> ijn_rank n = r"
    and "\<And>r m. m \<in> set P \<Longrightarrow> by_rank (ijn_rank m) \<noteq> None"
    and "set del = {n \<in> set P. \<not> best_of_rank (set P) n}"
  shows "set (duplicates_loop ns by_rank del) =
    {n \<in> set (P @ ns). \<not> best_of_rank (set (P @ ns)) n}"
  using assms
proof (induction ns arbitrary: P by_rank del)
  case (Cons n ns)
  have lt: "\<And>m. m \<in> set P \<Longrightarrow> node_key m < node_key n"
    using Cons.prems(1) by (auto simp: sorted_wrt_append)
  then have new: "n \<notin> set P" by auto
  have srt: "node_set ((P @ [n]) @ ns)" using Cons.prems(1) by simp
  show ?case
  proof (cases "by_rank (ijn_rank n)")
    case None
    then have alone: "\<And>m. m \<in> set P \<Longrightarrow> ijn_rank m \<noteq> ijn_rank n"
      using Cons.prems(3) by fastforce
    have best: "best_of_rank (set (P @ [n])) m \<longleftrightarrow> best_of_rank (set P) m \<or> m = n" for m
      using alone new by (fastforce simp: best_of_rank_def)
    have "set (duplicates_loop ns (by_rank(ijn_rank n \<mapsto> n)) del) =
        {m \<in> set ((P @ [n]) @ ns). \<not> best_of_rank (set ((P @ [n]) @ ns)) m}"
      by (rule Cons.IH [OF srt]) (use best None alone Cons.prems(2-4) new in \<open>auto dest: best_of_rank_mem\<close>)
    with None show ?thesis by simp
  next
    case (Some other)
    then have other: "best_of_rank (set P) other" "ijn_rank other = ijn_rank n" "other \<in> set P"
      using Cons.prems(2) by (auto simp: best_of_rank_def)
    show ?thesis
    proof (cases "ijn_lastEpoch n > ijn_lastEpoch other")
      case True
      have same: "ijn_lastEpoch m \<le> ijn_lastEpoch other"
        if "m \<in> set P" "ijn_rank m = ijn_rank n" for m
        using other that by (cases "m = other") (auto simp: best_of_rank_def)
      have n: "best_of_rank (set (P @ [n])) n"
        using same True by (auto simp: best_of_rank_def) (metis order_le_less_trans)+
      have best: "best_of_rank (set (P @ [n])) m \<longleftrightarrow>
          best_of_rank (set P) m \<and> m \<noteq> other \<or> m = n" for m
      proof (cases "m \<in> set P \<and> ijn_rank m = ijn_rank n")
        case in_class: True
        then have "m \<noteq> n" using new by auto
        moreover have "\<not> best_of_rank (set (P @ [n])) m"
          using best_of_rank_unique [OF n] in_class \<open>m \<noteq> n\<close> by metis
        moreover have "best_of_rank (set P) m \<Longrightarrow> m = other"
          using best_of_rank_unique [OF other(1)] in_class other(2) by metis
        ultimately show ?thesis by blast
      next
        case False
        then show ?thesis using n other by (auto simp: best_of_rank_def)
      qed
      have "set (duplicates_loop ns (by_rank(ijn_rank n \<mapsto> n)) (del @ [other])) =
          {m \<in> set ((P @ [n]) @ ns). \<not> best_of_rank (set ((P @ [n]) @ ns)) m}"
      proof (rule Cons.IH [OF srt])
        fix r k
        show "(by_rank(ijn_rank n \<mapsto> n)) r = Some k \<longleftrightarrow>
            best_of_rank (set (P @ [n])) k \<and> ijn_rank k = r"
          using best best_of_rank_unique [OF other(1)] other(2) Cons.prems(2)
          by (cases "r = ijn_rank n") auto
      next
        fix r m assume "m \<in> set (P @ [n])"
        then show "(by_rank(ijn_rank n \<mapsto> n)) (ijn_rank m) \<noteq> None"
          using Cons.prems(3) by auto
      next
        show "set (del @ [other]) = {m \<in> set (P @ [n]). \<not> best_of_rank (set (P @ [n])) m}"
          using best Cons.prems(4) other new by auto
      qed
      with Some True show ?thesis by simp
    next
      case False
      have best: "best_of_rank (set (P @ [n])) m \<longleftrightarrow> best_of_rank (set P) m" for m
        using other False lt new by (fastforce simp: best_of_rank_def)
      have "set (duplicates_loop ns by_rank (del @ [n])) =
          {m \<in> set ((P @ [n]) @ ns). \<not> best_of_rank (set ((P @ [n]) @ ns)) m}"
        by (rule Cons.IH [OF srt])
          (use best Some other Cons.prems(2-4) new in \<open>auto dest: best_of_rank_mem\<close>)
      with Some False show ?thesis by simp
    qed
  qed
qed auto


lemma best_of_rank_exists:
  assumes "finite S" "m \<in> S" "inj_on node_key S"
  shows "\<exists>n. best_of_rank S n \<and> ijn_rank n = ijn_rank m"
proof -
  let ?C = "{n \<in> S. ijn_rank n = ijn_rank m}"
  let ?top = "Max (ijn_lastEpoch ` ?C)"
  let ?T = "{n \<in> ?C. ijn_lastEpoch n = ?top}"
  have C: "finite ?C" "?C \<noteq> {}" using assms(1,2) by auto
  then have "?top \<in> ijn_lastEpoch ` ?C" by (intro Max_in) auto
  then have "?T \<noteq> {}" by force
  moreover have "finite ?T" by (rule finite_subset [OF _ C(1)]) auto
  ultimately have T: "finite ?T" "?T \<noteq> {}" by auto
  then have "Min (node_key ` ?T) \<in> node_key ` ?T" by (intro Min_in finite_imageI) auto
  then obtain n where n: "n \<in> ?T" "node_key n = Min (node_key ` ?T)" by force
  have "best_of_rank S n"
    unfolding best_of_rank_def
  proof (intro conjI ballI impI)
    show "n \<in> S" using n by simp
    fix k assume k: "k \<in> S" "ijn_rank k = ijn_rank n \<and> k \<noteq> n"
    then have "ijn_lastEpoch k \<le> ?top" using C n by (intro Max_ge) auto
    moreover have "k \<in> ?T \<Longrightarrow> node_key n < node_key k"
      using T n k assms(3) by (auto simp: order_less_le inj_on_def)
    ultimately show "ijn_lastEpoch k < ijn_lastEpoch n
        \<or> ijn_lastEpoch k = ijn_lastEpoch n \<and> node_key n < node_key k"
      using n k by force
  qed
  with n show ?thesis by auto
qed

lemma node_set_inj: "node_set xs \<Longrightarrow> inj_on node_key (set xs)"
  by (auto simp: strict_sorted_iff distinct_map)

lemma filterDuplicates_eq:
  assumes "node_set xs"
  shows "filterDuplicates xs = filter (best_of_rank (set xs)) xs"
proof -
  have "set (duplicates_loop xs Map.empty []) =
      {n \<in> set ([] @ xs). \<not> best_of_rank (set ([] @ xs)) n}"
    by (rule duplicates_loop_spec) (use assms in \<open>auto simp: best_of_rank_def\<close>)
  then have del: "set (duplicates_loop xs Map.empty []) = {n \<in> set xs. \<not> best_of_rank (set xs) n}"
    by simp
  then have "filterDuplicates xs = filter (\<lambda>n. n \<notin> set (duplicates_loop xs Map.empty [])) xs"
    unfolding filterDuplicates_def by (intro fold_nodes_erase_sub [OF assms]) auto
  also have "\<dots> = filter (best_of_rank (set xs)) xs"
    using del by (intro filter_cong) auto
  finally show ?thesis .
qed

lemma filterDuplicates_set: "node_set xs \<Longrightarrow> node_set (filterDuplicates xs)"
  by (simp add: filterDuplicates_eq oset_sorted_filter)

lemma filterDuplicates_ranks:
  assumes "node_set xs"
  shows "ijn_rank ` set (filterDuplicates xs) = ijn_rank ` set xs"
    and "inj_on ijn_rank (set (filterDuplicates xs))"
proof -
  show "ijn_rank ` set (filterDuplicates xs) = ijn_rank ` set xs"
  proof
    show "ijn_rank ` set xs \<subseteq> ijn_rank ` set (filterDuplicates xs)"
    proof
      fix r assume "r \<in> ijn_rank ` set xs"
      then obtain m where "m \<in> set xs" "ijn_rank m = r" by auto
      then obtain n where n: "best_of_rank (set xs) n" "ijn_rank n = r"
        using best_of_rank_exists [of "set xs" m] node_set_inj [OF assms] by auto
      then show "r \<in> ijn_rank ` set (filterDuplicates xs)"
        using best_of_rank_mem [OF n(1)] by (force simp: filterDuplicates_eq [OF assms])
    qed
  qed (auto simp: filterDuplicates_eq [OF assms])
  show "inj_on ijn_rank (set (filterDuplicates xs))"
    by (auto simp: inj_on_def filterDuplicates_eq [OF assms] intro: best_of_rank_unique)
qed

lemma mergePreferringNewer_set: "node_set xs \<Longrightarrow> node_set (mergePreferringNewer xs ys)"
  by (simp add: mergePreferringNewer_def filterDuplicates_set fold_nodes_insert_set)

lemma cleanUpStatuses_eq:
  assumes "node_set xs"
  shows "cleanUpStatuses xs =
    map (\<lambda>n. n\<lparr>ijn_status := AVAILABLE\<rparr>) (filter (\<lambda>n. ijn_status n \<noteq> LOST) xs)"
proof -
  let ?f = "\<lambda>n. if ijn_status n = LOST then n else n\<lparr>ijn_status := AVAILABLE\<rparr>"
  let ?L = "filter (\<lambda>n. ijn_status n = LOST) xs"
  have key: "node_key (?f n) = node_key n" for n by simp
  have "node_key n \<notin> node_key ` set ?L \<longleftrightarrow> ijn_status n \<noteq> LOST" if "n \<in> set xs" for n
    using that oset_key_inj [OF assms] by (auto simp: image_iff)
  then have "filter (\<lambda>n. node_key (?f n) \<notin> node_key ` set ?L) xs =
      filter (\<lambda>n. ijn_status n \<noteq> LOST) xs"
    unfolding key by (intro filter_cong) auto
  moreover have "cleanUpStatuses xs =
      map ?f (filter (\<lambda>n. node_key (?f n) \<notin> node_key ` set ?L) xs)"
    by (simp only: cleanUpStatuses_def fold_nodes_erase filter_map o_def)
  ultimately show ?thesis by simp
qed

lemma cleanUpStatuses_set: "node_set xs \<Longrightarrow> node_set (cleanUpStatuses xs)"
  by (simp add: cleanUpStatuses_eq oset_sorted_filter o_def)


section \<open>Subtrees of the job tree\<close>

text \<open>
  The job tree is a binary heap: the parent of index \<open>i\<close> is \<open>(i-1)/2\<close>. \<open>in_subtree r i\<close> is the
  specification that the two loops over layers implement: \<open>i\<close> is \<open>r\<close> or a descendant of \<open>r\<close>.
\<close>

function in_subtree :: "int \<Rightarrow> int \<Rightarrow> bool" where
  "in_subtree r i = (if i \<le> r \<or> i \<le> 0 then i = r else in_subtree r ((i - 1) div 2))"
  by pat_completeness auto
termination
  by (relation "measure (\<lambda>(r, i). nat i)") auto

declare in_subtree.simps [simp del]

definition layer_left :: "nat \<Rightarrow> int \<Rightarrow> int" where
  "layer_left d r = 2 ^ d * (r + 1) - 1"

definition layer_right :: "nat \<Rightarrow> int \<Rightarrow> int" where
  "layer_right d r = 2 ^ d * (r + 2) - 2"

lemma layer_0 [simp]: "layer_left 0 r = r" "layer_right 0 r = r"
  by (simp_all add: layer_left_def layer_right_def)

lemma layer_Suc [simp]:
  "layer_left (Suc d) r = 2 * layer_left d r + 1"
  "layer_right (Suc d) r = 2 * layer_right d r + 2"
  by (simp_all add: layer_left_def layer_right_def)

lemma layer_nonneg: "0 \<le> r \<Longrightarrow> 0 \<le> layer_left d r \<and> layer_left d r \<le> layer_right d r"
  by (induction d) auto

lemma layer_ge: "0 \<le> r \<Longrightarrow> r + int d \<le> layer_left d r"
  by (induction d) (auto simp: algebra_simps)

lemma layer_left_mono:
  assumes "0 \<le> r" "d \<le> e"
  shows "layer_left d r \<le> layer_left e r"
  using assms(2)
proof (induction rule: dec_induct)
  case (step e)
  then show ?case using layer_nonneg [OF assms(1), of e] by simp
qed simp

lemma layer_right_mono:
  assumes "0 \<le> r" "d \<le> e"
  shows "layer_right d r \<le> layer_right e r"
  using assms(2)
proof (induction rule: dec_induct)
  case (step e)
  then show ?case using layer_nonneg [OF assms(1), of e] by simp
qed simp

lemma layer_gap: "0 \<le> r \<Longrightarrow> layer_right e r < layer_left (Suc e) r"
  by (induction e) auto

lemma layer_unique:
  assumes "0 \<le> r" "i \<le> layer_right e r" "d0 \<le> e" "d0 < e \<Longrightarrow> layer_right (e - 1) r < i"
  shows "(\<exists>f\<ge>d0. layer_left f r \<le> i \<and> i \<le> layer_right f r) \<longleftrightarrow> layer_left e r \<le> i"
proof
  assume "\<exists>f\<ge>d0. layer_left f r \<le> i \<and> i \<le> layer_right f r"
  then obtain f where f: "f \<ge> d0" "layer_left f r \<le> i" "i \<le> layer_right f r" by blast
  have "\<not> f < e"
    using layer_right_mono [OF assms(1), of f "e - 1"] assms(4) f by force
  moreover have "\<not> e < f"
    using layer_left_mono [OF assms(1), of "Suc e" f] layer_gap [OF assms(1), of e] assms(2) f by force
  ultimately show "layer_left e r \<le> i" using f by simp
qed (use assms in blast)

lemma in_subtree_layer:
  "0 \<le> r \<Longrightarrow> in_subtree r i \<longleftrightarrow> (\<exists>d. layer_left d r \<le> i \<and> i \<le> layer_right d r)"
proof (induction r i rule: in_subtree.induct)
  case (1 r i)
  show ?case
  proof (cases "i \<le> r \<or> i \<le> 0")
    case True
    have "layer_left d r \<le> i \<Longrightarrow> i = r" for d
      using layer_ge [OF "1.prems", of d] True "1.prems" by auto
    then show ?thesis using True by (subst in_subtree.simps) (auto intro: exI [of _ 0])
  next
    case False
    have step: "layer_left d r \<le> (i - 1) div 2 \<and> (i - 1) div 2 \<le> layer_right d r \<longleftrightarrow>
        layer_left (Suc d) r \<le> i \<and> i \<le> layer_right (Suc d) r" for d
      by auto
    have "in_subtree r i \<longleftrightarrow> in_subtree r ((i - 1) div 2)"
      using False by (subst in_subtree.simps) auto
    also have "\<dots> \<longleftrightarrow> (\<exists>d. layer_left (Suc d) r \<le> i \<and> i \<le> layer_right (Suc d) r)"
      using "1.IH" [OF False "1.prems"] step by simp
    also have "\<dots> \<longleftrightarrow> (\<exists>d. layer_left d r \<le> i \<and> i \<le> layer_right d r)"
      using False by (metis layer_0 not0_implies_Suc not_less order_le_less)
    finally show ?thesis .
  qed
qed

text \<open>The descent stops at the first layer whose right border is not passed.\<close>

lemma next_layer_stop:
  assumes "0 \<le> r"
  shows "\<exists>e \<ge> d. next_layer (layer_left d r) (layer_right d r) i
      = Some (layer_left e r, layer_right e r)
    \<and> i \<le> layer_right e r \<and> (d < e \<longrightarrow> layer_right (e - 1) r < i)"
proof (induction "nat (i - layer_right d r)" arbitrary: d rule: less_induct)
  case less
  show ?case
  proof (cases "i > layer_right d r")
    case True
    have "nat (i - layer_right (Suc d) r) < nat (i - layer_right d r)"
      using True layer_nonneg [OF assms, of d] by auto
    from less [OF this] obtain e where e: "e \<ge> Suc d"
      "next_layer (layer_left (Suc d) r) (layer_right (Suc d) r) i
        = Some (layer_left e r, layer_right e r)"
      "i \<le> layer_right e r" "Suc d < e \<longrightarrow> layer_right (e - 1) r < i" by blast
    have "layer_right (e - 1) r < i" using e(1,4) True by (cases "e = Suc d") auto
    with e True show ?thesis by (intro exI [of _ e]) (auto simp: next_layer.simps [of "layer_left d r"])
  next
    case False
    then show ?thesis by (intro exI [of _ d]) (auto simp: next_layer.simps)
  qed
qed

lemma split_layer_stop:
  assumes "0 \<le> a" "a \<le> b"
  shows "\<exists>e \<ge> d. split_layer (layer_right d a) (layer_right d b) i
      = Some (layer_right e a, layer_right e b)
    \<and> i \<le> layer_right e b \<and> (d < e \<longrightarrow> layer_right (e - 1) b < i)"
proof (induction "nat (i - layer_right d b)" arbitrary: d rule: less_induct)
  case less
  show ?case
  proof (cases "i > layer_right d b")
    case True
    have "nat (i - layer_right (Suc d) b) < nat (i - layer_right d b)"
      using True layer_nonneg [of b d] assms by auto
    from less [OF this] obtain e where e: "e \<ge> Suc d"
      "split_layer (layer_right (Suc d) a) (layer_right (Suc d) b) i
        = Some (layer_right e a, layer_right e b)"
      "i \<le> layer_right e b" "Suc d < e \<longrightarrow> layer_right (e - 1) b < i" by blast
    have "layer_right (e - 1) b < i" using e(1,4) True by (cases "e = Suc d") auto
    with e True show ?thesis by (intro exI [of _ e]) (auto simp: split_layer.simps [of "layer_right d a"])
  next
    case False
    then show ?thesis by (intro exI [of _ d]) (auto simp: split_layer.simps)
  qed
qed

lemma extract_loop_spec:
  assumes "0 \<le> r" "d0 \<le> d" "node_set (acc @ ns)"
    and "\<And>n. n \<in> set ns \<Longrightarrow> d0 < d \<Longrightarrow> layer_right (d - 1) r < ijn_originalIndex n"
  shows "extract_loop (layer_left d r) (layer_right d r) ns acc =
    Some (acc @ filter (\<lambda>n. \<exists>f\<ge>d0. layer_left f r \<le> ijn_originalIndex n
      \<and> ijn_originalIndex n \<le> layer_right f r) ns)"
  using assms(2-)
proof (induction ns arbitrary: d acc)
  case (Cons n ns)
  obtain e where e: "e \<ge> d" "next_layer (layer_left d r) (layer_right d r) (ijn_originalIndex n)
      = Some (layer_left e r, layer_right e r)"
    "ijn_originalIndex n \<le> layer_right e r" "d < e \<longrightarrow> layer_right (e - 1) r < ijn_originalIndex n"
    using next_layer_stop [OF assms(1)] by blast
  have low: "layer_right (e - 1) r < ijn_originalIndex n" if "d0 < e"
    using e(1,4) Cons.prems(3) [of n] that by (cases "d = e") auto
  have next_idx: "layer_right (e - 1) r < ijn_originalIndex m" if "m \<in> set ns" "d0 < e" for m
    using low that node_key_less_index [of n m] Cons.prems(2) by (force simp: sorted_wrt_append)
  have sets: "node_set ((acc @ [n]) @ ns)" "node_set (acc @ ns)" "node_set (acc @ [n])"
    using Cons.prems(2) by (auto simp: sorted_wrt_append)
  note iff = layer_unique [OF assms(1) e(3) order_trans [OF Cons.prems(1) e(1)] low]
  have "extract_loop (layer_left e r) (layer_right e r) ns xs =
      Some (xs @ filter (\<lambda>n. \<exists>f\<ge>d0. layer_left f r \<le> ijn_originalIndex n
      \<and> ijn_originalIndex n \<le> layer_right f r) ns)" if "node_set (xs @ ns)" for xs
    using that next_idx Cons.prems(1) e(1) by (intro Cons.IH) auto
  from this [OF sets(1)] this [OF sets(2)] show ?case
    using e(2,3) iff nodes_insert_last [OF sets(3)] by (simp del: layer_Suc)
qed simp

text \<open>The subtree that a call of \<open>extractSubtree\<close> is meant to remove.\<close>

definition subtree_index :: "int \<Rightarrow> bool \<Rightarrow> int \<Rightarrow> bool" where
  "subtree_index r excl i \<longleftrightarrow> in_subtree r i \<and> (excl \<longrightarrow> i \<noteq> r)"

lemma subtree_index_layer:
  assumes "0 \<le> r"
  shows "subtree_index r excl i \<longleftrightarrow>
    (\<exists>f\<ge>(if excl then 1 else 0). layer_left f r \<le> i \<and> i \<le> layer_right f r)"
proof -
  have "layer_left f r \<le> i \<Longrightarrow> f \<ge> 1 \<Longrightarrow> i \<noteq> r" for f
    using layer_ge [OF assms, of f] by auto
  moreover have "(\<exists>f\<ge>1. layer_left f r \<le> i \<and> i \<le> layer_right f r)"
    if "layer_left f r \<le> i" "i \<le> layer_right f r" "i \<noteq> r" for f
    using that by (cases f) (auto intro!: exI [of _ f])
  ultimately show ?thesis
    by (auto simp: subtree_index_def in_subtree_layer [OF assms])
qed

lemma extractSubtree_eq:
  assumes "node_set xs" "0 \<le> r"
  shows "extractSubtree xs r excl =
    Some (filter (\<lambda>n. subtree_index r excl (ijn_originalIndex n)) xs,
          filter (\<lambda>n. \<not> subtree_index r excl (ijn_originalIndex n)) xs)"
proof -
  let ?d = "if excl then 1 else 0 :: nat"
  let ?in = "\<lambda>n. subtree_index r excl (ijn_originalIndex n)"
  have "extract_loop (layer_left ?d r) (layer_right ?d r) xs [] = Some ([] @ filter ?in xs)"
    unfolding subtree_index_layer [OF assms(2)]
    by (rule extract_loop_spec) (use assms in auto)
  then have "extract_loop (if excl then 2 * r + 1 else r) (if excl then 2 * r + 2 else r) xs []
      = Some (filter ?in xs)" by (cases excl) auto
  moreover have "fold nodes_erase (filter ?in xs) xs = filter (\<lambda>n. \<not> ?in n) xs"
    by (subst fold_nodes_erase_sub [OF assms(1)]) (auto intro: filter_cong)
  ultimately show ?thesis by (simp add: extractSubtree_def Let_def)
qed

lemma split_layer_side:
  assumes "0 \<le> k" "2 * k + 1 \<le> i"
  obtains l r where "split_layer (2 * k + 1) (2 * k + 2) i = Some (l, r)"
    and "in_subtree (2 * k + 1) i \<Longrightarrow> i \<le> l" and "in_subtree (2 * k + 2) i \<Longrightarrow> l < i"
proof -
  let ?a = "2 * k + 1" and ?b = "2 * k + 2"
  have adj: "layer_left d ?b = layer_right d ?a + 1" for d
    by (simp add: layer_left_def layer_right_def)
  obtain e where e: "split_layer ?a ?b i = Some (layer_right e ?a, layer_right e ?b)"
    "i \<le> layer_right e ?b" "0 < e \<Longrightarrow> layer_right (e - 1) ?b < i"
    using split_layer_stop [of ?a ?b 0 i] assms by auto
  have right: "layer_right e ?a < i" if "in_subtree ?b i"
    using that layer_unique [of ?b i e 0] e(2,3) assms adj [of e] by (simp add: in_subtree_layer)
  have left: "i \<le> layer_right e ?a" if "in_subtree ?a i"
  proof -
    from that obtain f where f: "layer_left f ?a \<le> i" "i \<le> layer_right f ?a"
      using in_subtree_layer [of ?a i] assms by auto
    have "\<not> e < f"
    proof
      assume "e < f"
      then have "layer_left (Suc e) ?a \<le> i"
        using layer_left_mono [of ?a "Suc e" f] f assms by (simp del: layer_Suc)
      moreover have "layer_right e ?b < layer_left (Suc e) ?a"
      proof -
        have "(1::int) \<le> 2 ^ e" by simp
        then have "2 ^ e * 0 \<le> 2 ^ e * (2 * k)" using assms by (intro mult_left_mono) auto
        then show ?thesis by (simp add: layer_left_def layer_right_def algebra_simps)
      qed
      ultimately show False using e(2) by simp
    qed
    then show ?thesis using layer_right_mono [of ?a f e] f assms by simp
  qed
  show ?thesis using that [OF e(1) left right] .
qed

lemma split_loop_spec:
  assumes "0 \<le> k" "node_set L" "node_set R" "node_set (L @ ns)" "node_set (R @ ns)"
  shows "\<exists>L' R'. split_loop k ns L R = Some (L @ L', R @ R') \<and> node_set (L @ L') \<and> node_set (R @ R')
    \<and> mset L' + mset R' = mset ns
    \<and> (\<forall>n \<in> set L'. \<not> in_subtree (2 * k + 2) (ijn_originalIndex n))
    \<and> (\<forall>n \<in> set R'. \<not> in_subtree (2 * k + 1) (ijn_originalIndex n))"
  using assms(2-)
proof (induction ns arbitrary: L R)
  case (Cons n ns)
  let ?i = "ijn_originalIndex n"
  have ins: "nodes_insert n L = L @ [n]" "nodes_insert n R = R @ [n]"
    using Cons.prems by (auto intro!: nodes_insert_last simp: sorted_wrt_append)
  have goL: ?case if "split_loop k (n # ns) L R = split_loop k ns (L @ [n]) R"
      "\<not> in_subtree (2 * k + 2) ?i"
  proof -
    obtain L' R' where "split_loop k ns (L @ [n]) R = Some ((L @ [n]) @ L', R @ R')"
      "node_set ((L @ [n]) @ L')" "node_set (R @ R')" "mset L' + mset R' = mset ns"
      "\<forall>n \<in> set L'. \<not> in_subtree (2 * k + 2) (ijn_originalIndex n)"
      "\<forall>n \<in> set R'. \<not> in_subtree (2 * k + 1) (ijn_originalIndex n)"
      using Cons.IH [of "L @ [n]" R] Cons.prems by (auto simp: sorted_wrt_append)
    then show ?thesis using that by (intro exI [of _ "n # L'"] exI [of _ R']) auto
  qed
  have goR: ?case if "split_loop k (n # ns) L R = split_loop k ns L (R @ [n])"
      "\<not> in_subtree (2 * k + 1) ?i"
  proof -
    obtain L' R' where "split_loop k ns L (R @ [n]) = Some (L @ L', (R @ [n]) @ R')"
      "node_set (L @ L')" "node_set ((R @ [n]) @ R')" "mset L' + mset R' = mset ns"
      "\<forall>n \<in> set L'. \<not> in_subtree (2 * k + 2) (ijn_originalIndex n)"
      "\<forall>n \<in> set R'. \<not> in_subtree (2 * k + 1) (ijn_originalIndex n)"
      using Cons.IH [of L "R @ [n]"] Cons.prems by (auto simp: sorted_wrt_append)
    then show ?thesis using that by (intro exI [of _ L'] exI [of _ "n # R'"]) auto
  qed
  show ?case
  proof (cases "?i < 2 * k + 1")
    case True
    have "\<not> in_subtree (2 * k + 1) ?i" "\<not> in_subtree (2 * k + 2) ?i"
      using True by (subst in_subtree.simps; simp)+
    then show ?thesis using goL goR True ins by (cases "length L < length R") auto
  next
    case False
    then obtain l r where lr: "split_layer (2 * k + 1) (2 * k + 2) ?i = Some (l, r)"
      "in_subtree (2 * k + 1) ?i \<Longrightarrow> ?i \<le> l" "in_subtree (2 * k + 2) ?i \<Longrightarrow> l < ?i"
      using split_layer_side [OF assms(1), of ?i] by auto
    show ?thesis
    proof (cases "?i > l")
      case True then show ?thesis using False lr ins by (intro goR) auto
    next
      case False' : False then show ?thesis using False lr ins by (intro goL) auto
    qed
  qed
qed auto

section \<open>What the operations guarantee\<close>

lemma nodes_insert_keys: "node_key ` set (nodes_insert n xs) = insert (node_key n) (node_key ` set xs)"
  by (simp add: nodes_insert_def oset_insert_keys)

lemma nodes_insert_sub: "set (nodes_insert n xs) \<subseteq> insert n (set xs)"
  unfolding nodes_insert_def by (induction xs) auto

lemma fold_nodes_insert_keys:
  "node_key ` set (fold nodes_insert ns xs) = node_key ` set ns \<union> node_key ` set xs"
  by (induction ns arbitrary: xs) (auto simp: nodes_insert_keys)

lemma fold_nodes_insert_sub: "set (fold nodes_insert ns xs) \<subseteq> set ns \<union> set xs"
proof (induction ns arbitrary: xs)
  case (Cons n ns)
  then show ?case using nodes_insert_sub [of n xs] by force
qed simp

lemma rank_of_key: "ijn_rank ` S = nk_rank ` node_key ` S"
  by (simp add: image_image)

lemma mergePreferringNewer_spec:
  assumes "node_set xs"
  shows "node_set (mergePreferringNewer xs other)"
    and "ijn_rank ` set (mergePreferringNewer xs other) = ijn_rank ` (set xs \<union> set other)"
    and "inj_on ijn_rank (set (mergePreferringNewer xs other))"
    and "set (mergePreferringNewer xs other) \<subseteq> set xs \<union> set other"
    and "n \<in> set (mergePreferringNewer xs other) \<Longrightarrow> m \<in> set xs \<union> set other \<Longrightarrow>
      ijn_rank m = ijn_rank n \<Longrightarrow> ijn_lastEpoch m \<le> ijn_lastEpoch n"
proof -
  let ?ys = "fold nodes_insert other xs"
  have ys: "node_set ?ys" by (rule fold_nodes_insert_set [OF assms])
  note eq = filterDuplicates_eq [OF ys] and rk = filterDuplicates_ranks [OF ys]
  show "node_set (mergePreferringNewer xs other)" by (rule mergePreferringNewer_set [OF assms])
  show "ijn_rank ` set (mergePreferringNewer xs other) = ijn_rank ` (set xs \<union> set other)"
    using rk(1) by (simp only: mergePreferringNewer_def rank_of_key fold_nodes_insert_keys image_Un Un_commute)
  show "inj_on ijn_rank (set (mergePreferringNewer xs other))"
    using rk(2) by (simp add: mergePreferringNewer_def)
  show "set (mergePreferringNewer xs other) \<subseteq> set xs \<union> set other"
    using fold_nodes_insert_sub [of other xs] by (auto simp: mergePreferringNewer_def eq)
  show "ijn_lastEpoch m \<le> ijn_lastEpoch n"
    if "n \<in> set (mergePreferringNewer xs other)" "m \<in> set xs \<union> set other" "ijn_rank m = ijn_rank n"
  proof -
    have "node_key m \<in> node_key ` set ?ys" using that(2) by (auto simp: fold_nodes_insert_keys)
    then obtain k where "k \<in> set ?ys" "node_key k = node_key m" by auto
    moreover have "best_of_rank (set ?ys) n"
      using that(1) by (simp add: mergePreferringNewer_def eq)
    ultimately show ?thesis using that(3)
      by (cases "k = n") (fastforce simp: best_of_rank_def node_key_eq_iff)+
  qed
qed

text \<open>
  Property (C10): merging another list of inactive nodes into a list (as done when nodes return from a
  child and when updates from several children meet) keeps a well-formed set, keeps every rank of both
  lists, keeps exactly one node per rank, invents no node, and the node it keeps for a rank is at least
  as recent as every node that either list had for it.
\<close>
theorem merge_keeps_newest_per_rank:
  fixes xs other :: node_list
  assumes "node_set xs"
  defines "merged \<equiv> mergePreferringNewer xs other"
  shows "node_set merged \<and> ijn_rank ` set merged = ijn_rank ` (set xs \<union> set other)
    \<and> inj_on ijn_rank (set merged) \<and> set merged \<subseteq> set xs \<union> set other
    \<and> (\<forall>n \<in> set merged. \<forall>m \<in> set xs \<union> set other. ijn_rank m = ijn_rank n \<longrightarrow> ijn_lastEpoch m \<le> ijn_lastEpoch n)"
  using mergePreferringNewer_spec [OF assms(1), where other = other] unfolding merged_def by blast

theorem merge_keeps_newest_per_rank_witness:
  "ijn_rank ` set (mergePreferringNewer [InactiveJobNode 7 1 3, InactiveJobNode 8 2 3]
      [InactiveJobNode 7 2 5]) = {7, 8}"
  using merge_keeps_newest_per_rank
    [of "[InactiveJobNode 7 1 3, InactiveJobNode 8 2 3]" "[InactiveJobNode 7 2 5]"]
  by (auto simp: InactiveJobNode_def node_key_def less_node_key_def node_less_def)

text \<open>
  Property (C9): \<open>extractSubtree\<close> terminates for every root index of the tree and splits the set
  exactly: the result holds the nodes whose original index lies in the subtree of the given root (the
  root itself left out on request), the rest stays, both in their order.
\<close>
theorem extractSubtree_exact:
  assumes "node_set xs" "0 \<le> r"
  shows "extractSubtree xs r excl =
    Some (filter (\<lambda>n. in_subtree r (ijn_originalIndex n) \<and> (excl \<longrightarrow> ijn_originalIndex n \<noteq> r)) xs,
          filter (\<lambda>n. \<not> (in_subtree r (ijn_originalIndex n) \<and> (excl \<longrightarrow> ijn_originalIndex n \<noteq> r))) xs)"
  using extractSubtree_eq [OF assms] by (simp add: subtree_index_def)

theorem extractSubtree_exact_witness:
  "extractSubtree [InactiveJobNode 4 1 0, InactiveJobNode 5 2 0, InactiveJobNode 6 4 0] 1 True =
     Some ([InactiveJobNode 6 4 0], [InactiveJobNode 4 1 0, InactiveJobNode 5 2 0])"
  using extractSubtree_exact
    [of "[InactiveJobNode 4 1 0, InactiveJobNode 5 2 0, InactiveJobNode 6 4 0]" 1 True]
  by (simp add: InactiveJobNode_def node_key_def less_node_key_def node_less_def in_subtree.simps)

text \<open>
  Property (C19): \<open>split\<close> distributes the nodes of an update over the two children of the given index
  without losing or doubling one, keeps job, epoch and volume, and sends no node of the right child's
  subtree to the left child or vice versa.
\<close>
theorem split_respects_subtrees:
  assumes "node_set (su_inactiveJobNodes u)" "0 \<le> index"
  shows "\<exists>left right. split_update u index = Some (left, right)
    \<and> mset (su_inactiveJobNodes left) + mset (su_inactiveJobNodes right) = mset (su_inactiveJobNodes u)
    \<and> node_set (su_inactiveJobNodes left) \<and> node_set (su_inactiveJobNodes right)
    \<and> (\<forall>n \<in> set (su_inactiveJobNodes left). \<not> in_subtree (2 * index + 2) (ijn_originalIndex n))
    \<and> (\<forall>n \<in> set (su_inactiveJobNodes right). \<not> in_subtree (2 * index + 1) (ijn_originalIndex n))
    \<and> su_jobId left = su_jobId u \<and> su_jobId right = su_jobId u
    \<and> su_epoch left = su_epoch u \<and> su_epoch right = su_epoch u
    \<and> su_volume left = su_volume u \<and> su_volume right = su_volume u"
  using split_loop_spec [of index "[]" "[]" "su_inactiveJobNodes u"] assms
  by (auto simp: split_update_def JobSchedulingUpdate_init_def)

theorem split_respects_subtrees_witness:
  "\<exists>left right. split_update (JobSchedulingUpdate_init
      \<lparr>su_jobId := 3, su_inactiveJobNodes := [InactiveJobNode 4 3 0, InactiveJobNode 5 6 0]\<rparr>) 0
        = Some (left, right) \<and> su_jobId left = 3 \<and> su_jobId right = 3
    \<and> mset (su_inactiveJobNodes left) + mset (su_inactiveJobNodes right)
        = {#InactiveJobNode 4 3 0, InactiveJobNode 5 6 0#}"
proof -
  let ?u = "JobSchedulingUpdate_init
      \<lparr>su_jobId := 3, su_inactiveJobNodes := [InactiveJobNode 4 3 0, InactiveJobNode 5 6 0]\<rparr>"
  have "node_set (su_inactiveJobNodes ?u)"
    by (simp add: InactiveJobNode_def node_key_def less_node_key_def node_less_def)
  from split_respects_subtrees [OF this, of 0] show ?thesis by auto
qed

end
