(* ===== verification/Job_Tree.thy ===== *)
theory Job_Tree
  imports Permutation Job_Transfer Floats Scheduling_Update
begin

text \<open>
  The view a worker has of the binary tree of a job (class \<open>JobTree\<close> in src/src/app/job_tree.hpp): its
  own index, the ranks of root, parent and children (adjustments of a pseudorandom permutation of all
  ranks), past and dormant children, open send handles, and the epochs between which it waits for its
  reactivation. Times are rationals rounded like \<open>float\<close>; \<open>cancelSend\<close> calls are returned as a list.
\<close>

section \<open>State\<close>

text \<open>\<open>_it_dormant_children\<close> is a position in the list, its length being \<open>end()\<close>; \<open>_client_rank\<close> is
  uninitialized (\<open>None\<close>) before the first update.\<close>

record job_tree =
  jt_comm_size :: int
  jt_rank :: int
  jt_index :: int
  jt_job_node_ranks :: adj_perm
  jt_has_left_child :: bool
  jt_has_right_child :: bool
  jt_client_rank :: "int option"
  jt_past_children :: "int set"
  jt_use_dormant_children :: bool
  jt_dormant_children :: "int list"
  jt_it_dormant_children :: nat
  jt_balancing_epoch_of_last_requests :: int
  jt_time_of_desire_left :: rat
  jt_time_of_desire_right :: rat
  jt_num_desires :: nat
  jt_num_fulfilled_desires :: nat
  jt_sum_desire_latencies :: rat
  jt_desire_latencies :: "rat list"
  jt_send_handles_left :: "int list"
  jt_send_handles_right :: "int list"
  jt_wait_epoch :: int
  jt_stop_wait_epoch :: int

definition JobTree :: "shuffler \<Rightarrow> int \<Rightarrow> int \<Rightarrow> int \<Rightarrow> bool \<Rightarrow> job_tree" where
  "JobTree shuffle commSize rank seed useDormantChildren =
     \<lparr>jt_comm_size = commSize, jt_rank = rank, jt_index = -1,
      jt_job_node_ranks = AdjustablePermutation shuffle commSize seed,
      jt_has_left_child = False, jt_has_right_child = False, jt_client_rank = None,
      jt_past_children = {}, jt_use_dormant_children = useDormantChildren, jt_dormant_children = [],
      jt_it_dormant_children = 0, jt_balancing_epoch_of_last_requests = -1,
      jt_time_of_desire_left = -1, jt_time_of_desire_right = -1, jt_num_desires = 0,
      jt_num_fulfilled_desires = 0, jt_sum_desire_latencies = 0, jt_desire_latencies = [],
      jt_send_handles_left = [], jt_send_handles_right = [], jt_wait_epoch = -1,
      jt_stop_wait_epoch = -1\<rparr>"

definition isRoot :: "job_tree \<Rightarrow> bool" where
  "isRoot t \<longleftrightarrow> jt_index t = 0"

definition getLeftChildIndex :: "job_tree \<Rightarrow> int" where
  "getLeftChildIndex t = 2 * (jt_index t + 1) - 1"

definition getRightChildIndex :: "job_tree \<Rightarrow> int" where
  "getRightChildIndex t = 2 * (jt_index t + 1)"

definition getParentIndex :: "job_tree \<Rightarrow> int" where
  "getParentIndex t = c_div (jt_index t - 1) 2"

definition node_rank :: "job_tree \<Rightarrow> int \<Rightarrow> int res" where
  "node_rank t i = of_opt (perm_get (jt_job_node_ranks t) i)"

definition getRootNodeRank :: "job_tree \<Rightarrow> int res" where
  "getRootNodeRank t = node_rank t 0"

definition getLeftChildNodeRank :: "job_tree \<Rightarrow> int res" where
  "getLeftChildNodeRank t = node_rank t (getLeftChildIndex t)"

definition getRightChildNodeRank :: "job_tree \<Rightarrow> int res" where
  "getRightChildNodeRank t = node_rank t (getRightChildIndex t)"

definition isLeaf :: "job_tree \<Rightarrow> bool" where
  "isLeaf t \<longleftrightarrow> \<not> jt_has_left_child t \<and> \<not> jt_has_right_child t"

definition getParentNodeRank :: "job_tree \<Rightarrow> int res" where
  "getParentNodeRank t =
     (if isRoot t
      then (case jt_client_rank t of None \<Rightarrow> Inl Undefined_behaviour | Some r \<Rightarrow> Inr r)
      else node_rank t (getParentIndex t))"

section \<open>Nodes of the tree\<close>

definition updateJobNode :: "int \<Rightarrow> int \<Rightarrow> job_tree \<Rightarrow> job_tree res" where
  "updateJobNode index newRank t =
     res_bind (of_opt (perm_adjust (jt_job_node_ranks t) index newRank))
       (\<lambda>p. Inr (t\<lparr>jt_job_node_ranks := p\<rparr>))"

definition clearJobNodeUpdates :: "job_tree \<Rightarrow> job_tree" where
  "clearJobNodeUpdates t = t\<lparr>jt_job_node_ranks := perm_clear_all (jt_job_node_ranks t)\<rparr>"

definition updateParentNodeRank :: "int \<Rightarrow> job_tree \<Rightarrow> job_tree res" where
  "updateParentNodeRank newRank t =
     (if isRoot t then Inr (t\<lparr>jt_client_rank := Some newRank\<rparr>)
      else updateJobNode (getParentIndex t) newRank t)"

definition jt_update :: "int \<Rightarrow> int \<Rightarrow> int \<Rightarrow> job_tree \<Rightarrow> job_tree res" where
  "jt_update index rootRank parentRank t =
     (let t = t\<lparr>jt_index := index\<rparr>;
          rootRank = (if index = 0 \<or> rootRank < 0 then jt_rank t else rootRank)
      in res_bind (updateJobNode 0 rootRank t) (\<lambda>t.
         res_bind (updateJobNode (jt_index t) (jt_rank t) t)
           (updateParentNodeRank parentRank)))"

section \<open>Desires for children\<close>

definition setDesireLeft :: "rat \<Rightarrow> job_tree \<Rightarrow> job_tree" where
  "setDesireLeft time t =
     (if jt_time_of_desire_left t = -1
      then t\<lparr>jt_time_of_desire_left := time, jt_num_desires := jt_num_desires t + 1\<rparr> else t)"

definition setDesireRight :: "rat \<Rightarrow> job_tree \<Rightarrow> job_tree" where
  "setDesireRight time t =
     (if jt_time_of_desire_right t = -1
      then t\<lparr>jt_time_of_desire_right := time, jt_num_desires := jt_num_desires t + 1\<rparr> else t)"

definition unsetDesireLeft :: "job_tree \<Rightarrow> job_tree" where
  "unsetDesireLeft t = t\<lparr>jt_time_of_desire_left := -1\<rparr>"

definition unsetDesireRight :: "job_tree \<Rightarrow> job_tree" where
  "unsetDesireRight t = t\<lparr>jt_time_of_desire_right := -1\<rparr>"

definition record_latency :: "rat \<Rightarrow> job_tree \<Rightarrow> job_tree" where
  "record_latency elapsed t =
     t\<lparr>jt_num_fulfilled_desires := jt_num_fulfilled_desires t + 1,
       jt_sum_desire_latencies := round24 (jt_sum_desire_latencies t + elapsed),
       jt_desire_latencies := jt_desire_latencies t @ [elapsed]\<rparr>"

definition fulfilDesireLeft :: "rat \<Rightarrow> job_tree \<Rightarrow> job_tree" where
  "fulfilDesireLeft time t =
     (if jt_time_of_desire_left t = -1 then t
      else (record_latency (round24 (time - jt_time_of_desire_left t)) t)\<lparr>jt_time_of_desire_left := -1\<rparr>)"

definition fulfilDesireRight :: "rat \<Rightarrow> job_tree \<Rightarrow> job_tree" where
  "fulfilDesireRight time t =
     (if jt_time_of_desire_right t = -1 then t
      else (record_latency (round24 (time - jt_time_of_desire_right t)) t)\<lparr>jt_time_of_desire_right := -1\<rparr>)"

section \<open>Dormant children\<close>

text \<open>\<open>it--\<close> after erasing the first element steps before \<open>begin()\<close>, and the iterator may stand at
  \<open>end()\<close> when it is dereferenced: both are undefined.\<close>

fun index_of :: "int \<Rightarrow> int list \<Rightarrow> nat option" where
  "index_of x [] = None"
| "index_of x (y # ys) = (if y = x then Some 0 else map_option Suc (index_of x ys))"

definition removeDormantChild :: "int \<Rightarrow> job_tree \<Rightarrow> job_tree res" where
  "removeDormantChild rank t =
     (if jt_dormant_children t = [] then Inr t
      else if length (jt_dormant_children t) \<le> jt_it_dormant_children t then Inl Undefined_behaviour
      else if hd (jt_dormant_children t) = rank then Inl Undefined_behaviour
      else
        let currentRank = jt_dormant_children t ! jt_it_dormant_children t;
            children = filter (\<lambda>r. r \<noteq> rank) (jt_dormant_children t)
        in Inr (t\<lparr>jt_dormant_children := children,
                  jt_it_dormant_children :=
                    (case index_of currentRank children of None \<Rightarrow> 0 | Some i \<Rightarrow> i)\<rparr>))"

definition addDormantChild :: "int \<Rightarrow> job_tree \<Rightarrow> job_tree res" where
  "addDormantChild rank t =
     (if \<not> jt_use_dormant_children t then Inr t
      else res_bind (removeDormantChild rank t) (\<lambda>t.
        let i = jt_it_dormant_children t in
        Inr (t\<lparr>jt_dormant_children := take i (jt_dormant_children t) @ rank # drop i (jt_dormant_children t),
               jt_it_dormant_children := i + 1\<rparr>)))"

definition getRankOfNextDormantChild :: "job_tree \<Rightarrow> (int \<times> job_tree) res" where
  "getRankOfNextDormantChild t =
     (if jt_dormant_children t = [] then Inr (-1, t)
      else if length (jt_dormant_children t) \<le> jt_it_dormant_children t then Inl Undefined_behaviour
      else
        let i = jt_it_dormant_children t + 1 in
        Inr (jt_dormant_children t ! jt_it_dormant_children t,
             t\<lparr>jt_it_dormant_children := (if i = length (jt_dormant_children t) then 0 else i)\<rparr>))"

section \<open>Children\<close>

datatype tree_relative = LEFT_CHILD | RIGHT_CHILD | NONE

definition getJobRequestFor ::
    "int \<Rightarrow> tree_relative \<Rightarrow> int \<Rightarrow> application \<Rightarrow> float32 \<Rightarrow> job_tree \<Rightarrow> job_request res" where
  "getJobRequestFor jobId rel balancingEpoch app now t =
     res_bind (getRootNodeRank t) (\<lambda>root.
       Inr (JobRequest jobId app root (jt_rank t)
              (if rel = LEFT_CHILD then getLeftChildIndex t else getRightChildIndex t)
              now balancingEpoch 0))"

definition setLeftChild :: "rat \<Rightarrow> int \<Rightarrow> job_tree \<Rightarrow> job_tree res" where
  "setLeftChild now rank t =
     (let t = t\<lparr>jt_has_left_child := True\<rparr> in
      res_bind (updateJobNode (getLeftChildIndex t) rank t) (\<lambda>t. Inr (fulfilDesireLeft now t)))"

definition setRightChild :: "rat \<Rightarrow> int \<Rightarrow> job_tree \<Rightarrow> job_tree res" where
  "setRightChild now rank t =
     (let t = t\<lparr>jt_has_right_child := True\<rparr> in
      res_bind (updateJobNode (getRightChildIndex t) rank t) (\<lambda>t. Inr (fulfilDesireRight now t)))"

definition setChild :: "rat \<Rightarrow> int \<Rightarrow> int \<Rightarrow> job_tree \<Rightarrow> (tree_relative \<times> job_tree) res" where
  "setChild now rank index t =
     (if index = getLeftChildIndex t then res_bind (setLeftChild now rank t) (\<lambda>t. Inr (LEFT_CHILD, t))
      else if index = getRightChildIndex t then res_bind (setRightChild now rank t) (\<lambda>t. Inr (RIGHT_CHILD, t))
      else Inr (NONE, t))"

definition addSendHandle :: "int \<Rightarrow> int \<Rightarrow> job_tree \<Rightarrow> job_tree res" where
  "addSendHandle dest sendId t =
     res_bind (getLeftChildNodeRank t) (\<lambda>l.
       if dest = l then Inr (t\<lparr>jt_send_handles_left := jt_send_handles_left t @ [sendId]\<rparr>)
       else res_bind (getRightChildNodeRank t) (\<lambda>r.
         if dest = r then Inr (t\<lparr>jt_send_handles_right := jt_send_handles_right t @ [sendId]\<rparr>)
         else Inr t))"

definition clearSendHandle :: "int \<Rightarrow> job_tree \<Rightarrow> job_tree" where
  "clearSendHandle sendId t =
     (if sendId \<in> set (jt_send_handles_left t)
      then t\<lparr>jt_send_handles_left := remove1 sendId (jt_send_handles_left t)\<rparr>
      else t\<lparr>jt_send_handles_right := remove1 sendId (jt_send_handles_right t)\<rparr>)"

text \<open>The second component lists the sends that are cancelled.\<close>

definition unsetLeftChild :: "job_tree \<Rightarrow> (job_tree \<times> int list) res" where
  "unsetLeftChild t =
     (if \<not> jt_has_left_child t then Inr (t, [])
      else res_bind (getLeftChildNodeRank t) (\<lambda>rank.
        let t = t\<lparr>jt_past_children := insert rank (jt_past_children t)\<rparr> in
        res_bind (addDormantChild rank t) (\<lambda>t.
          Inr (t\<lparr>jt_has_left_child := False, jt_send_handles_left := [],
                 jt_job_node_ranks := perm_clear (jt_job_node_ranks t) (getLeftChildIndex t)\<rparr>,
               jt_send_handles_left t))))"

definition unsetRightChild :: "job_tree \<Rightarrow> (job_tree \<times> int list) res" where
  "unsetRightChild t =
     (if \<not> jt_has_right_child t then Inr (t, [])
      else res_bind (getRightChildNodeRank t) (\<lambda>rank.
        let t = t\<lparr>jt_past_children := insert rank (jt_past_children t)\<rparr> in
        res_bind (addDormantChild rank t) (\<lambda>t.
          Inr (t\<lparr>jt_has_right_child := False, jt_send_handles_right := [],
                 jt_job_node_ranks := perm_clear (jt_job_node_ranks t) (getRightChildIndex t)\<rparr>,
               jt_send_handles_right t))))"

definition prune_right :: "int \<Rightarrow> int \<Rightarrow> job_tree \<Rightarrow> (tree_relative \<times> job_tree \<times> int list) res" where
  "prune_right leavingRank leavingIndex t =
     (if jt_has_right_child t \<and> getRightChildIndex t = leavingIndex
      then res_bind (getRightChildNodeRank t) (\<lambda>r.
        if r = leavingRank then res_bind (unsetRightChild t) (\<lambda>p. Inr (RIGHT_CHILD, p))
        else Inr (NONE, t, []))
      else Inr (NONE, t, []))"

definition prune :: "int \<Rightarrow> int \<Rightarrow> job_tree \<Rightarrow> (tree_relative \<times> job_tree \<times> int list) res" where
  "prune leavingRank leavingIndex t =
     (if jt_has_left_child t \<and> getLeftChildIndex t = leavingIndex
      then res_bind (getLeftChildNodeRank t) (\<lambda>l.
        if l = leavingRank then res_bind (unsetLeftChild t) (\<lambda>p. Inr (LEFT_CHILD, p))
        else prune_right leavingRank leavingIndex t)
      else prune_right leavingRank leavingIndex t)"

section \<open>Ancestors and waiting\<close>

partial_function (option) ancestor_loop :: "int \<Rightarrow> int \<Rightarrow> int \<Rightarrow> int \<Rightarrow> bool option" where
  "ancestor_loop commSize index lower upper =
     (if lower < commSize
      then
        let lower = 2 * (lower + 1) - 1; upper = 2 * (upper + 1) in
        if lower \<le> index \<and> index \<le> upper then Some True
        else if index < lower then Some False
        else ancestor_loop commSize index lower upper
      else Some False)"

declare ancestor_loop.simps [code]

definition isTransitiveParentOf :: "job_tree \<Rightarrow> int \<Rightarrow> bool option" where
  "isTransitiveParentOf t index =
     (if index = jt_index t then Some True
      else ancestor_loop (jt_comm_size t) index (jt_index t) (jt_index t))"

definition setWaitingForReactivation :: "int \<Rightarrow> job_tree \<Rightarrow> job_tree" where
  "setWaitingForReactivation epoch t = t\<lparr>jt_wait_epoch := max (jt_wait_epoch t) epoch\<rparr>"

definition stopWaitingForReactivation :: "int \<Rightarrow> job_tree \<Rightarrow> job_tree" where
  "stopWaitingForReactivation epoch t = t\<lparr>jt_stop_wait_epoch := max (jt_stop_wait_epoch t) epoch\<rparr>"

definition isWaitingForReactivation :: "job_tree \<Rightarrow> bool" where
  "isWaitingForReactivation t \<longleftrightarrow> jt_wait_epoch t > jt_stop_wait_epoch t"

section \<open>The ancestor test\<close>

lemma ex_greater_split: "(\<exists>f > d. P f) \<longleftrightarrow> P (Suc d) \<or> (\<exists>f > Suc d. P f)"
  by (metis Suc_lessD Suc_lessI lessI)

lemma ancestor_loop_layers:
  assumes "0 \<le> r" "i < n"
  shows "ancestor_loop n i (layer_left d r) (layer_right d r) =
    Some (\<exists>f > d. layer_left f r \<le> i \<and> i \<le> layer_right f r)"
proof (induction "nat (n - layer_left d r)" arbitrary: d rule: less_induct)
  case less
  have later: "i < layer_left (Suc d) r \<Longrightarrow> \<not> (\<exists>f > d. layer_left f r \<le> i \<and> i \<le> layer_right f r)"
    by (metis Suc_leI assms(1) layer_left_mono not_less order_trans)
  show ?case
  proof (cases "layer_left d r < n")
    case False
    have "i < layer_left (Suc d) r"
      using False assms(2) layer_left_mono [OF assms(1), of d "Suc d"] by linarith
    then show ?thesis using False later by (subst ancestor_loop.simps) simp
  next
    case True
    have step: "ancestor_loop n i (layer_left d r) (layer_right d r) =
        (if layer_left (Suc d) r \<le> i \<and> i \<le> layer_right (Suc d) r then Some True
         else if i < layer_left (Suc d) r then Some False
         else ancestor_loop n i (layer_left (Suc d) r) (layer_right (Suc d) r))"
      using True by (subst ancestor_loop.simps) (simp add: Let_def algebra_simps)
    have "nat (n - layer_left (Suc d) r) < nat (n - layer_left d r)"
      using True layer_nonneg [OF assms(1), of d] by simp
    note IH = less [OF this]
    have split: "(\<exists>f > d. layer_left f r \<le> i \<and> i \<le> layer_right f r) \<longleftrightarrow>
        (layer_left (Suc d) r \<le> i \<and> i \<le> layer_right (Suc d) r)
        \<or> (\<exists>f > Suc d. layer_left f r \<le> i \<and> i \<le> layer_right f r)"
      by (rule ex_greater_split)
    show ?thesis
    proof (cases "layer_left (Suc d) r \<le> i \<and> i \<le> layer_right (Suc d) r")
      case True
      then show ?thesis unfolding step split by (simp only: if_True simp_thms)
    next
      case False
      show ?thesis
      proof (cases "i < layer_left (Suc d) r")
        case True
        then show ?thesis unfolding step using False later [OF True] by (simp only: if_False if_True)
      next
        case low: False
        show ?thesis unfolding step split IH using False low by (simp only: if_False simp_thms)
      qed
    qed
  qed
qed

text \<open>
  Property (C26): for every node index of the job tree the test whether this node is a transitive parent
  terminates and agrees with the ancestor relation of the binary tree (the relation that also scopes
  the lists of inactive nodes).
\<close>
theorem isTransitiveParentOf_is_ancestor:
  assumes "0 \<le> jt_index t" "index < jt_comm_size t"
  shows "isTransitiveParentOf t index = Some (in_subtree (jt_index t) index)"
proof -
  have "in_subtree (jt_index t) (jt_index t)" by (simp add: in_subtree.simps)
  then show ?thesis
    using ancestor_loop_layers [OF assms, of 0] subtree_index_layer [OF assms(1), of True index]
    by (auto simp: isTransitiveParentOf_def subtree_index_def Suc_le_eq)
qed

theorem isTransitiveParentOf_is_ancestor_witness:
  "isTransitiveParentOf ((JobTree (\<lambda>_ _ xs. xs) 20 3 5 False)\<lparr>jt_index := 1\<rparr>) 9 = Some True"
  using isTransitiveParentOf_is_ancestor [of "(JobTree (\<lambda>_ _ xs. xs) 20 3 5 False)\<lparr>jt_index := 1\<rparr>" 9]
  by (simp add: JobTree_def in_subtree.simps)

section \<open>Bookkeeping of children\<close>

definition pending :: "job_tree \<Rightarrow> nat" where
  "pending t = of_bool (jt_time_of_desire_left t \<noteq> -1) + of_bool (jt_time_of_desire_right t \<noteq> -1)"

text \<open>Well-formed trees: valid permutation, and every desire is counted once until it is fulfilled.\<close>

definition jt_inv :: "job_tree \<Rightarrow> bool" where
  "jt_inv t \<longleftrightarrow> perm_ok (jt_job_node_ranks t) \<and> perm_plain (jt_job_node_ranks t)
     \<and> ap_n (jt_job_node_ranks t) = jt_comm_size t \<and> 0 < jt_comm_size t
     \<and> jt_num_fulfilled_desires t + pending t \<le> jt_num_desires t
     \<and> length (jt_desire_latencies t) = jt_num_fulfilled_desires t"

lemma jt_inv_init:
  "0 < n \<Longrightarrow> (\<And>s f xs. mset (shuffle s f xs) = mset xs) \<Longrightarrow> jt_inv (JobTree shuffle n rank seed dormant)"
  using AdjustablePermutation_ok [of n shuffle seed]
  by (simp add: jt_inv_def JobTree_def pending_def AdjustablePermutation_def)

lemma node_rank_eq: "jt_inv t \<Longrightarrow> node_rank t i = Inr (perm_fun (jt_job_node_ranks t) i)"
  by (simp add: node_rank_def jt_inv_def perm_get_eq)

lemma updateJobNode_spec:
  assumes "jt_inv t"
  obtains p where "updateJobNode i r t = Inr (t\<lparr>jt_job_node_ranks := p\<rparr>)" "jt_inv (t\<lparr>jt_job_node_ranks := p\<rparr>)"
    "\<And>j. perm_fun p j = (if j mod jt_comm_size t = i mod jt_comm_size t then r
                          else perm_fun (jt_job_node_ranks t) j)"
proof -
  have ok: "perm_ok (jt_job_node_ranks t)" "perm_plain (jt_job_node_ranks t)"
    "ap_n (jt_job_node_ranks t) = jt_comm_size t" using assms by (auto simp: jt_inv_def)
  obtain p where p: "perm_adjust (jt_job_node_ranks t) i r = Some p" "perm_ok p" "perm_plain p"
    "ap_n p = jt_comm_size t" "\<And>j. perm_fun p j = (if j mod jt_comm_size t = i mod jt_comm_size t then r
                          else perm_fun (jt_job_node_ranks t) j)"
    using perm_adjust_spec [OF ok(1,2), of i r] ok(3) by metis
  then have "jt_inv (t\<lparr>jt_job_node_ranks := p\<rparr>)" using assms by (simp add: jt_inv_def pending_def)
  then show ?thesis using that p by (simp add: updateJobNode_def)
qed

lemma fulfil_inv: "jt_inv t \<Longrightarrow> jt_inv (fulfilDesireLeft now t)" "jt_inv t \<Longrightarrow> jt_inv (fulfilDesireRight now t)"
  by (auto simp: jt_inv_def fulfilDesireLeft_def fulfilDesireRight_def record_latency_def pending_def)

lemma fulfil_fields [simp]:
  "jt_job_node_ranks (fulfilDesireLeft now t) = jt_job_node_ranks t"
  "jt_job_node_ranks (fulfilDesireRight now t) = jt_job_node_ranks t"
  "jt_index (fulfilDesireLeft now t) = jt_index t" "jt_index (fulfilDesireRight now t) = jt_index t"
  "jt_has_left_child (fulfilDesireLeft now t) = jt_has_left_child t"
  "jt_has_right_child (fulfilDesireRight now t) = jt_has_right_child t"
  "jt_send_handles_left (fulfilDesireLeft now t) = jt_send_handles_left t"
  "jt_send_handles_right (fulfilDesireRight now t) = jt_send_handles_right t"
  "jt_use_dormant_children (fulfilDesireLeft now t) = jt_use_dormant_children t"
  "jt_use_dormant_children (fulfilDesireRight now t) = jt_use_dormant_children t"
  by (simp_all add: fulfilDesireLeft_def fulfilDesireRight_def record_latency_def)

lemma clear_inv: "jt_inv t \<Longrightarrow> jt_inv (t\<lparr>jt_job_node_ranks := perm_clear (jt_job_node_ranks t) i\<rparr>)"
  by (simp add: jt_inv_def pending_def perm_clear_def)

text \<open>The fields that count for the invariant.\<close>

lemma jt_inv_frame:
  "jt_inv t \<Longrightarrow> jt_job_node_ranks t' = jt_job_node_ranks t \<Longrightarrow> jt_comm_size t' = jt_comm_size t \<Longrightarrow>
     jt_num_fulfilled_desires t' = jt_num_fulfilled_desires t \<Longrightarrow> jt_num_desires t' = jt_num_desires t \<Longrightarrow>
     jt_time_of_desire_left t' = jt_time_of_desire_left t \<Longrightarrow>
     jt_time_of_desire_right t' = jt_time_of_desire_right t \<Longrightarrow>
     jt_desire_latencies t' = jt_desire_latencies t \<Longrightarrow> jt_inv t'"
  by (simp add: jt_inv_def pending_def)



text \<open>
  Property (C28): the iterator over the dormant children is broken from the start. After the first
  dormant child has been added to a fresh tree the iterator stands at the end of the list, so that
  asking for the next dormant child, or adding another one, dereferences the end iterator.
\<close>
theorem dormant_iterator_undefined:
  "\<exists>t'. addDormantChild rank (JobTree shuffle n r seed True) = Inr t'
    \<and> getRankOfNextDormantChild t' = Inl Undefined_behaviour
    \<and> addDormantChild rank' t' = Inl Undefined_behaviour"
  by (simp add: addDormantChild_def removeDormantChild_def getRankOfNextDormantChild_def JobTree_def)

end
