(* ===== verification/Job_Comm.thy ===== *)
theory Job_Comm
  imports Job_Tree "HOL-Library.Multiset"
begin

text \<open>
  The communicator of a job (class \<open>JobComm\<close> in src/src/comm/job_comm.hpp): the nodes of a job tree
  aggregate the list of their ranks from the leaves to the root, which broadcasts the complete list. The
  job tree the object refers to and the current time are arguments, sent messages are output lists of
  destinations and messages. Locks are left out, as every operation holds the lock for its whole access.
\<close>

section \<open>State\<close>

record job_comm =
  jc_id :: int
  jc_ranklist :: "int list"
  jc_world_to_int_rank :: "int \<rightharpoonup> int"
  jc_next_ranklist :: "int list"
  jc_aggregate_ranklist :: bool
  jc_num_ranklist_contribs :: int
  jc_time_of_last_ranklist_agg :: rat
  jc_ranklist_agg_period :: rat

type_synonym jc_out = "(int \<times> job_message) list"

definition MSG_AGGREGATE_RANKLIST :: int where
  "MSG_AGGREGATE_RANKLIST = 420"

definition MSG_BROADCAST_RANKLIST :: int where
  "MSG_BROADCAST_RANKLIST = 421"

definition JobComm :: "int \<Rightarrow> rat \<Rightarrow> job_comm" where
  "JobComm i updatePeriod =
     \<lparr>jc_id = i, jc_ranklist = [], jc_world_to_int_rank = Map.empty, jc_next_ranklist = [],
      jc_aggregate_ranklist = False, jc_num_ranklist_contribs = 0, jc_time_of_last_ranklist_agg = 0,
      jc_ranklist_agg_period = updatePeriod\<rparr>"

text \<open>A negative rank becomes a \<open>size_t\<close> beyond the size of any vector.\<close>

definition getWorldRankOrMinusOne :: "int \<Rightarrow> job_comm \<Rightarrow> int" where
  "getWorldRankOrMinusOne intRank c =
     (if 0 \<le> intRank \<and> nat intRank < length (jc_ranklist c) then jc_ranklist c ! nat intRank else -1)"

definition jc_size :: "job_comm \<Rightarrow> nat" where
  "jc_size c = length (jc_ranklist c)"

definition getInternalRankOrMinusOne :: "int \<Rightarrow> job_comm \<Rightarrow> int" where
  "getInternalRankOrMinusOne worldRank c =
     (case jc_world_to_int_rank c worldRank of Some i \<Rightarrow> i | None \<Rightarrow> -1)"

section \<open>Operations\<close>

fun map_loop :: "nat \<Rightarrow> int list \<Rightarrow> (int \<rightharpoonup> int) \<Rightarrow> (int \<rightharpoonup> int)" where
  "map_loop i [] w = w"
| "map_loop i (r # rs) w = map_loop (Suc i) rs (w(r \<mapsto> int i))"

definition updateMap :: "job_comm \<Rightarrow> job_comm" where
  "updateMap c = c\<lparr>jc_world_to_int_rank := map_loop 0 (jc_ranklist c) Map.empty\<rparr>"

definition wantsToAggregate :: "rat \<Rightarrow> job_tree \<Rightarrow> job_comm \<Rightarrow> bool \<times> job_comm" where
  "wantsToAggregate now t c =
     (if jc_ranklist_agg_period c \<le> 0 then (False, c)
      else if isLeaf t \<and> round24 (now - jc_time_of_last_ranklist_agg c) \<ge> jc_ranklist_agg_period c
      then (True, c\<lparr>jc_aggregate_ranklist := True\<rparr>)
      else (False, c))"

text \<open>The revision of the new message is not initialized; it is an arbitrary argument.\<close>

definition beginAggregation :: "rat \<Rightarrow> int \<Rightarrow> job_tree \<Rightarrow> job_comm \<Rightarrow> (job_comm \<times> jc_out) res" where
  "beginAggregation now revision t c =
     res_bind
       (if jt_index t = 0 then Inr (updateMap (c\<lparr>jc_ranklist := [jt_rank t]\<rparr>), [])
        else if jt_index t < 0 then Inl Undefined_behaviour
        else
          let msg = \<lparr>msg_jobId = jc_id c, msg_revision = revision, msg_tag = MSG_AGGREGATE_RANKLIST,
                     msg_epoch = 0, msg_checksum = Checksum_init,
                     msg_payload = (replicate (nat (jt_index t + 1)) (-1))[nat (jt_index t) := jt_rank t]\<rparr>
          in res_bind (getParentNodeRank t) (\<lambda>dest. Inr (c, [(dest, msg)])))
       (\<lambda>(c, out). Inr (c\<lparr>jc_time_of_last_ranklist_agg := now, jc_aggregate_ranklist := False\<rparr>, out))"

fun merge_ranklist :: "nat \<Rightarrow> int list \<Rightarrow> int list \<Rightarrow> int list" where
  "merge_ranklist i [] next_ranklist = next_ranklist"
| "merge_ranklist i (r # ranklist) next_ranklist =
     (let next_ranklist = (if length next_ranklist = i then next_ranklist @ [-1] else next_ranklist)
      in merge_ranklist (Suc i) ranklist (if r \<noteq> -1 then next_ranklist[i := r] else next_ranklist))"

definition contributed :: "int \<Rightarrow> int list \<Rightarrow> bool" where
  "contributed index xs \<longleftrightarrow> 0 \<le> index \<and> nat index < length xs \<and> xs ! nat index \<noteq> -1"

definition readyToForward :: "job_tree \<Rightarrow> job_comm \<Rightarrow> bool" where
  "readyToForward t c \<longleftrightarrow>
     (if jt_has_left_child t then 1 else 0) + (if jt_has_right_child t then 1 else 0) \<le> jc_num_ranklist_contribs c
     \<and> (jt_has_left_child t \<longrightarrow> contributed (getLeftChildIndex t) (jc_next_ranklist c))
     \<and> (jt_has_right_child t \<longrightarrow> contributed (getRightChildIndex t) (jc_next_ranklist c))"

definition send_if :: "bool \<Rightarrow> int res \<Rightarrow> job_message \<Rightarrow> jc_out res" where
  "send_if has rank msg = (if has then res_bind rank (\<lambda>dest. Inr [(dest, msg)]) else Inr [])"

definition send_to_children :: "job_tree \<Rightarrow> job_message \<Rightarrow> jc_out res" where
  "send_to_children t msg =
     res_bind (send_if (jt_has_left_child t) (getLeftChildNodeRank t) msg) (\<lambda>l.
     res_bind (send_if (jt_has_right_child t) (getRightChildNodeRank t) msg) (\<lambda>r. Inr (l @ r)))"

definition handle_aggregate ::
    "job_tree \<Rightarrow> job_message \<Rightarrow> job_comm \<Rightarrow> (job_message \<times> job_comm \<times> jc_out) res" where
  "handle_aggregate t msg c =
     (let c = c\<lparr>jc_next_ranklist := merge_ranklist 0 (msg_payload msg) (jc_next_ranklist c),
                jc_num_ranklist_contribs := jc_num_ranklist_contribs c + 1\<rparr>
      in if \<not> readyToForward t c then Inr (msg, c, [])
         else
           let myIndex = jt_index t in
           if \<not> (0 \<le> myIndex \<and> nat myIndex < length (jc_next_ranklist c)) then Inl Undefined_behaviour
           else
             let c = c\<lparr>jc_next_ranklist := (jc_next_ranklist c)[nat myIndex := jt_rank t]\<rparr>;
                 msg = msg\<lparr>msg_payload := jc_next_ranklist c\<rparr>
             in res_bind
                  (if myIndex = 0
                   then let c = updateMap (c\<lparr>jc_ranklist := jc_next_ranklist c\<rparr>);
                            msg = msg\<lparr>msg_tag := MSG_BROADCAST_RANKLIST\<rparr>
                        in res_bind (send_to_children t msg) (\<lambda>out. Inr (msg, c, out))
                   else res_bind (getParentNodeRank t) (\<lambda>dest. Inr (msg, c, [(dest, msg)])))
                  (\<lambda>(msg, c, out).
                     Inr (msg, c\<lparr>jc_num_ranklist_contribs := 0, jc_next_ranklist := []\<rparr>, out)))"

definition jc_handle ::
    "job_tree \<Rightarrow> job_message \<Rightarrow> job_comm \<Rightarrow> (bool \<times> job_message \<times> job_comm \<times> jc_out) res" where
  "jc_handle t msg c =
     (if msg_tag msg = MSG_AGGREGATE_RANKLIST
      then res_bind (handle_aggregate t msg c) (\<lambda>(msg, c, out). Inr (True, msg, c, out))
      else if msg_tag msg = MSG_BROADCAST_RANKLIST
      then res_bind (send_to_children t msg) (\<lambda>out.
             Inr (True, msg, updateMap (c\<lparr>jc_ranklist := msg_payload msg\<rparr>), out))
      else Inr (False, msg, c, []))"

section \<open>Rank lists of subtrees\<close>

text \<open>The list \<open>p\<close> holds exactly the ranks of the tree nodes in \<open>S\<close> and no trailing gap.\<close>

definition holds_ranks :: "(nat \<Rightarrow> int) \<Rightarrow> nat set \<Rightarrow> int list \<Rightarrow> bool" where
  "holds_ranks f S p \<longleftrightarrow>
     (\<forall>j. j \<in> S \<longleftrightarrow> j < length p \<and> p ! j \<noteq> -1) \<and> (\<forall>j \<in> S. p ! j = f j) \<and> (p = [] \<or> last p \<noteq> -1)"

definition subtree :: "nat \<Rightarrow> nat \<Rightarrow> nat set" where
  "subtree v i = {j. j < v \<and> in_subtree (int i) (int j)}"

lemma in_subtree_ge: "in_subtree k j \<Longrightarrow> k \<le> j"
proof (induction k j rule: in_subtree.induct)
  case (1 k j)
  then show ?case by (subst (asm) in_subtree.simps) (auto split: if_splits)
qed

lemma in_subtree_children:
  "0 \<le> i \<Longrightarrow> 0 \<le> j \<Longrightarrow>
     in_subtree i j \<longleftrightarrow> j = i \<or> in_subtree (2 * i + 1) j \<or> in_subtree (2 * i + 2) j"
proof (induction i j rule: in_subtree.induct)
  case (1 i j)
  show ?case
  proof (cases "j \<le> i \<or> j \<le> 0")
    case True
    with 1(2,3) show ?thesis
      using in_subtree_ge [of "2 * i + 1" j] in_subtree_ge [of "2 * i + 2" j]
      by (subst in_subtree.simps) auto
  next
    case False
    let ?h = "(j - 1) div 2"
    have IH: "in_subtree i j \<longleftrightarrow> ?h = i \<or> in_subtree (2 * i + 1) ?h \<or> in_subtree (2 * i + 2) ?h"
      using 1 False by (subst in_subtree.simps) simp
    have h: "?h = i \<longleftrightarrow> j = 2 * i + 1 \<or> j = 2 * i + 2" "?h \<le> j" using False by presburger+
    have step: "in_subtree k j \<longleftrightarrow> (if j \<le> k then j = k else in_subtree k ?h)" for k
      using False 1(2) by (subst in_subtree.simps) auto
    have none: "\<not> in_subtree k ?h" if "j \<le> k" for k
      using in_subtree_ge [of k ?h] that False 1(2) by auto
    show ?thesis using IH h step [of "2 * i + 1"] step [of "2 * i + 2"] none [of "2 * i + 1"] none [of "2 * i + 2"] False
      by (auto split: if_splits)
  qed
qed

lemma subtree_step: "i < v \<Longrightarrow> subtree v i = insert i (subtree v (2 * i + 1) \<union> subtree v (2 * i + 2))"
  using in_subtree_children [of "int i"] by (auto simp: subtree_def algebra_simps)

lemma subtree_out: "v \<le> i \<Longrightarrow> subtree v i = {}"
  using in_subtree_ge [of "int i"] by (fastforce simp: subtree_def)

lemma subtree_root: "subtree v 0 = {..<v}"
proof -
  have "in_subtree 0 j" if "0 \<le> j" for j
    using that by (induction "0::int" j rule: in_subtree.induct) (subst in_subtree.simps, auto)
  then show ?thesis by (auto simp: subtree_def)
qed

lemma subtree_member: "i < v \<Longrightarrow> i \<in> subtree v i" "j \<in> subtree v i \<Longrightarrow> i \<le> j \<and> j < v"
  using in_subtree_ge [of "int i" "int j"] by (auto simp: subtree_def in_subtree.simps [of "int i" "int i"])

lemma merge_ranklist_spec:
  assumes "i \<le> length nxt"
  shows "length (merge_ranklist i xs nxt) = max (length nxt) (i + length xs)"
    and "j < max (length nxt) (i + length xs) \<Longrightarrow>
      merge_ranklist i xs nxt ! j =
        (if i \<le> j \<and> j < i + length xs \<and> xs ! (j - i) \<noteq> -1 then xs ! (j - i)
         else if j < length nxt then nxt ! j else -1)"
  using assms
proof (induction xs arbitrary: i nxt)
  case (Cons x xs)
  define grown where "grown i nxt = (if length nxt = i then nxt @ [-1] else nxt)" for i and nxt :: "int list"
  define put where "put i nxt = (if x \<noteq> -1 then (grown i nxt)[i := x] else grown i nxt)" for i nxt
  have len: "Suc i \<le> length (put i nxt)" "length (put i nxt) = max (length nxt) (Suc i)"
    if "i \<le> length nxt" for i nxt
    using that by (auto simp: put_def grown_def)
  have step: "merge_ranklist i (x # xs) nxt = merge_ranklist (Suc i) xs (put i nxt)" for i nxt
    by (simp only: merge_ranklist.simps Let_def put_def grown_def)
  have nth: "put i nxt ! j = (if j = i \<and> x \<noteq> -1 then x else if j < length nxt then nxt ! j else -1)"
    if "i \<le> length nxt" "j < length (put i nxt)" for i nxt j
    using that by (auto simp: put_def grown_def nth_append nth_list_update less_Suc_eq split: if_splits)
  { case (1 i nxt)
    then show ?case using Cons.IH(1) [OF len(1)] len(2) step by simp }
  { case (2 i nxt)
    let ?p = "put i nxt"
    note len = len [OF 2(2)]
    have "merge_ranklist i (x # xs) nxt ! j =
        (if Suc i \<le> j \<and> j < Suc i + length xs \<and> xs ! (j - Suc i) \<noteq> -1 then xs ! (j - Suc i)
         else if j < length ?p then ?p ! j else -1)"
      unfolding step by (rule Cons.IH(2) [OF _ len(1)]) (use 2(1) len(2) in simp)
    also have "\<dots> = (if i \<le> j \<and> j < i + length (x # xs) \<and> (x # xs) ! (j - i) \<noteq> -1 then (x # xs) ! (j - i)
         else if j < length nxt then nxt ! j else -1)"
    proof (cases "j = i")
      case False
      then have "(x # xs) ! (j - i) = xs ! (j - Suc i)" if "i \<le> j"
        using that by (cases "j - i") (auto simp: Suc_diff_Suc [symmetric] simp flip: diff_Suc_1')
      with False show ?thesis using nth [OF 2(2), of j] len(2) by auto
    qed (use nth [OF 2(2), of j] len(2) in auto)
    finally show ?case . }
qed simp_all

lemma holds_ranks_Nil [simp]: "holds_ranks f {} []"
  by (simp add: holds_ranks_def)

lemma holds_ranks_D:
  assumes "holds_ranks f S p"
  shows "j \<in> S \<longleftrightarrow> j < length p \<and> p ! j \<noteq> -1" "j \<in> S \<Longrightarrow> p ! j = f j" "p \<noteq> [] \<Longrightarrow> length p - 1 \<in> S"
proof -
  show mem: "j \<in> S \<longleftrightarrow> j < length p \<and> p ! j \<noteq> -1" for j
    using assms unfolding holds_ranks_def by blast
  show "j \<in> S \<Longrightarrow> p ! j = f j"
    using assms unfolding holds_ranks_def by blast
  show "length p - 1 \<in> S" if "p \<noteq> []"
  proof -
    have "last p \<noteq> -1" using assms that unfolding holds_ranks_def by blast
    with that show ?thesis unfolding mem by (simp add: last_conv_nth)
  qed
qed

lemma holds_ranksI:
  assumes "\<And>j. j \<in> S \<longleftrightarrow> j < length p \<and> p ! j \<noteq> -1" "\<And>j. j \<in> S \<Longrightarrow> p ! j = f j"
    and "p \<noteq> [] \<Longrightarrow> length p - 1 \<in> S"
  shows "holds_ranks f S p"
  using assms by (auto simp: holds_ranks_def last_conv_nth)

lemma holds_ranks_merge:
  assumes "holds_ranks f A nxt" "holds_ranks f B xs"
  shows "holds_ranks f (A \<union> B) (merge_ranklist 0 xs nxt)"
proof -
  let ?m = "merge_ranklist 0 xs nxt"
  note A = holds_ranks_D [OF assms(1)] and B = holds_ranks_D [OF assms(2)]
  have len: "length ?m = max (length nxt) (length xs)"
    using merge_ranklist_spec(1) [of 0 nxt xs] by simp
  have nth: "?m ! j = (if j \<in> B then xs ! j else if j < length nxt then nxt ! j else -1)"
    if "j < length ?m" for j
    using merge_ranklist_spec(2) [of 0 nxt j xs] that by (simp add: len B(1))
  show ?thesis
  proof (rule holds_ranksI)
    show "j \<in> A \<union> B \<longleftrightarrow> j < length ?m \<and> ?m ! j \<noteq> -1" for j
      using nth [of j] A(1) [of j] B(1) [of j] by (cases "j < length ?m") (auto simp: len)
    show "?m ! j = f j" if "j \<in> A \<union> B" for j
    proof -
      have "j < length ?m" using that A(1) [of j] B(1) [of j] by (auto simp: len)
      with nth [of j] A(1,2) [of j] B(2) [of j] that show ?thesis by (cases "j \<in> B") auto
    qed
    show "length ?m - 1 \<in> A \<union> B" if "?m \<noteq> []"
    proof (cases "length nxt \<le> length xs")
      case True
      then have "length ?m = length xs" "xs \<noteq> []" using that len by auto
      with B(3) show ?thesis by simp
    next
      case False
      then have "length ?m = length nxt" "nxt \<noteq> []" using that len by auto
      with A(3) show ?thesis by simp
    qed
  qed
qed

lemma holds_ranks_put:
  assumes "holds_ranks f S p" "i < length p" "f i \<noteq> -1"
  shows "holds_ranks f (insert i S) (p[i := f i])"
proof (rule holds_ranksI)
  note D = holds_ranks_D [OF assms(1)]
  show "j \<in> insert i S \<longleftrightarrow> j < length (p[i := f i]) \<and> p[i := f i] ! j \<noteq> -1" for j
    using D(1) [of j] assms(2,3) by (cases "j = i") auto
  show "p[i := f i] ! j = f j" if "j \<in> insert i S" for j
    using that D(2) [of j] assms(2) by (cases "j = i") auto
  show "length (p[i := f i]) - 1 \<in> insert i S" if "p[i := f i] \<noteq> []"
    using that D(3) by auto
qed

lemma holds_ranks_single: "f i \<noteq> -1 \<Longrightarrow> holds_ranks f {i} ((replicate (i + 1) (-1))[i := f i])"
  by (rule holds_ranksI) (auto simp del: replicate_Suc replicate.simps simp: nth_list_update split: if_splits)

lemma holds_ranks_all: "holds_ranks f {..<v} p \<Longrightarrow> p = map f [0..<v]"
proof -
  assume h: "holds_ranks f {..<v} p"
  note D = holds_ranks_D [OF h]
  have "length p = v"
  proof (rule antisym)
    show "length p \<le> v" using D(3) by (cases "p = []") auto
    show "v \<le> length p" using D(1) [of "v - 1"] by (cases v) auto
  qed
  with D(2) show ?thesis by (auto intro: nth_equalityI)
qed

section \<open>All nodes of a tree\<close>

text \<open>What the nodes of a job tree with \<open>v\<close> nodes know of it: node \<open>i\<close> has rank \<open>f i\<close> and knows its
  parent and its children.\<close>

definition tree_views :: "(nat \<Rightarrow> int) \<Rightarrow> nat \<Rightarrow> (nat \<Rightarrow> job_tree) \<Rightarrow> bool" where
  "tree_views f v T \<longleftrightarrow>
     0 < v \<and> inj_on f {..<v} \<and> (\<forall>i < v. 0 \<le> f i)
     \<and> (\<forall>i < v. jt_index (T i) = int i \<and> jt_rank (T i) = f i
          \<and> jt_has_left_child (T i) = (2 * i + 1 < v) \<and> jt_has_right_child (T i) = (2 * i + 2 < v)
          \<and> (2 * i + 1 < v \<longrightarrow> getLeftChildNodeRank (T i) = Inr (f (2 * i + 1)))
          \<and> (2 * i + 2 < v \<longrightarrow> getRightChildNodeRank (T i) = Inr (f (2 * i + 2)))
          \<and> (0 < i \<longrightarrow> getParentNodeRank (T i) = Inr (f ((i - 1) div 2))))"

text \<open>The state of a node while lists are collected: contributions of some, but not all, of its children.\<close>

definition partial_ranks :: "nat \<Rightarrow> nat \<Rightarrow> bool \<Rightarrow> bool \<Rightarrow> nat set" where
  "partial_ranks v i l r =
     (if l then subtree v (2 * i + 1) else {}) \<union> (if r then subtree v (2 * i + 2) else {})"

definition collected :: "(nat \<Rightarrow> int) \<Rightarrow> nat \<Rightarrow> nat \<Rightarrow> bool \<Rightarrow> bool \<Rightarrow> job_comm \<Rightarrow> bool" where
  "collected f v i l r c \<longleftrightarrow>
     (l \<longrightarrow> 2 * i + 1 < v) \<and> (r \<longrightarrow> 2 * i + 2 < v) \<and> of_bool l + of_bool r \<le> jc_num_ranklist_contribs c
     \<and> holds_ranks f (partial_ranks v i l r) (jc_next_ranklist c)"

definition stored_ok :: "(nat \<Rightarrow> int) \<Rightarrow> nat \<Rightarrow> job_comm \<Rightarrow> bool" where
  "stored_ok f v c \<longleftrightarrow>
     jc_ranklist c \<in> {[], map f [0..<v]} \<and> jc_world_to_int_rank c = map_loop 0 (jc_ranklist c) Map.empty"

definition comm_ok :: "(nat \<Rightarrow> int) \<Rightarrow> nat \<Rightarrow> nat \<Rightarrow> job_comm \<Rightarrow> bool" where
  "comm_ok f v i c \<longleftrightarrow>
     stored_ok f v c
     \<and> (\<exists>l r. collected f v i l r c \<and> (\<not> l \<and> \<not> r \<or> 2 * i + 1 < v \<and> \<not> l \<or> 2 * i + 2 < v \<and> \<not> r))"

definition comm_msg_ok :: "(nat \<Rightarrow> int) \<Rightarrow> nat \<Rightarrow> int \<times> job_message \<Rightarrow> bool" where
  "comm_msg_ok f v = (\<lambda>(dest, msg). \<exists>k. 0 < k \<and> k < v \<and>
     (msg_tag msg = MSG_AGGREGATE_RANKLIST \<and> dest = f ((k - 1) div 2) \<and> holds_ranks f (subtree v k) (msg_payload msg)
      \<or> msg_tag msg = MSG_BROADCAST_RANKLIST \<and> dest = f k \<and> msg_payload msg = map f [0..<v]))"

lemma subtree_siblings:
  "2 * i + 2 \<notin> subtree v (2 * i + 1)" "2 * i + 1 \<notin> subtree v (2 * i + 2)" "i \<notin> partial_ranks v i l r"
proof -
  have "\<not> in_subtree (2 * int i + 1) (2 * int i + 2)"
    by (subst in_subtree.simps) (simp add: in_subtree.simps)
  then show "2 * i + 2 \<notin> subtree v (2 * i + 1)" by (simp add: subtree_def algebra_simps)
  show "2 * i + 1 \<notin> subtree v (2 * i + 2)" "i \<notin> partial_ranks v i l r"
    by (auto simp: partial_ranks_def dest!: subtree_member(2))
qed

lemma contributed_iff:
  assumes "holds_ranks f S p"
  shows "contributed (int k) p \<longleftrightarrow> k \<in> S"
  using holds_ranks_D(1) [OF assms, of k] by (simp add: contributed_def)

lemma ready_iff:
  assumes "tree_views f v T" "i < v" "collected f v i l r c"
  shows "readyToForward (T i) c \<longleftrightarrow> (2 * i + 1 < v \<longrightarrow> l) \<and> (2 * i + 2 < v \<longrightarrow> r)"
proof -
  have T: "jt_has_left_child (T i) = (2 * i + 1 < v)" "jt_has_right_child (T i) = (2 * i + 2 < v)"
    and idx: "getLeftChildIndex (T i) = int (2 * i + 1)" "getRightChildIndex (T i) = int (2 * i + 2)"
    using assms(1,2) by (auto simp: tree_views_def getLeftChildIndex_def getRightChildIndex_def)
  have h: "holds_ranks f (partial_ranks v i l r) (jc_next_ranklist c)"
    and n: "of_bool l + of_bool r \<le> jc_num_ranklist_contribs c"
    using assms(3) by (auto simp: collected_def)
  have "2 * i + 1 \<in> partial_ranks v i l r \<longleftrightarrow> l" if "2 * i + 1 < v"
    using that subtree_siblings subtree_member(1) [OF that] by (auto simp: partial_ranks_def)
  moreover have "2 * i + 2 \<in> partial_ranks v i l r \<longleftrightarrow> r" if "2 * i + 2 < v"
    using that subtree_siblings subtree_member(1) [OF that] by (auto simp: partial_ranks_def)
  ultimately show ?thesis
    unfolding readyToForward_def T idx contributed_iff [OF h] using n by (cases l; cases r) auto
qed

lemma collected_merge:
  assumes "collected f v i l r c" "holds_ranks f (subtree v k) p" "k < v"
    and "k = 2 * i + 1 \<and> l' = True \<and> r' = r \<or> k = 2 * i + 2 \<and> l' = l \<and> r' = True"
  shows "collected f v i l' r' (c\<lparr>jc_next_ranklist := merge_ranklist 0 p (jc_next_ranklist c),
            jc_num_ranklist_contribs := jc_num_ranklist_contribs c + 1\<rparr>)"
proof -
  have "partial_ranks v i l' r' = partial_ranks v i l r \<union> subtree v k"
    using assms(4) by (auto simp: partial_ranks_def)
  with holds_ranks_merge [OF _ assms(2), of "partial_ranks v i l r"] assms show ?thesis
    by (cases l; cases r) (auto simp: collected_def)
qed

lemma send_to_children_ok:
  assumes "tree_views f v T" "i < v" "msg_tag msg = MSG_BROADCAST_RANKLIST" "msg_payload msg = map f [0..<v]"
  shows "\<exists>out. send_to_children (T i) msg = Inr out \<and> (\<forall>m \<in> set out. comm_msg_ok f v m)"
proof -
  have "comm_msg_ok f v (f k, msg)" if "0 < k" "k < v" for k
    using assms(3,4) that by (auto simp: comm_msg_ok_def)
  with assms(1,2) show ?thesis by (auto simp: send_to_children_def send_if_def tree_views_def)
qed

lemma complete_partial:
  assumes "i < v" "collected f v i l r c" "(2 * i + 1 < v \<longrightarrow> l) \<and> (2 * i + 2 < v \<longrightarrow> r)"
  shows "insert i (partial_ranks v i l r) = subtree v i"
  using assms subtree_out [of v "2 * i + 1"] subtree_out [of v "2 * i + 2"]
  by (auto simp: subtree_step [OF assms(1)] partial_ranks_def collected_def)

lemma stored_ok_update: "jc_ranklist c' \<in> {[], map f [0..<v]} \<Longrightarrow> c' = updateMap c \<Longrightarrow> stored_ok f v c'"
  by (auto simp: stored_ok_def updateMap_def)

lemma clean_ok: "stored_ok f v c \<Longrightarrow> comm_ok f v i (c\<lparr>jc_num_ranklist_contribs := 0, jc_next_ranklist := []\<rparr>)"
  by (auto simp: comm_ok_def stored_ok_def collected_def partial_ranks_def intro!: exI [of _ False])

lemma handle_aggregate_ok:
  assumes views: "tree_views f v T" and i: "i < v" and ok: "comm_ok f v i c"
    and msg: "msg_tag msg = MSG_AGGREGATE_RANKLIST" "holds_ranks f (subtree v k) (msg_payload msg)"
    and k: "k < v" "k = 2 * i + 1 \<or> k = 2 * i + 2"
  shows "\<exists>msg' c' out. handle_aggregate (T i) msg c = Inr (msg', c', out) \<and> comm_ok f v i c'
    \<and> (\<forall>m \<in> set out. comm_msg_ok f v m)"
proof -
  obtain l r where lr: "collected f v i l r c" and st: "stored_ok f v c"
    using ok by (auto simp: comm_ok_def)
  define l' where "l' = (k = 2 * i + 1 \<or> l)"
  define r' where "r' = (k = 2 * i + 2 \<or> r)"
  define c1 where "c1 = c\<lparr>jc_next_ranklist := merge_ranklist 0 (msg_payload msg) (jc_next_ranklist c),
            jc_num_ranklist_contribs := jc_num_ranklist_contribs c + 1\<rparr>"
  have c1: "collected f v i l' r' c1"
    unfolding c1_def by (rule collected_merge [OF lr msg(2) k(1)]) (use k(2) in \<open>auto simp: l'_def r'_def\<close>)
  have st1: "stored_ok f v c1" using st by (simp add: stored_ok_def c1_def)
  note ready = ready_iff [OF views i c1]
  have T: "jt_index (T i) = int i" "jt_rank (T i) = f i" "f i \<noteq> -1"
    using views i by (force simp: tree_views_def)+
  show ?thesis
  proof (cases "readyToForward (T i) c1")
    case False
    then have "handle_aggregate (T i) msg c = Inr (msg, c1, [])"
      by (simp add: handle_aggregate_def Let_def c1_def)
    moreover have "comm_ok f v i c1" using False c1 st1 unfolding ready comm_ok_def by blast
    ultimately show ?thesis by auto
  next
    case True
    define p where "p = (jc_next_ranklist c1)[i := f i]"
    have "k \<in> partial_ranks v i l' r'" using k subtree_member(1) [OF k(1)]
      by (auto simp: partial_ranks_def l'_def r'_def)
    then have len: "i < length (jc_next_ranklist c1)"
      using c1 k(2) holds_ranks_D(1) [of f "partial_ranks v i l' r'" "jc_next_ranklist c1" k]
      by (auto simp: collected_def)
    have p: "holds_ranks f (subtree v i) p"
      using holds_ranks_put [of f "partial_ranks v i l' r'" _ i] len T(3) c1
        complete_partial [OF i c1] True
      unfolding ready p_def by (simp add: collected_def)
    show ?thesis
    proof (cases "i = 0")
      case True
      define msg' where "msg' = msg\<lparr>msg_payload := p, msg_tag := MSG_BROADCAST_RANKLIST\<rparr>"
      have full: "p = map f [0..<v]" using p True by (simp add: subtree_root holds_ranks_all)
      obtain out where out: "send_to_children (T i) msg' = Inr out" "\<forall>m \<in> set out. comm_msg_ok f v m"
        using send_to_children_ok [OF views i, of msg'] full by (auto simp: msg'_def)
      let ?c = "updateMap (c1\<lparr>jc_next_ranklist := p, jc_ranklist := p\<rparr>)"
      have "handle_aggregate (T i) msg c =
          Inr (msg', ?c\<lparr>jc_num_ranklist_contribs := 0, jc_next_ranklist := []\<rparr>, out)"
        using \<open>readyToForward (T i) c1\<close> len out(1) T True p_def [unfolded True, symmetric]
        by (simp add: handle_aggregate_def Let_def c1_def [symmetric] msg'_def updateMap_def)
      moreover have "stored_ok f v ?c"
        by (rule stored_ok_update [OF _ refl]) (simp add: updateMap_def full)
      ultimately show ?thesis using out(2) clean_ok by blast
    next
      case False
      define msg' where "msg' = msg\<lparr>msg_payload := p\<rparr>"
      have par: "getParentNodeRank (T i) = Inr (f ((i - 1) div 2))"
        using views i False by (auto simp: tree_views_def)
      then have "handle_aggregate (T i) msg c =
          Inr (msg', (c1\<lparr>jc_next_ranklist := p\<rparr>)\<lparr>jc_num_ranklist_contribs := 0, jc_next_ranklist := []\<rparr>,
            [(f ((i - 1) div 2), msg')])"
        using \<open>readyToForward (T i) c1\<close> len T False
        by (simp add: handle_aggregate_def Let_def c1_def [symmetric] p_def [symmetric] msg'_def)
      moreover have "stored_ok f v (c1\<lparr>jc_next_ranklist := p\<rparr>)" using st1 by (simp add: stored_ok_def)
      moreover have "comm_msg_ok f v (f ((i - 1) div 2), msg')"
        using False i p msg(1) by (auto simp: comm_msg_ok_def msg'_def)
      ultimately show ?thesis using clean_ok by fastforce
    qed
  qed
qed

section \<open>All interleavings\<close>

text \<open>The nodes of one job tree with the messages that are on their way. A leaf starts an aggregation when
  it wants to; messages arrive in any order.\<close>

record comm_net =
  cn_comm :: "nat \<Rightarrow> job_comm"
  cn_msgs :: "(int \<times> job_message) multiset"

inductive comm_reachable :: "nat \<Rightarrow> (nat \<Rightarrow> job_tree) \<Rightarrow> comm_net \<Rightarrow> bool" for v T where
  start: "comm_reachable v T \<lparr>cn_comm = (\<lambda>_. JobComm jobId period), cn_msgs = {#}\<rparr>"
| begin_aggregation: "comm_reachable v T s \<Longrightarrow> i < v \<Longrightarrow>
    wantsToAggregate now (T i) (cn_comm s i) = (True, c) \<Longrightarrow>
    beginAggregation now revision (T i) c = Inr (c', out) \<Longrightarrow>
    comm_reachable v T \<lparr>cn_comm = (cn_comm s)(i := c'), cn_msgs = cn_msgs s + mset out\<rparr>"
| deliver: "comm_reachable v T s \<Longrightarrow> i < v \<Longrightarrow> (jt_rank (T i), msg) \<in># cn_msgs s \<Longrightarrow>
    jc_handle (T i) msg (cn_comm s i) = Inr (handled, msg', c', out) \<Longrightarrow>
    comm_reachable v T \<lparr>cn_comm = (cn_comm s)(i := c'),
      cn_msgs = cn_msgs s - {#(jt_rank (T i), msg)#} + mset out\<rparr>"

definition comm_inv :: "(nat \<Rightarrow> int) \<Rightarrow> nat \<Rightarrow> comm_net \<Rightarrow> bool" where
  "comm_inv f v s \<longleftrightarrow> (\<forall>i < v. comm_ok f v i (cn_comm s i)) \<and> (\<forall>m \<in># cn_msgs s. comm_msg_ok f v m)"

lemma jc_handle_ok:
  assumes "tree_views f v T" "i < v" "comm_ok f v i c" "comm_msg_ok f v (jt_rank (T i), msg)"
  shows "\<exists>msg' c' out. jc_handle (T i) msg c = Inr (True, msg', c', out) \<and> comm_ok f v i c'
    \<and> (\<forall>m \<in> set out. comm_msg_ok f v m)"
proof -
  obtain k where k: "0 < k" "k < v" and cases:
    "msg_tag msg = MSG_AGGREGATE_RANKLIST \<and> f i = f ((k - 1) div 2) \<and> holds_ranks f (subtree v k) (msg_payload msg)
     \<or> msg_tag msg = MSG_BROADCAST_RANKLIST \<and> msg_payload msg = map f [0..<v]"
    using assms(1,2,4) by (auto simp: comm_msg_ok_def tree_views_def)
  from cases show ?thesis
  proof (elim disjE conjE)
    assume m: "msg_tag msg = MSG_AGGREGATE_RANKLIST" "f i = f ((k - 1) div 2)"
      "holds_ranks f (subtree v k) (msg_payload msg)"
    have "inj_on f {..<v}" using assms(1) by (simp add: tree_views_def)
    then have "i = (k - 1) div 2" using m(2) assms(2) k by (auto dest!: inj_onD)
    then have "k = 2 * i + 1 \<or> k = 2 * i + 2" using k(1) by presburger
    from handle_aggregate_ok [OF assms(1-3) m(1,3) k(2) this] m(1) show ?thesis
      by (auto simp: jc_handle_def)
  next
    assume m: "msg_tag msg = MSG_BROADCAST_RANKLIST" "msg_payload msg = map f [0..<v]"
    obtain out where "send_to_children (T i) msg = Inr out" "\<forall>m \<in> set out. comm_msg_ok f v m"
      using send_to_children_ok [OF assms(1,2) m] by blast
    moreover have "comm_ok f v i (updateMap (c\<lparr>jc_ranklist := map f [0..<v]\<rparr>))"
      using assms(3) by (auto simp: comm_ok_def stored_ok_def collected_def updateMap_def)
    ultimately show ?thesis using m
      by (simp add: jc_handle_def MSG_AGGREGATE_RANKLIST_def MSG_BROADCAST_RANKLIST_def)
  qed
qed

lemma begin_ok:
  assumes "tree_views f v T" "i < v" "comm_ok f v i c" "wantsToAggregate now (T i) c = (True, c1)"
  shows "\<exists>c' out. beginAggregation now revision (T i) c1 = Inr (c', out) \<and> comm_ok f v i c'
    \<and> (\<forall>m \<in> set out. comm_msg_ok f v m)"
proof -
  have leaf: "isLeaf (T i)" and c1: "c1 = c\<lparr>jc_aggregate_ranklist := True\<rparr>"
    using assms(4) by (auto simp: wantsToAggregate_def split: if_splits)
  have T: "jt_index (T i) = int i" "jt_rank (T i) = f i" "\<not> 2 * i + 1 < v" "\<not> 2 * i + 2 < v" "f i \<noteq> -1"
    using assms(1,2) leaf by (force simp: tree_views_def isLeaf_def)+
  have sub: "subtree v i = {i}"
    using T subtree_out [of v "2 * i + 1"] subtree_out [of v "2 * i + 2"] by (simp add: subtree_step [OF assms(2)])
  show ?thesis
  proof (cases "i = 0")
    case True
    then have "[f i] = map f [0..<v]" using T(3) assms(2) by (cases v) auto
    then show ?thesis using assms(3) T(1,2) True
      by (auto simp: beginAggregation_def c1 comm_ok_def stored_ok_def collected_def updateMap_def)
  next
    case False
    have par: "getParentNodeRank (T i) = Inr (f ((i - 1) div 2))"
      using assms(1,2) False by (auto simp: tree_views_def)
    have nat: "nat (int i + 1) = i + 1" by simp
    have "holds_ranks f (subtree v i) ((replicate (i + 1) (-1))[i := f i])"
      using holds_ranks_single [of f i] T(5) sub by simp
    then show ?thesis using assms(2,3) T(1,2) False
      by (auto simp: beginAggregation_def Let_def par nat c1 comm_ok_def stored_ok_def collected_def comm_msg_ok_def
          simp del: replicate.simps)
  qed
qed

lemma comm_reachable_inv:
  assumes "tree_views f v T" "comm_reachable v T s"
  shows "comm_inv f v s"
  using assms(2)
proof (induction rule: comm_reachable.induct)
  case (start jobId period)
  then show ?case
    by (auto simp: comm_inv_def comm_ok_def stored_ok_def collected_def JobComm_def partial_ranks_def
        intro!: exI [of _ False])
next
  case (begin_aggregation s i now c revision c' out)
  then show ?case using begin_ok [OF assms(1), of i "cn_comm s i" now c revision]
    by (auto simp: comm_inv_def)
next
  case (deliver s i msg handled msg' c' out)
  have old: "m \<in># cn_msgs s \<or> m \<in> set out" if "m \<in># cn_msgs s - {#(jt_rank (T i), msg)#} + mset out" for m
    using that unfolding union_iff by (auto dest: in_diffD)
  have new: "comm_ok f v i c'" "\<forall>m \<in> set out. comm_msg_ok f v m"
    using jc_handle_ok [OF assms(1), of i "cn_comm s i" msg] deliver by (auto simp: comm_inv_def)
  have "\<forall>j < v. comm_ok f v j (((cn_comm s)(i := c')) j)"
    "\<forall>m \<in># cn_msgs s - {#(jt_rank (T i), msg)#} + mset out. comm_msg_ok f v m"
  proof -
    show "\<forall>j < v. comm_ok f v j (((cn_comm s)(i := c')) j)"
      using new(1) deliver.IH by (simp add: comm_inv_def)
    show "\<forall>m \<in># cn_msgs s - {#(jt_rank (T i), msg)#} + mset out. comm_msg_ok f v m"
      using new(2) deliver.IH unfolding comm_inv_def by (intro ballI) (blast dest: old)
  qed
  then show ?case by (simp only: comm_inv_def comm_net.simps simp_thms)
qed

lemma map_loop_other: "r \<notin> set rs \<Longrightarrow> map_loop i rs w r = w r"
  by (induction rs arbitrary: i w) auto

lemma map_loop_nth: "distinct rs \<Longrightarrow> k < length rs \<Longrightarrow> map_loop i rs w (rs ! k) = Some (int (i + k))"
proof (induction rs arbitrary: i w k)
  case (Cons x rs)
  then show ?case by (cases k) (auto simp: map_loop_other)
qed simp

text \<open>Fresh views of the same job: the ranks are those of the permutation all nodes share.\<close>

definition fresh_tree :: "int \<Rightarrow> int \<Rightarrow> nat \<Rightarrow> nat \<Rightarrow> job_tree" where
  "fresh_tree n seed v i =
     (JobTree (\<lambda>_ _ xs. xs) n (perm_fun (AdjustablePermutation (\<lambda>_ _ xs. xs) n seed) (int i)) seed False)
       \<lparr>jt_index := int i, jt_has_left_child := 2 * i + 1 < v, jt_has_right_child := 2 * i + 2 < v\<rparr>"

lemma fresh_tree_views:
  assumes "0 < v" "int v \<le> n"
  shows "tree_views (\<lambda>i. perm_fun (AdjustablePermutation (\<lambda>_ _ xs. xs) n seed) (int i)) v (fresh_tree n seed v)"
proof -
  let ?p = "AdjustablePermutation (\<lambda>_ _ xs. xs) n seed"
  have on: "perm_on n ?p" using assms by (intro perm_on_fresh) auto
  have n: "0 < n" using assms by simp
  have "inj_on (\<lambda>i. perm_fun ?p (int i)) {..<v}"
    using perm_on_inj [OF on n] assms(2) by (auto simp: inj_on_def)
  moreover have "c_div (int i - 1) 2 = int ((i - 1) div 2)" if "0 < i" for i
    using that by (subst c_div_nonneg) (auto simp: of_nat_diff zdiv_int)
  ultimately show ?thesis using assms perm_on_mem [OF on n] perm_on_get [OF on]
    by (auto simp: tree_views_def fresh_tree_def JobTree_def getLeftChildNodeRank_def getRightChildNodeRank_def
        getParentNodeRank_def node_rank_def isRoot_def getLeftChildIndex_def getRightChildIndex_def
        getParentIndex_def algebra_simps)
qed

section \<open>Properties\<close>

text \<open>
  Property (C6): the communicator of a job is all or nothing. In a tree with \<open>v\<close> nodes, whatever leaves
  start aggregations and in whatever order messages arrive, also of overlapping rounds, every message on
  its way is handled without an access out of range and every node has either no rank list or the complete
  one: then its size is the number of nodes, internal rank \<open>i\<close> is mapped to the rank of the node of index
  \<open>i\<close> and back, and any other internal or world rank to \<open>-1\<close>.
\<close>

theorem ranklists_are_complete:
  assumes "tree_views f v T" "comm_reachable v T s" "i < v"
  shows "(\<forall>msg. (jt_rank (T i), msg) \<in># cn_msgs s \<longrightarrow>
      (\<exists>msg' c' out. jc_handle (T i) msg (cn_comm s i) = Inr (True, msg', c', out)))
    \<and> (jc_ranklist (cn_comm s i) = [] \<or>
       jc_size (cn_comm s i) = v
       \<and> (\<forall>k. getWorldRankOrMinusOne k (cn_comm s i) = (if 0 \<le> k \<and> k < int v then f (nat k) else -1))
       \<and> (\<forall>k < v. getInternalRankOrMinusOne (f k) (cn_comm s i) = int k)
       \<and> (\<forall>r. r \<notin> f ` {..<v} \<longrightarrow> getInternalRankOrMinusOne r (cn_comm s i) = -1))"
proof -
  let ?c = "cn_comm s i"
  have inv: "comm_inv f v s" by (rule comm_reachable_inv [OF assms(1,2)])
  then have ok: "comm_ok f v i ?c" using assms(3) by (simp add: comm_inv_def)
  have "\<exists>msg' c' out. jc_handle (T i) msg ?c = Inr (True, msg', c', out)"
    if "(jt_rank (T i), msg) \<in># cn_msgs s" for msg
    using jc_handle_ok [OF assms(1,3) ok] that inv by (fastforce simp: comm_inv_def)
  moreover have "jc_size ?c = v"
    "getWorldRankOrMinusOne k ?c = (if 0 \<le> k \<and> k < int v then f (nat k) else -1)"
    if "jc_ranklist ?c \<noteq> []" for k
    using ok that by (auto simp: comm_ok_def stored_ok_def jc_size_def getWorldRankOrMinusOne_def nat_less_iff)
  moreover have "k < v \<Longrightarrow> getInternalRankOrMinusOne (f k) ?c = int k"
    "r \<notin> f ` {..<v} \<Longrightarrow> getInternalRankOrMinusOne r ?c = -1" if "jc_ranklist ?c \<noteq> []" for k r
  proof -
    have w: "jc_world_to_int_rank ?c = map_loop 0 (map f [0..<v]) Map.empty"
      using ok that by (auto simp: comm_ok_def stored_ok_def)
    have "distinct (map f [0..<v])"
      using assms(1) by (auto simp: tree_views_def distinct_map intro: inj_on_subset)
    from map_loop_nth [OF this, of k 0 Map.empty]
    show "getInternalRankOrMinusOne (f k) ?c = int k" if "k < v"
      using that by (simp add: getInternalRankOrMinusOne_def w)
    show "getInternalRankOrMinusOne r ?c = -1" if "r \<notin> f ` {..<v}"
      using that map_loop_other [of r "map f [0..<v]" 0 Map.empty]
      by (auto simp: getInternalRankOrMinusOne_def w lessThan_atLeast0)
  qed
  ultimately show ?thesis by blast
qed

definition sample_net :: comm_net where
  "sample_net = \<lparr>cn_comm = (\<lambda>_. JobComm 5 1), cn_msgs = {#}\<rparr>"

theorem ranklists_are_complete_witness:
  "\<exists>s msg. comm_reachable 3 (fresh_tree 8 5 3) s \<and> cn_msgs s = {#(jt_rank (fresh_tree 8 5 3 0), msg)#}
    \<and> (\<exists>msg' c' out. jc_handle (fresh_tree 8 5 3 0) msg (cn_comm s 0) = Inr (True, msg', c', out))"
proof -
  let ?T = "fresh_tree 8 5 3"
  have views: "tree_views (\<lambda>i. perm_fun (AdjustablePermutation (\<lambda>_ _ xs. xs) 8 5) (int i)) 3 ?T"
    by (rule fresh_tree_views) auto
  let ?c = "(JobComm 5 1)\<lparr>jc_aggregate_ranklist := True\<rparr>"
  have start: "comm_reachable 3 ?T sample_net" unfolding sample_net_def by (rule comm_reachable.start)
  have wants: "wantsToAggregate 2 (?T 1) (cn_comm sample_net 1) = (True, ?c)"
  proof -
    have "(1::rat) \<le> round24 (2 - 0)" by code_simp
    then show ?thesis
      by (simp add: wantsToAggregate_def sample_net_def JobComm_def isLeaf_def fresh_tree_def JobTree_def)
  qed
  have parent: "getParentNodeRank (?T 1) = Inr (jt_rank (?T 0))"
    using views by (simp add: tree_views_def)
  have idx: "jt_index (?T 1) = 1" by (simp add: fresh_tree_def)
  obtain c' msg where beg: "beginAggregation 2 0 (?T 1) ?c = Inr (c', [(jt_rank (?T 0), msg)])"
    using parent idx by (auto simp: beginAggregation_def Let_def)
  define s where "s = \<lparr>cn_comm = (cn_comm sample_net)(1 := c'), cn_msgs = {#(jt_rank (?T 0), msg)#}\<rparr>"
  have s: "comm_reachable 3 ?T s"
    using comm_reachable.begin_aggregation [OF start _ wants beg] by (simp add: s_def sample_net_def)
  have msgs: "cn_msgs s = {#(jt_rank (?T 0), msg)#}" by (simp add: s_def)
  have "\<exists>msg' c' out. jc_handle (?T 0) msg (cn_comm s 0) = Inr (True, msg', c', out)"
    using ranklists_are_complete [OF views s, of 0] msgs by simp
  with s msgs show ?thesis by blast
qed

end
