(* ===== verification/Job_Description.thy ===== *)
theory Job_Description
  imports Job_Transfer "HOL-Library.List_Lexorder" "HOL-Library.Char_ord"
begin

text \<open>
  The description of a job (class \<open>JobDescription\<close> in src/src/data/job_description.hpp and .cpp) with its
  application-specific options (struct \<open>AppConfiguration\<close> in src/src/data/app_configuration.hpp): how a
  parser builds the byte vector of a revision (meta data, formula literals, assumptions), how the vector
  is read back by another process, and where the payload of a revision is found. A shared pointer to a
  byte vector is an option; dereferencing a null pointer, accessing a vector out of range and copying
  beyond its end are undefined behaviour. The statistics and the plain setters and getters are left out.
\<close>

section \<open>Application configuration\<close>

text \<open>\<open>std::map<std::string, std::string>\<close>, sorted by key.\<close>

type_synonym app_configuration = "(string \<times> string) list"

definition getSerializedSize :: "app_configuration \<Rightarrow> int" where
  "getSerializedSize m = sum_list (map (\<lambda>(key, val). 1 + int (length key) + 1 + int (length val) + 1) m)"

definition AppConfiguration_serialize :: "app_configuration \<Rightarrow> string res" where
  "AppConfiguration_serialize m =
     (let out = concat (map (\<lambda>(key, val). ''-'' @ key @ ''='' @ val @ '';'') m)
      in check (int (length out) = getSerializedSize m) (Inr out))"

text \<open>
  A \<open>std::stringstream\<close> is the unread rest of its string together with the information whether it is
  still good. \<open>getline\<close> on a stream that is not good leaves the target string alone; reading up to the
  end without meeting the delimiter sets the end-of-file flag.
\<close>

type_synonym stringstream = "bool \<times> string"

definition getline :: "char \<Rightarrow> stringstream \<Rightarrow> string \<Rightarrow> stringstream \<times> string" where
  "getline delim ss str =
     (let (good, rest) = ss; line = takeWhile (\<lambda>c. c \<noteq> delim) rest in
      if \<not> good then (ss, str)
      else if delim \<in> set rest then ((True, drop (length line + 1) rest), line)
      else ((False, []), line))"

function config_loop :: "stringstream \<Rightarrow> string \<Rightarrow> app_configuration \<Rightarrow> app_configuration res" where
  "config_loop ss substr m =
     (if substr = [] then Inr m
      else check (hd substr = CHR ''-'')
        (let substr = tl substr;
             (sub, key) = getline (CHR ''='') (True, substr) [];
             (sub, val) = getline (CHR '';'') sub [];
             m = oset_put fst (key, val) m;
             (ss, substr) = getline (CHR '';'') ss substr
         in config_loop ss substr m))"
  by pat_completeness auto

lemma getline_shrinks:
  "getline d (good, rest) s = ((good', rest'), s') \<Longrightarrow>
     length rest' + length s' \<le> (if good then length rest else length rest + length s)"
  using length_takeWhile_le [of "\<lambda>c. c \<noteq> d" rest] by (auto simp: getline_def Let_def split: if_splits)

termination config_loop
proof (relation "measure (\<lambda>((good, rest), substr, m). length rest + length substr)", goal_cases)
  case (2 ss substr m x xa xb y xaa xab ya xac xad xc yb)
  then show ?case using getline_shrinks [of "CHR '';''" "fst ss" "snd ss" "tl substr" "fst xc" "snd xc" yb]
    by (cases substr; cases ss; cases xc) (auto split: if_splits)
qed simp

declare config_loop.simps [simp del]

definition AppConfiguration_deserialize :: "string \<Rightarrow> app_configuration res" where
  "AppConfiguration_deserialize packed =
     (let (ss, substr) = getline (CHR '';'') (True, packed) [] in config_loop ss substr [])"

section \<open>State\<close>

record job_description =
  jd_id :: int
  jd_root_rank :: int
  jd_priority :: float32
  jd_revision :: int
  jd_client_rank :: int
  jd_wallclock_limit :: float32
  jd_cpu_limit :: float32
  jd_max_demand :: int
  jd_application :: application
  jd_checksum :: checksum
  jd_use_checksums :: bool
  jd_app_config :: app_configuration
  jd_num_vars :: int
  jd_f_size :: "64 word"
  jd_a_size :: "64 word"
  jd_data_per_revision :: "byte list option list"
  jd_preloaded_literals :: "int list"
  jd_preloaded_assumptions :: "int list"

text \<open>\<open>_f_size\<close> and \<open>_a_size\<close> have no initializer; they are written before they are read.\<close>

definition JobDescription :: "int \<Rightarrow> float32 \<Rightarrow> application \<Rightarrow> bool \<Rightarrow> job_description" where
  "JobDescription jobId priority appl computeChecksums =
     \<lparr>jd_id = jobId, jd_root_rank = -1, jd_priority = priority, jd_revision = 0, jd_client_rank = -1,
      jd_wallclock_limit = 0, jd_cpu_limit = 0, jd_max_demand = 0, jd_application = appl,
      jd_checksum = Checksum_init, jd_use_checksums = computeChecksums, jd_app_config = [], jd_num_vars = -1,
      jd_f_size = 0, jd_a_size = 0, jd_data_per_revision = [], jd_preloaded_literals = [],
      jd_preloaded_assumptions = []\<rparr>"

definition getMetadataSize :: "job_description \<Rightarrow> int" where
  "getMetadataSize d = 6 * 4 + 3 * 4 + 2 * 8 + 16 + 4 + 4 + getSerializedSize (jd_app_config d)"

section \<open>Building a revision\<close>

text \<open>Null pointers up to and including the given index. A negative index is converted to a huge
  \<open>size_t\<close>, for which the memory does not suffice.\<close>

definition grow :: "int \<Rightarrow> byte list option list \<Rightarrow> byte list option list res" where
  "grow revision xs =
     (if revision < 0 then Inl Aborted else Inr (xs @ replicate (nat revision + 1 - length xs) None))"

definition beginInitialization :: "int \<Rightarrow> job_description \<Rightarrow> job_description res" where
  "beginInitialization revision d =
     res_bind (grow revision (jd_data_per_revision d)) (\<lambda>data.
       let d = d\<lparr>jd_revision := revision\<rparr>
       in Inr (d\<lparr>jd_data_per_revision := data[nat revision := Some (replicate (nat (getMetadataSize d)) 0)],
                 jd_f_size := 0, jd_a_size := 0\<rparr>))"

text \<open>\<open>push_obj<int>\<close> on the vector of the current revision, which is accessed without a check.\<close>

definition push_int :: "int \<Rightarrow> job_description \<Rightarrow> job_description res" where
  "push_int x d =
     (let r = jd_revision d; data = jd_data_per_revision d in
      if 0 \<le> r \<and> nat r < length data
      then (case data ! nat r of
              None \<Rightarrow> Inl Undefined_behaviour
            | Some v \<Rightarrow> Inr (d\<lparr>jd_data_per_revision := data[nat r := Some (v @ put_int x)]\<rparr>))
      else Inl Undefined_behaviour)"

definition addLiteral :: "int \<Rightarrow> job_description \<Rightarrow> job_description res" where
  "addLiteral lit d =
     res_bind (push_int lit d) (\<lambda>d.
       Inr (d\<lparr>jd_f_size := jd_f_size d + 1,
              jd_checksum := (if jd_use_checksums d then Checksum_combine lit (jd_checksum d) else jd_checksum d)\<rparr>))"

definition addAssumption :: "int \<Rightarrow> job_description \<Rightarrow> job_description res" where
  "addAssumption lit d =
     res_bind (push_int lit d) (\<lambda>d.
       Inr (d\<lparr>jd_a_size := jd_a_size d + 1,
              jd_checksum := (if jd_use_checksums d then Checksum_combine (- lit) (jd_checksum d) else jd_checksum d)\<rparr>))"

fun add_all :: "(int \<Rightarrow> job_description \<Rightarrow> job_description res) \<Rightarrow> int list \<Rightarrow> job_description \<Rightarrow> job_description res" where
  "add_all add [] d = Inr d"
| "add_all add (x # xs) d = res_bind (add x d) (add_all add xs)"

definition getRevisionData :: "int \<Rightarrow> job_description \<Rightarrow> byte list option res" where
  "getRevisionData revision d =
     check (0 \<le> revision \<and> nat revision < length (jd_data_per_revision d))
       (Inr (jd_data_per_revision d ! nat revision))"

definition revision_bytes :: "int \<Rightarrow> job_description \<Rightarrow> byte list res" where
  "revision_bytes revision d =
     res_bind (getRevisionData revision d) (\<lambda>p. case p of None \<Rightarrow> Inl Undefined_behaviour | Some v \<Rightarrow> Inr v)"

definition string_bytes :: "string \<Rightarrow> byte list" where
  "string_bytes s = map of_char s"

definition metadata :: "string \<Rightarrow> job_description \<Rightarrow> byte list" where
  "metadata config d =
     put_int (jd_id d) @ put_int (jd_revision d) @ put_int (jd_client_rank d) @
     put_size_t (jd_f_size d) @ put_size_t (jd_a_size d) @ put_int (jd_root_rank d) @
     put_float (jd_priority d) @ put_int (jd_num_vars d) @ put_float (jd_wallclock_limit d) @
     put_float (jd_cpu_limit d) @ put_int (jd_max_demand d) @ put_application (jd_application d) @
     put_checksum (jd_checksum d) @ put_int (int (length config)) @ string_bytes config"

definition writeMetadata :: "job_description \<Rightarrow> job_description res" where
  "writeMetadata d =
     res_bind (revision_bytes (jd_revision d) d) (\<lambda>v.
     res_bind (AppConfiguration_serialize (jd_app_config d)) (\<lambda>config.
       let md = metadata config d
       in if length md \<le> length v
          then Inr (d\<lparr>jd_data_per_revision :=
                   (jd_data_per_revision d)[nat (jd_revision d) := Some (md @ drop (length md) v)]\<rparr>)
          else Inl Undefined_behaviour))"

definition endInitialization :: "job_description \<Rightarrow> job_description res" where
  "endInitialization d =
     res_bind (add_all addLiteral (jd_preloaded_literals d) d) (\<lambda>d.
     res_bind (add_all addAssumption (jd_preloaded_assumptions d) d) (\<lambda>d.
       writeMetadata (d\<lparr>jd_preloaded_literals := [], jd_preloaded_assumptions := []\<rparr>)))"

section \<open>Reading a revision\<close>

definition readRevisionIndex :: "byte list \<Rightarrow> int res" where
  "readRevisionIndex serialized =
     check (3 * 4 + 2 * 8 \<le> length serialized)
       (case rd_int (drop 4 serialized) of
          None \<Rightarrow> Inl Undefined_behaviour
        | Some (revision, _) \<Rightarrow> check (revision \<ge> 0) (Inr revision))"

definition bytes_string :: "byte list \<Rightarrow> string" where
  "bytes_string bs = map (\<lambda>b. char_of (unat b)) bs"

text \<open>The meta data is read from the last revision. The size of the configuration is four bytes that
  are copied into the lower half of a \<open>size_t\<close> whose upper half is zero.\<close>

definition read_metadata :: "byte list \<Rightarrow> job_description \<Rightarrow> (job_description \<times> string) option" where
  "read_metadata bs d =
     do {
       (jobId, bs) \<leftarrow> rd_int bs;
       (revision, bs) \<leftarrow> rd_int bs;
       (client_rank, bs) \<leftarrow> rd_int bs;
       (f_size, bs) \<leftarrow> rd_size_t bs;
       (a_size, bs) \<leftarrow> rd_size_t bs;
       (root_rank, bs) \<leftarrow> rd_int bs;
       (priority, bs) \<leftarrow> rd_float bs;
       (num_vars, bs) \<leftarrow> rd_int bs;
       (wallclock_limit, bs) \<leftarrow> rd_float bs;
       (cpu_limit, bs) \<leftarrow> rd_float bs;
       (max_demand, bs) \<leftarrow> rd_int bs;
       (appl, bs) \<leftarrow> rd_application bs;
       (cs, bs) \<leftarrow> rd_checksum bs;
       (n, bs) \<leftarrow> rd 4 (\<lambda>bs. Some (le_nat bs)) bs;
       (if n \<le> length bs
        then Some (d\<lparr>jd_id := jobId, jd_revision := revision, jd_client_rank := client_rank,
                     jd_f_size := f_size, jd_a_size := a_size, jd_root_rank := root_rank,
                     jd_priority := priority, jd_num_vars := num_vars, jd_wallclock_limit := wallclock_limit,
                     jd_cpu_limit := cpu_limit, jd_max_demand := max_demand, jd_application := appl,
                     jd_checksum := cs\<rparr>,
                   bytes_string (take n bs))
        else None)
     }"

definition deserialize_latest :: "job_description \<Rightarrow> job_description res" where
  "deserialize_latest d =
     (case jd_data_per_revision d of
        [] \<Rightarrow> Inl Undefined_behaviour
      | data \<Rightarrow>
          (case last data of
             None \<Rightarrow> Inl Undefined_behaviour
           | Some v \<Rightarrow>
               (case read_metadata v d of
                  None \<Rightarrow> Inl Undefined_behaviour
                | Some (d, config) \<Rightarrow>
                    res_bind (AppConfiguration_deserialize config) (\<lambda>m. Inr (d\<lparr>jd_app_config := m\<rparr>)))))"

definition prepareRevision :: "byte list \<Rightarrow> job_description \<Rightarrow> (int \<times> job_description) res" where
  "prepareRevision packed d =
     res_bind (readRevisionIndex packed) (\<lambda>revision.
     res_bind (grow revision (jd_data_per_revision d)) (\<lambda>data.
       Inr (revision, d\<lparr>jd_data_per_revision := data\<rparr>)))"

definition JobDescription_deserialize :: "byte list \<Rightarrow> job_description \<Rightarrow> job_description res" where
  "JobDescription_deserialize packed d =
     res_bind (prepareRevision packed d) (\<lambda>(revision, d).
       deserialize_latest (d\<lparr>jd_data_per_revision := (jd_data_per_revision d)[nat revision := Some packed]\<rparr>))"

section \<open>Access to the data\<close>

definition getFormulaPayloadSize :: "int \<Rightarrow> job_description \<Rightarrow> 64 word res" where
  "getFormulaPayloadSize revision d =
     res_bind (revision_bytes revision d) (\<lambda>v.
       case rd_size_t (drop (3 * 4) v) of None \<Rightarrow> Inl Undefined_behaviour | Some (n, _) \<Rightarrow> Inr n)"

definition getAssumptionsSize :: "int \<Rightarrow> job_description \<Rightarrow> 64 word res" where
  "getAssumptionsSize revision d =
     res_bind (revision_bytes revision d) (\<lambda>v.
       case rd_size_t (drop (3 * 4 + 8) v) of None \<Rightarrow> Inl Undefined_behaviour | Some (n, _) \<Rightarrow> Inr n)"

text \<open>A pointer into the vector is the position it refers to.\<close>

definition getFormulaPayload :: "int \<Rightarrow> job_description \<Rightarrow> nat res" where
  "getFormulaPayload revision d = res_bind (revision_bytes revision d) (\<lambda>v. Inr (nat (getMetadataSize d)))"

definition getAssumptionsPayload :: "int \<Rightarrow> job_description \<Rightarrow> nat res" where
  "getAssumptionsPayload revision d =
     res_bind (getFormulaPayloadSize revision d) (\<lambda>n. Inr (nat (getMetadataSize d) + 4 * unat n))"

definition getTransferSize :: "int \<Rightarrow> job_description \<Rightarrow> nat res" where
  "getTransferSize revision d = res_bind (revision_bytes revision d) (\<lambda>v. Inr (length v))"

definition JobDescription_serialize :: "job_description \<Rightarrow> byte list res" where
  "JobDescription_serialize d =
     (case jd_data_per_revision d of Some v # _ \<Rightarrow> Inr v | _ \<Rightarrow> Inl Undefined_behaviour)"

definition getSerialization :: "int \<Rightarrow> job_description \<Rightarrow> byte list option res" where
  "getSerialization revision d = getRevisionData revision d"

definition clearPayload :: "int \<Rightarrow> job_description \<Rightarrow> job_description res" where
  "clearPayload revision d =
     res_bind (getRevisionData revision d) (\<lambda>_.
       Inr (d\<lparr>jd_data_per_revision := (jd_data_per_revision d)[nat revision := None]\<rparr>))"

definition getMaxConsecutiveRevision :: "job_description \<Rightarrow> int" where
  "getMaxConsecutiveRevision d =
     int (length (takeWhile (\<lambda>p. p \<noteq> None) (jd_data_per_revision d))) - 1"

section \<open>The configuration survives the transfer\<close>

definition config_ok :: "app_configuration \<Rightarrow> bool" where
  "config_ok m \<longleftrightarrow>
     oset fst m \<and> (\<forall>(key, val) \<in> set m. CHR ''='' \<notin> set key \<and> CHR '';'' \<notin> set key \<and> CHR '';'' \<notin> set val)"

definition config_string :: "app_configuration \<Rightarrow> string" where
  "config_string m = concat (map (\<lambda>(key, val). ''-'' @ key @ ''='' @ val @ '';'') m)"

lemma length_config_string: "int (length (config_string m)) = getSerializedSize m"
  by (induction m) (auto simp: config_string_def getSerializedSize_def)

lemma AppConfiguration_serialize_total [simp]: "AppConfiguration_serialize m = Inr (config_string m)"
  using length_config_string [of m]
  by (simp add: AppConfiguration_serialize_def config_string_def Let_def)

lemma takeWhile_not_in:
  "d \<notin> set l \<Longrightarrow> takeWhile (\<lambda>c. c \<noteq> d) l = l"
  "d \<notin> set l \<Longrightarrow> takeWhile (\<lambda>c. c \<noteq> d) (l @ d # rest) = l"
  by (induction l) auto

lemma getline_delim: "d \<notin> set l \<Longrightarrow> getline d (True, l @ d # rest) s = ((True, rest), l)"
  by (simp add: getline_def takeWhile_not_in Let_def)

lemma getline_end: "d \<notin> set l \<Longrightarrow> getline d (True, l) s = ((False, []), l)"
  by (simp add: getline_def takeWhile_not_in Let_def)

lemma config_loop_string:
  assumes "config_ok (acc @ m)"
  shows "(case getline (CHR '';'') (True, config_string m) s of (ss, substr) \<Rightarrow> config_loop ss substr acc) = Inr (acc @ m)"
  using assms
proof (induction m arbitrary: acc s)
  case Nil
  then show ?case by (simp add: config_string_def getline_end config_loop.simps)
next
  case (Cons kv m)
  obtain key val where kv: "kv = (key, val)" by (cases kv)
  from Cons.prems have ok: "CHR ''='' \<notin> set key" "CHR '';'' \<notin> set key" "CHR '';'' \<notin> set val"
    and put: "oset_put fst (key, val) acc = acc @ [(key, val)]"
    by (auto simp: config_ok_def kv sorted_wrt_append intro!: oset_put_last)
  let ?entry = "CHR ''-'' # key @ CHR ''='' # val"
  have str: "config_string (kv # m) = ?entry @ CHR '';'' # config_string m"
    by (simp add: config_string_def kv)
  have line: "getline (CHR '';'') (True, config_string (kv # m)) s = ((True, config_string m), ?entry)"
    unfolding str by (rule getline_delim) (use ok in auto)
  have "config_loop (True, config_string m) ?entry acc =
      (case getline (CHR '';'') (True, config_string m) (key @ CHR ''='' # val) of
         (ss, substr) \<Rightarrow> config_loop ss substr (acc @ [(key, val)]))"
    using ok by (subst config_loop.simps) (simp add: getline_delim getline_end put)
  with Cons.IH [of "acc @ [(key, val)]"] Cons.prems show ?case by (simp add: line [unfolded kv] kv)
qed

lemma config_roundtrip: "config_ok m \<Longrightarrow> AppConfiguration_deserialize (config_string m) = Inr m"
  using config_loop_string [of "[]" m "[]"] by (simp add: AppConfiguration_deserialize_def)

section \<open>The description survives the transfer\<close>

lemma length_metadata: "int (length (metadata (config_string m) d)) = 76 + getSerializedSize m"
  using length_config_string [of m] by (simp add: metadata_def string_bytes_def)

lemma getSerializedSize_nonneg: "0 \<le> getSerializedSize m"
  by (metis length_config_string of_nat_0_le_iff)

lemma bytes_string_bytes [simp]: "bytes_string (string_bytes s) = s"
proof -
  have "unat (of_char c :: byte) = of_char c" for c
  proof -
    have "unat (of_char c :: byte) = unat (word_of_nat (of_char c) :: byte)"
      by (simp only: of_nat_of_char)
    then show ?thesis by (simp only: unat_of_nat) simp
  qed
  then show ?thesis by (induction s) (auto simp: bytes_string_def string_bytes_def)
qed

lemma add_one:
  assumes "0 \<le> jd_revision d" "nat (jd_revision d) < length (jd_data_per_revision d)"
    and "jd_data_per_revision d ! nat (jd_revision d) = Some v"
  shows "addLiteral x d =
      Inr (d\<lparr>jd_data_per_revision := (jd_data_per_revision d)[nat (jd_revision d) := Some (v @ put_int x)],
             jd_f_size := jd_f_size d + 1,
             jd_checksum := (if jd_use_checksums d then Checksum_combine x (jd_checksum d) else jd_checksum d)\<rparr>)"
    and "addAssumption x d =
      Inr (d\<lparr>jd_data_per_revision := (jd_data_per_revision d)[nat (jd_revision d) := Some (v @ put_int x)],
             jd_a_size := jd_a_size d + 1,
             jd_checksum := (if jd_use_checksums d then Checksum_combine (- x) (jd_checksum d) else jd_checksum d)\<rparr>)"
  using assms by (simp_all add: addLiteral_def addAssumption_def push_int_def Let_def)

lemma add_all_pushes:
  assumes "0 \<le> jd_revision d" "nat (jd_revision d) < length (jd_data_per_revision d)"
    and "jd_data_per_revision d ! nat (jd_revision d) = Some v"
  shows "add_all addLiteral xs d =
      Inr (d\<lparr>jd_data_per_revision :=
               (jd_data_per_revision d)[nat (jd_revision d) := Some (v @ concat (map put_int xs))],
             jd_f_size := jd_f_size d + word_of_nat (length xs),
             jd_checksum := (if jd_use_checksums d then fold Checksum_combine xs (jd_checksum d) else jd_checksum d)\<rparr>)"
    and "add_all addAssumption xs d =
      Inr (d\<lparr>jd_data_per_revision :=
               (jd_data_per_revision d)[nat (jd_revision d) := Some (v @ concat (map put_int xs))],
             jd_a_size := jd_a_size d + word_of_nat (length xs),
             jd_checksum := (if jd_use_checksums d then fold (\<lambda>x. Checksum_combine (- x)) xs (jd_checksum d)
                             else jd_checksum d)\<rparr>)"
  using assms
proof (induction xs arbitrary: d v)
  case Nil
  { case 1 then show ?case by (cases d) (simp add: list_update_same_conv [THEN iffD2]) }
  { case 2 then show ?case by (cases d) (simp add: list_update_same_conv [THEN iffD2]) }
next
  case (Cons x xs)
  { case 1 then show ?case by (simp add: add_one Cons.IH(1) ac_simps) }
  { case 2 then show ?case by (simp add: add_one Cons.IH(2) ac_simps) }
qed

text \<open>What a parser does with a fresh description: it announces the revision, adds the literals and
  assumptions it meets, and ends the initialization (which adds the preloaded ones).\<close>

definition build_revision :: "int \<Rightarrow> int list \<Rightarrow> int list \<Rightarrow> job_description \<Rightarrow> job_description res" where
  "build_revision revision lits asms d =
     res_bind (beginInitialization revision d) (\<lambda>d.
     res_bind (add_all addLiteral lits d) (\<lambda>d.
     res_bind (add_all addAssumption asms d) endInitialization))"

text \<open>The fields a revision carries beside its payload and its configuration.\<close>

definition same_fields :: "job_description \<Rightarrow> job_description \<Rightarrow> bool" where
  "same_fields d d' \<longleftrightarrow>
     jd_id d' = jd_id d \<and> jd_client_rank d' = jd_client_rank d \<and> jd_root_rank d' = jd_root_rank d
     \<and> jd_priority d' = jd_priority d \<and> jd_num_vars d' = jd_num_vars d
     \<and> jd_wallclock_limit d' = jd_wallclock_limit d \<and> jd_cpu_limit d' = jd_cpu_limit d
     \<and> jd_max_demand d' = jd_max_demand d \<and> jd_application d' = jd_application d"

definition built :: "int \<Rightarrow> byte list \<Rightarrow> int list \<Rightarrow> int list \<Rightarrow> job_description \<Rightarrow> job_description \<Rightarrow> bool" where
  "built revision hdr lits asms d0 d \<longleftrightarrow>
     jd_revision d = revision \<and> nat revision < length (jd_data_per_revision d)
     \<and> jd_f_size d = word_of_nat (length lits) \<and> jd_a_size d = word_of_nat (length asms)
     \<and> jd_app_config d = jd_app_config d0 \<and> same_fields d0 d
     \<and> jd_data_per_revision d ! nat revision =
         Some (hdr @ concat (map put_int lits) @ concat (map put_int asms))"

lemma built_begin:
  assumes "0 \<le> revision"
  shows "\<exists>d'. beginInitialization revision d = Inr d'
    \<and> built revision (replicate (nat (getMetadataSize d)) 0) [] [] d d'
    \<and> jd_preloaded_literals d' = jd_preloaded_literals d
    \<and> jd_preloaded_assumptions d' = jd_preloaded_assumptions d"
  using assms
  by (simp add: beginInitialization_def grow_def Let_def built_def same_fields_def getMetadataSize_def)

lemma built_literals:
  assumes "built revision hdr lits asms d0 d" "0 \<le> revision" "xs = [] \<or> asms = []"
  shows "\<exists>d'. add_all addLiteral xs d = Inr d' \<and> built revision hdr (lits @ xs) asms d0 d'
    \<and> jd_preloaded_literals d' = jd_preloaded_literals d
    \<and> jd_preloaded_assumptions d' = jd_preloaded_assumptions d"
  using assms by (auto simp: built_def same_fields_def add_all_pushes)

lemma built_assumptions:
  assumes "built revision hdr lits asms d0 d" "0 \<le> revision"
  shows "\<exists>d'. add_all addAssumption xs d = Inr d' \<and> built revision hdr lits (asms @ xs) d0 d'
    \<and> jd_preloaded_literals d' = jd_preloaded_literals d
    \<and> jd_preloaded_assumptions d' = jd_preloaded_assumptions d"
  using assms by (auto simp: built_def same_fields_def add_all_pushes)

lemma built_end:
  assumes "built revision hdr lits asms d0 d" "0 \<le> revision" "length hdr = nat (getMetadataSize d0)"
  shows "\<exists>d'. writeMetadata (d\<lparr>jd_preloaded_literals := [], jd_preloaded_assumptions := []\<rparr>) = Inr d'
    \<and> built revision (metadata (config_string (jd_app_config d0)) d') lits asms d0 d'"
proof -
  let ?m = "config_string (jd_app_config d0)"
  have "length (metadata ?m d') = length hdr" for d'
    using assms(3) length_metadata [of "jd_app_config d0" d'] by (simp add: getMetadataSize_def)
  then show ?thesis using assms
    by (simp add: writeMetadata_def revision_bytes_def getRevisionData_def built_def Let_def
        same_fields_def metadata_def)
qed

lemma build_revision_built:
  assumes "0 \<le> revision" "asms = [] \<or> jd_preloaded_literals d = []"
  obtains d' where "build_revision revision lits asms d = Inr d'"
    and "built revision (metadata (config_string (jd_app_config d)) d')
      (lits @ jd_preloaded_literals d) (asms @ jd_preloaded_assumptions d) d d'"
proof -
  let ?hdr = "replicate (nat (getMetadataSize d)) 0"
  obtain d1 where d1: "beginInitialization revision d = Inr d1" "built revision ?hdr [] [] d d1"
    "jd_preloaded_literals d1 = jd_preloaded_literals d" "jd_preloaded_assumptions d1 = jd_preloaded_assumptions d"
    using built_begin [OF assms(1)] by blast
  obtain d2 where d2: "add_all addLiteral lits d1 = Inr d2" "built revision ?hdr lits [] d d2"
    "jd_preloaded_literals d2 = jd_preloaded_literals d" "jd_preloaded_assumptions d2 = jd_preloaded_assumptions d"
    using built_literals [OF d1(2) assms(1), of lits] d1(3,4) by auto
  obtain d3 where d3: "add_all addAssumption asms d2 = Inr d3" "built revision ?hdr lits asms d d3"
    "jd_preloaded_literals d3 = jd_preloaded_literals d" "jd_preloaded_assumptions d3 = jd_preloaded_assumptions d"
    using built_assumptions [OF d2(2) assms(1), of asms] d2(3,4) by auto
  obtain d4 where d4: "add_all addLiteral (jd_preloaded_literals d) d3 = Inr d4"
    "built revision ?hdr (lits @ jd_preloaded_literals d) asms d d4"
    "jd_preloaded_assumptions d4 = jd_preloaded_assumptions d"
    using built_literals [OF d3(2) assms(1), of "jd_preloaded_literals d"] assms(2) d3(4) by auto
  obtain d5 where d5: "add_all addAssumption (jd_preloaded_assumptions d) d4 = Inr d5"
    "built revision ?hdr (lits @ jd_preloaded_literals d) (asms @ jd_preloaded_assumptions d) d d5"
    using built_assumptions [OF d4(2) assms(1), of "jd_preloaded_assumptions d"] by auto
  from built_end [OF d5(2) assms(1)] that show ?thesis
    by (auto simp: build_revision_def endInitialization_def d1 d2 d3 d4 d5 simp del: length_append)
qed

definition fields_ok :: "job_description \<Rightarrow> bool" where
  "fields_ok d \<longleftrightarrow>
     int32 (jd_id d) \<and> int32 (jd_client_rank d) \<and> int32 (jd_root_rank d) \<and> int32 (jd_num_vars d)
     \<and> int32 (jd_max_demand d) \<and> config_ok (jd_app_config d) \<and> getSerializedSize (jd_app_config d) < 2 ^ 31"

text \<open>The integers a solver reads through a pointer into the bytes of a revision.\<close>

definition payload_ints :: "byte list \<Rightarrow> nat \<Rightarrow> 64 word \<Rightarrow> int list option" where
  "payload_ints v pos n = get_array 4 get_int (take (4 * unat n) (drop pos v))"

lemma rd_config_length:
  "n < 2 ^ 31 \<Longrightarrow> rd 4 (\<lambda>bs. Some (le_nat bs)) (put_int (int n) @ rest) = Some (n, rest)"
  by (simp add: rd_def put_int_def le_nat_le_bytes)

lemma read_metadata_metadata:
  assumes "fields_ok d0" "same_fields d0 d" "int32 (jd_revision d)" "m = jd_app_config d0"
  shows "read_metadata (metadata (config_string m) d @ payload) r =
    Some (r\<lparr>jd_id := jd_id d, jd_revision := jd_revision d, jd_client_rank := jd_client_rank d,
            jd_f_size := jd_f_size d, jd_a_size := jd_a_size d, jd_root_rank := jd_root_rank d,
            jd_priority := jd_priority d, jd_num_vars := jd_num_vars d,
            jd_wallclock_limit := jd_wallclock_limit d, jd_cpu_limit := jd_cpu_limit d,
            jd_max_demand := jd_max_demand d, jd_application := jd_application d,
            jd_checksum := jd_checksum d\<rparr>, config_string m)"
proof -
  have "length (config_string m) < 2 ^ 31"
    using assms(1,4) length_config_string [of m] by (simp add: fields_ok_def)
  then have "rd 4 (\<lambda>bs. Some (le_nat bs)) (put_int (int (length (config_string m))) @ rest)
      = Some (length (config_string m), rest)" for rest
    by (rule rd_config_length)
  then show ?thesis using assms
    by (simp add: read_metadata_def metadata_def fields_ok_def same_fields_def string_bytes_def
        bytes_string_bytes [unfolded string_bytes_def])
qed

lemma drop_metadata:
  "drop 4 (metadata c d @ payload) = put_int (jd_revision d) @ drop 8 (metadata c d @ payload)"
  "drop 12 (metadata c d @ payload) = put_size_t (jd_f_size d) @ drop 20 (metadata c d @ payload)"
  "drop 20 (metadata c d @ payload) = put_size_t (jd_a_size d) @ drop 28 (metadata c d @ payload)"
  by (simp_all add: metadata_def)

lemma payload_at:
  assumes "\<forall>x \<in> set xs. int32 x" "length xs < 2 ^ 64" "pos = length pre"
  shows "payload_ints (pre @ concat (map put_int xs) @ post) pos (word_of_nat (length xs)) = Some xs"
proof -
  have "unat (word_of_nat (length xs) :: 64 word) = length xs"
    using assms(2) by (simp add: unat_of_nat)
  then show ?thesis using assms(1,3)
    by (simp add: payload_ints_def int_field.length_concat_put int_field.get_array_concat)
qed

text \<open>A receiver after it has read the bytes \<open>v\<close> of a revision of \<open>d\<close>.\<close>

definition received :: "job_description \<Rightarrow> job_description \<Rightarrow> app_configuration \<Rightarrow> byte list \<Rightarrow> bool" where
  "received r d m v \<longleftrightarrow>
     same_fields d r \<and> jd_app_config r = m \<and> jd_revision r = jd_revision d \<and> jd_checksum r = jd_checksum d
     \<and> jd_f_size r = jd_f_size d \<and> jd_a_size r = jd_a_size d
     \<and> revision_bytes (jd_revision d) r = Inr v
     \<and> (\<exists>pl. v = metadata (config_string m) d @ pl)"

lemma deserialize_latest_last:
  "jd_data_per_revision d \<noteq> [] \<Longrightarrow> last (jd_data_per_revision d) = Some v \<Longrightarrow>
     deserialize_latest d =
       (case read_metadata v d of
          None \<Rightarrow> Inl Undefined_behaviour
        | Some (d, config) \<Rightarrow>
            res_bind (AppConfiguration_deserialize config) (\<lambda>m. Inr (d\<lparr>jd_app_config := m\<rparr>)))"
  by (cases "jd_data_per_revision d") (simp_all add: deserialize_latest_def del: last.simps)

lemma deserialize_metadata:
  assumes "0 \<le> revision" "fields_ok d0" "same_fields d0 d" "jd_revision d = revision" "int32 revision"
    and "length (jd_data_per_revision r) \<le> nat revision + 1"
  shows "\<exists>r'. JobDescription_deserialize (metadata (config_string (jd_app_config d0)) d @ pl) r = Inr r'
    \<and> received r' d (jd_app_config d0) (metadata (config_string (jd_app_config d0)) d @ pl)"
proof -
  let ?m = "jd_app_config d0"
  let ?v = "metadata (config_string ?m) d @ pl"
  have len: "length (metadata (config_string ?m) d) = nat (76 + getSerializedSize ?m)"
    using length_metadata [of ?m d] by simp
  have idx: "readRevisionIndex ?v = Inr revision"
    using assms(1,4,5) len getSerializedSize_nonneg [of ?m]
    by (simp add: readRevisionIndex_def drop_metadata(1) del: drop_append append_assoc)
  define data where "data = (jd_data_per_revision r @
      replicate (nat revision + 1 - length (jd_data_per_revision r)) None)[nat revision := Some ?v]"
  have n: "length data = nat revision + 1" "data ! nat revision = Some ?v"
    using assms(6) by (simp_all add: data_def)
  have ne: "data \<noteq> []" using n(1) by auto
  with n have last: "last data = Some ?v" by (simp add: last_conv_nth)
  have cfg: "AppConfiguration_deserialize (config_string ?m) = Inr ?m"
    using assms(2) by (simp add: fields_ok_def config_roundtrip)
  have "JobDescription_deserialize ?v r = deserialize_latest (r\<lparr>jd_data_per_revision := data\<rparr>)"
    using assms(1) by (simp add: JobDescription_deserialize_def prepareRevision_def idx grow_def data_def)
  with ne last show ?thesis
    using assms read_metadata_metadata [OF assms(2,3) _ refl, of pl "r\<lparr>jd_data_per_revision := data\<rparr>"] n
    by (simp add: deserialize_latest_last cfg received_def same_fields_def revision_bytes_def
        getRevisionData_def)
qed

lemma received_access:
  assumes "received r d m v"
  shows "getTransferSize (jd_revision d) r = Inr (length v)"
    and "getFormulaPayloadSize (jd_revision d) r = Inr (jd_f_size d)"
    and "getAssumptionsSize (jd_revision d) r = Inr (jd_a_size d)"
    and "getFormulaPayload (jd_revision d) r = Inr (length (metadata (config_string m) d))"
    and "getAssumptionsPayload (jd_revision d) r =
      Inr (length (metadata (config_string m) d) + 4 * unat (jd_f_size d))"
proof -
  obtain pl where v: "v = metadata (config_string m) d @ pl"
    and bytes: "revision_bytes (jd_revision d) r = Inr v" and m: "jd_app_config r = m"
    using assms by (auto simp: received_def)
  have size: "nat (getMetadataSize r) = length (metadata (config_string m) d)"
    using length_metadata [of m d] by (simp add: getMetadataSize_def m)
  show fs: "getFormulaPayloadSize (jd_revision d) r = Inr (jd_f_size d)"
    by (simp add: getFormulaPayloadSize_def bytes v drop_metadata(2) del: drop_append append_assoc)
  show "getAssumptionsSize (jd_revision d) r = Inr (jd_a_size d)"
    by (simp add: getAssumptionsSize_def bytes v drop_metadata(3) del: drop_append append_assoc)
  show "getTransferSize (jd_revision d) r = Inr (length v)"
    by (simp add: getTransferSize_def bytes)
  show "getFormulaPayload (jd_revision d) r = Inr (length (metadata (config_string m) d))"
    by (simp add: getFormulaPayload_def bytes size)
  show "getAssumptionsPayload (jd_revision d) r =
      Inr (length (metadata (config_string m) d) + 4 * unat (jd_f_size d))"
    by (simp add: getAssumptionsPayload_def fs size)
qed

section \<open>Properties\<close>

text \<open>
  Property (C11): a revision survives the transfer to another process. Whatever literals and
  assumptions a parser adds between \<open>beginInitialization\<close> and \<open>endInitialization\<close> (where preloaded
  literals are only used when no assumption was added explicitly), the bytes of the revision, read by a
  process that knows no later revision, restore all scalar fields, the counters, the checksum and the
  configuration, and the formula and assumption pointers of the receiver lead to exactly the literals and
  the assumptions. No assertion fails and no copy leaves the vector on the way.
\<close>

theorem description_survives_transfer:
  assumes "0 \<le> revision" "int32 revision" "fields_ok d"
    and "length (jd_data_per_revision r) \<le> nat revision + 1"
    and "fs = lits @ jd_preloaded_literals d" "as = asms @ jd_preloaded_assumptions d"
    and "asms = [] \<or> jd_preloaded_literals d = []"
    and "\<forall>x \<in> set (fs @ as). int32 x" "length fs < 2 ^ 64" "length as < 2 ^ 64"
  shows "\<exists>d' v r' p q n k. build_revision revision lits asms d = Inr d'
    \<and> getRevisionData revision d' = Inr (Some v)
    \<and> JobDescription_deserialize v r = Inr r'
    \<and> same_fields d r' \<and> jd_app_config r' = jd_app_config d
    \<and> jd_revision r' = revision \<and> jd_checksum r' = jd_checksum d'
    \<and> jd_f_size r' = word_of_nat (length fs) \<and> jd_a_size r' = word_of_nat (length as)
    \<and> getTransferSize revision r' = Inr (length v)
    \<and> getFormulaPayloadSize revision r' = Inr n \<and> getFormulaPayload revision r' = Inr p
    \<and> payload_ints v p n = Some fs
    \<and> getAssumptionsSize revision r' = Inr k \<and> getAssumptionsPayload revision r' = Inr q
    \<and> payload_ints v q k = Some as"
proof -
  obtain d' where d': "build_revision revision lits asms d = Inr d'"
    and b: "built revision (metadata (config_string (jd_app_config d)) d') fs as d d'"
    using build_revision_built [OF assms(1,7)] unfolding assms(5,6) by blast
  let ?m = "metadata (config_string (jd_app_config d)) d'"
  let ?v = "?m @ concat (map put_int fs) @ concat (map put_int as)"
  from b have v: "getRevisionData revision d' = Inr (Some ?v)" and same: "same_fields d d'"
    and rev: "jd_revision d' = revision"
    and sizes: "jd_f_size d' = word_of_nat (length fs)" "jd_a_size d' = word_of_nat (length as)"
    using assms(1) by (auto simp: built_def getRevisionData_def)
  from deserialize_metadata [OF assms(1,3) same rev assms(2,4)] obtain r' where
    r': "JobDescription_deserialize ?v r = Inr r'" "received r' d' (jd_app_config d) ?v"
    by blast
  note acc = received_access [OF r'(2)] and unat = unat_of_nat [of "length fs", where 'a = 64]
  let ?p = "length ?m" and ?q = "length (?m @ concat (map put_int fs))"
  have "payload_ints ?v ?p (jd_f_size d') = Some fs" "payload_ints ?v ?q (jd_a_size d') = Some as"
    using payload_at [of fs ?p ?m] payload_at [of as ?q "?m @ concat (map put_int fs)" "[]"] assms(8-10)
    by (simp_all add: sizes)
  moreover have "getAssumptionsPayload revision r' = Inr ?q"
    using acc assms(9) unat by (simp add: rev sizes int_field.length_concat_put)
  moreover have "same_fields d r'" using r'(2) same by (auto simp: received_def same_fields_def)
  ultimately show ?thesis
    using d' v r' acc rev sizes
    by (intro exI [of _ d'] exI [of _ ?v] exI [of _ r'] exI [of _ ?p] exI [of _ ?q]
          exI [of _ "jd_f_size d'"] exI [of _ "jd_a_size d'"]) (auto simp: received_def)
qed

definition sample_description :: job_description where
  "sample_description =
     (JobDescription 7 1065353216 INCREMENTAL_SAT False)
       \<lparr>jd_app_config := [(''cubes'', ''8''), (''diversify'', ''yes=1'')], jd_num_vars := 3\<rparr>"

theorem description_survives_transfer_witness:
  "\<exists>d' v r'. build_revision 0 [1, -2, 0, 3, 0] [-3] sample_description = Inr d'
    \<and> getRevisionData 0 d' = Inr (Some v) \<and> JobDescription_deserialize v (JobDescription 0 0 DUMMY False) = Inr r'
    \<and> jd_app_config r' = [(''cubes'', ''8''), (''diversify'', ''yes=1'')] \<and> jd_f_size r' = 5"
proof -
  have "fields_ok sample_description" by code_simp
  then show ?thesis
    using description_survives_transfer [of 0 sample_description "JobDescription 0 0 DUMMY False"
        "[1, -2, 0, 3, 0]" "[1, -2, 0, 3, 0]" "[-3]" "[-3]"]
    by (auto simp: int32_def JobDescription_def sample_description_def)
qed

text \<open>
  Property (C31): the pointer to a formula is computed from the configuration the object holds now, not
  from the one the revision was written with: for a revision that was written with configuration \<open>m\<close>, it
  is off by the difference between the serialized sizes of the two configurations. It leads to the
  formula exactly when the sizes agree, as they do for the revision read last.
\<close>

theorem formula_pointer_offset:
  assumes "revision_bytes revision r = Inr (metadata (config_string m) d @ payload)"
  shows "\<exists>p. getFormulaPayload revision r = Inr p
    \<and> int p = int (length (metadata (config_string m) d)) + (getSerializedSize (jd_app_config r) - getSerializedSize m)"
proof -
  have "getFormulaPayload revision r = Inr (nat (getMetadataSize r))"
    by (simp add: getFormulaPayload_def assms)
  then show ?thesis
    using getSerializedSize_nonneg [of "jd_app_config r"] length_metadata [of m d]
    by (simp add: getMetadataSize_def)
qed

text \<open>One revision with an empty configuration, and then the configuration is exchanged.\<close>

definition reconfigured :: job_description where
  "reconfigured =
     sample_description\<lparr>
       jd_data_per_revision := [Some (metadata (config_string []) sample_description @ put_int 1 @ put_int 0)],
       jd_app_config := [(''k'', ''v'')]\<rparr>"

theorem formula_pointer_offset_witness:
  "length (metadata (config_string []) sample_description) = 76 \<and> getFormulaPayload 0 reconfigured = Inr 81"
proof -
  have bytes: "revision_bytes 0 reconfigured =
     Inr (metadata (config_string []) sample_description @ put_int 1 @ put_int 0)"
    by (simp add: revision_bytes_def getRevisionData_def reconfigured_def)
  have "length (metadata (config_string []) sample_description) = 76"
    using length_metadata [of "[]" sample_description] by (simp add: getSerializedSize_def)
  with formula_pointer_offset [OF bytes] show ?thesis
    by (auto simp: reconfigured_def getSerializedSize_def)
qed

lemma config_survives_transfer:
  assumes "config_ok m"
  shows "\<exists>s. AppConfiguration_serialize m = Inr s \<and> int (length s) = getSerializedSize m
    \<and> AppConfiguration_deserialize s = Inr m"
  using config_roundtrip [OF assms] length_config_string by simp

end
