(* ===== verification/Job_Result.thy ===== *)
theory Job_Result
  imports Byte_Codec
begin

text \<open>
  \<open>JobResult\<close> (src/src/data/job_result.hpp and .cpp): the outcome of a job. The solution lives either in
  the vector \<open>solution\<close> or, once the object was built for sending or from received bytes, only in
  \<open>packedData\<close>, a full serialization that the accessors read in place.
\<close>

record job_result =
  jr_id :: int
  jr_revision :: int
  jr_result :: int
  jr_solution :: "int list"
  jr_packedData :: "byte list"

definition JobResult_header :: "job_result \<Rightarrow> byte list" where
  "JobResult_header r = put_int (jr_id r) @ put_int (jr_result r) @ put_int (jr_revision r)"

text \<open>The constructor from received bytes; \<open>revision\<close> and \<open>result\<close> have no default.\<close>

definition JobResult_fromPacked :: "byte list \<Rightarrow> job_result option" where
  "JobResult_fromPacked packed =
     do {
       (i, bs) \<leftarrow> rd_int packed;
       (res, bs) \<leftarrow> rd_int bs;
       (rev, bs) \<leftarrow> rd_int bs;
       Some \<lparr>jr_id = i, jr_revision = rev, jr_result = res, jr_solution = [],
             jr_packedData = packed\<rparr>
     }"

definition JobResult_serialize :: "job_result \<Rightarrow> byte list" where
  "JobResult_serialize r = JobResult_header r @ concat (map put_int (jr_solution r))"

definition JobResult_deserialize :: "job_result \<Rightarrow> byte list \<Rightarrow> job_result option" where
  "JobResult_deserialize r packed =
     do {
       (i, bs) \<leftarrow> rd_int packed;
       (res, bs) \<leftarrow> rd_int bs;
       (rev, bs) \<leftarrow> rd_int bs;
       sol \<leftarrow> get_array 4 get_int bs;
       Some (r\<lparr>jr_id := i, jr_result := res, jr_revision := rev, jr_solution := sol\<rparr>)
     }"

text \<open>\<open>updateSerialization\<close> asserts that the header fits and overwrites it in place.\<close>

definition JobResult_updateSerialization :: "job_result \<Rightarrow> job_result res" where
  "JobResult_updateSerialization r =
     check (length (jr_packedData r) \<ge> 12)
       (Inr (r\<lparr>jr_packedData := JobResult_header r @ drop 12 (jr_packedData r)\<rparr>))"

definition JobResult_setSolution :: "int list \<Rightarrow> job_result \<Rightarrow> job_result" where
  "JobResult_setSolution sol r = r\<lparr>jr_solution := sol\<rparr>"

definition JobResult_setSolutionToSerialize :: "int list \<Rightarrow> job_result \<Rightarrow> job_result" where
  "JobResult_setSolutionToSerialize sol r =
     r\<lparr>jr_packedData := JobResult_header r @ concat (map put_int sol)\<rparr>"

text \<open>\<open>packedData.size()/sizeof(int) - 3\<close> is computed on \<open>size_t\<close>; the object's packed data always
  holds the three header integers.\<close>

definition JobResult_getSolutionSize :: "job_result \<Rightarrow> nat" where
  "JobResult_getSolutionSize r =
     (if jr_packedData r \<noteq> [] then length (jr_packedData r) div 4 - 3 else length (jr_solution r))"

definition JobResult_getSolution :: "job_result \<Rightarrow> nat \<Rightarrow> int res" where
  "JobResult_getSolution r pos =
     check (pos < JobResult_getSolutionSize r)
       (if jr_packedData r \<noteq> []
        then (case rd_int (drop ((3 + pos) * 4) (jr_packedData r)) of
                None \<Rightarrow> Inl Undefined_behaviour
              | Some (x, _) \<Rightarrow> Inr x)
        else Inr (jr_solution r ! pos))"

definition JobResult_empty :: job_result where
  "JobResult_empty =
     \<lparr>jr_id = 0, jr_revision = 0, jr_result = 0, jr_solution = [], jr_packedData = []\<rparr>"

definition JobResult_extractSolution :: "job_result \<Rightarrow> int list option" where
  "JobResult_extractSolution r =
     (if jr_packedData r \<noteq> []
      then map_option jr_solution (JobResult_deserialize JobResult_empty (jr_packedData r))
      else Some (jr_solution r))"

definition JobResult_ok :: "job_result \<Rightarrow> bool" where
  "JobResult_ok r \<longleftrightarrow>
     int32 (jr_id r) \<and> int32 (jr_revision r) \<and> int32 (jr_result r)
     \<and> (\<forall>x \<in> set (jr_solution r). int32 x) \<and> jr_packedData r = []"

section \<open>Lemmas\<close>

lemma length_JobResult_header [simp, codec_simps]: "length (JobResult_header r) = 12"
  by (simp add: JobResult_header_def)

lemma JobResult_header_not_Nil [simp]: "JobResult_header r \<noteq> []"
  using length_JobResult_header [of r] by (metis list.size(3) zero_neq_numeral)

lemma JobResult_deserialize_header:
  assumes "int32 (jr_id r)" "int32 (jr_revision r)" "int32 (jr_result r)" "\<forall>x \<in> set sol. int32 x"
  shows "JobResult_deserialize r0 (JobResult_header r @ concat (map put_int sol)) =
    Some (r0\<lparr>jr_id := jr_id r, jr_result := jr_result r, jr_revision := jr_revision r,
      jr_solution := sol\<rparr>)"
  using assms
  by (simp add: JobResult_header_def JobResult_deserialize_def int_field.get_array_concat)

interpretation job_result_msg:
  serializable JobResult_serialize "JobResult_deserialize JobResult_empty" JobResult_ok
  by unfold_locales
    (simp add: JobResult_serialize_def JobResult_ok_def JobResult_deserialize_header,
      simp add: JobResult_empty_def)

lemma drop_put_ints:
  "drop (4 * n) (concat (map put_int xs)) = concat (map put_int (drop n xs))"
proof (induction n arbitrary: xs)
  case (Suc n)
  then show ?case
  proof (cases xs)
    case (Cons y ys)
    have "drop (4 * Suc n) (put_int y @ concat (map put_int ys)) =
        drop (4 * n) (concat (map put_int ys))"
      by simp
    with Cons Suc show ?thesis by simp
  qed simp
qed simp

lemma getSolution_packed:
  assumes "pos < length sol" "int32 (sol ! pos)"
  shows "JobResult_getSolution (JobResult_setSolutionToSerialize sol r) pos = Inr (sol ! pos)"
proof -
  let ?p = "JobResult_header r @ concat (map put_int sol)"
  have "drop ((3 + pos) * 4) ?p = concat (map put_int (drop pos sol))"
    using drop_put_ints [of pos sol] by (simp add: algebra_simps)
  moreover have "drop pos sol = sol ! pos # drop (Suc pos) sol"
    using assms(1) by (simp add: Cons_nth_drop_Suc)
  ultimately have "rd_int (drop ((3 + pos) * 4) ?p)
      = Some (sol ! pos, concat (map put_int (drop (Suc pos) sol)))"
    using assms(2) by simp
  then show ?thesis
    using assms(1)
    by (simp add: JobResult_getSolution_def JobResult_setSolutionToSerialize_def
        JobResult_getSolutionSize_def int_field.length_concat_put)
qed

section \<open>Properties\<close>



end
