(* ===== verification/Child_Interface.thy ===== *)
theory Child_Interface
  imports Scheduling_Update
begin

text \<open>
  The negotiation with one potential child of a job tree node (class \<open>ChildInterface\<close> in
  src/src/scheduling/session.hpp): which inactive node is asked to come back, when the search falls
  back to an undirected request, and which nodes are handed over to a child that joined. Messages are
  returned as a list, in the order they are sent.
\<close>

section \<open>State, directives and messages\<close>

record child_interface =
  ci_jobId :: int
  ci_nodes :: node_list
  ci_epoch :: int
  ci_volume :: int
  ci_childIndex :: int
  ci_childRank :: int
  ci_numQueriedJobNodes :: int
  ci_childHasNodes :: bool

datatype msg_directive = DO_NOTHING | EMIT_DIRECTED_REQUEST | EMIT_UNDIRECTED_REQUEST

text \<open>Outgoing messages of the scheduler, with the destination rank, and the two callbacks through
  which it makes the worker emit job requests.\<close>

datatype sched_event =
    MSG_SCHED_RELEASE_FROM_WAITING int "int list"
  | MSG_SCHED_INITIALIZE_CHILD_WITH_NODES int job_scheduling_update
  | MSG_SCHED_RETURN_NODES int job_scheduling_update
  | Emit_Directed_Request int int int
  | Emit_Undirected_Request int int

definition ChildInterface :: "int \<Rightarrow> node_list \<Rightarrow> int \<Rightarrow> child_interface" where
  "ChildInterface jobId nodes childIndex =
     \<lparr>ci_jobId = jobId, ci_nodes = nodes, ci_epoch = -1, ci_volume = -1, ci_childIndex = childIndex,
      ci_childRank = -1, ci_numQueriedJobNodes = 0, ci_childHasNodes = False\<rparr>"

definition wantsChild :: "child_interface \<Rightarrow> bool" where
  "wantsChild ci \<longleftrightarrow> ci_childIndex ci < ci_volume ci"

section \<open>Helpers\<close>

definition to_be_notified :: "int \<Rightarrow> inactive_job_node \<Rightarrow> bool" where
  "to_be_notified particularIndex n \<longleftrightarrow>
     ijn_status n = AVAILABLE \<and> (particularIndex = -1 \<or> ijn_originalIndex n = particularIndex)"

definition notifyRemainingInactiveNodes ::
    "int \<Rightarrow> child_interface \<Rightarrow> child_interface \<times> sched_event list" where
  "notifyRemainingInactiveNodes particularIndex ci =
     (ci\<lparr>ci_nodes := map (\<lambda>n. if to_be_notified particularIndex n then n\<lparr>ijn_status := BUSY\<rparr> else n)
                         (ci_nodes ci)\<rparr>,
      map (\<lambda>n. MSG_SCHED_RELEASE_FROM_WAITING (ijn_rank n) [ci_jobId ci, ijn_originalIndex n, ci_epoch ci])
        (filter (to_be_notified particularIndex) (ci_nodes ci)))"

fun recruit_loop :: "child_interface \<Rightarrow> node_list \<Rightarrow> inactive_job_node option" where
  "recruit_loop ci [] = None"
| "recruit_loop ci (n # ns) =
     (if \<not> ci_numQueriedJobNodes ci < 4 then None
      else if ijn_status n \<noteq> AVAILABLE then recruit_loop ci ns
      else if ijn_originalIndex n \<noteq> ci_childIndex ci then recruit_loop ci ns
      else Some n)"

definition recruitChild :: "child_interface \<Rightarrow> msg_directive \<times> child_interface \<times> sched_event list" where
  "recruitChild ci =
     (case recruit_loop ci (ci_nodes ci) of
        Some n \<Rightarrow>
          (EMIT_DIRECTED_REQUEST,
           ci\<lparr>ci_childRank := ijn_rank n, ci_numQueriedJobNodes := ci_numQueriedJobNodes ci + 1\<rparr>, [])
      | None \<Rightarrow>
          (EMIT_UNDIRECTED_REQUEST, notifyRemainingInactiveNodes (ci_childIndex ci) ci))"

text \<open>The scan starts at \<open>lower_bound\<close> of the node that would be the newest possible one.\<close>

fun find_node :: "int \<Rightarrow> int \<Rightarrow> node_list \<Rightarrow> inactive_job_node option" where
  "find_node rank index [] = None"
| "find_node rank index (n # ns) =
     (if ijn_originalIndex n \<noteq> index then None
      else if ijn_rank n \<noteq> rank then find_node rank index ns
      else Some n)"

definition findAndUpdateNode ::
    "int \<Rightarrow> int \<Rightarrow> int \<Rightarrow> node_status \<Rightarrow> child_interface \<Rightarrow> bool \<times> child_interface" where
  "findAndUpdateNode rank index epoch status ci =
     (let node = InactiveJobNode rank index INT_MAX in
      case find_node rank index (dropWhile (\<lambda>n. node_key n < node_key node) (ci_nodes ci)) of
        None \<Rightarrow> (False, ci)
      | Some n \<Rightarrow>
          (True, ci\<lparr>ci_nodes := nodes_insert (n\<lparr>ijn_lastEpoch := epoch, ijn_status := status\<rparr>)
                                (nodes_erase n (ci_nodes ci))\<rparr>))"

section \<open>Events of the negotiation\<close>

definition reset_availability :: "int \<Rightarrow> inactive_job_node \<Rightarrow> inactive_job_node" where
  "reset_availability newVolume n =
     (let n = (if ijn_status n = BUSY then n\<lparr>ijn_status := AVAILABLE\<rparr> else n)
      in if ijn_status n = AVAILABLE \<and> ijn_originalIndex n \<ge> newVolume
         then n\<lparr>ijn_status := BUSY\<rparr> else n)"

definition handleBalancingUpdate ::
    "int \<Rightarrow> int \<Rightarrow> bool \<Rightarrow> child_interface \<Rightarrow> msg_directive \<times> child_interface \<times> sched_event list" where
  "handleBalancingUpdate newEpoch newVolume hasChild ci =
     (if newEpoch \<le> ci_epoch ci then (DO_NOTHING, ci, [])
      else
        let ci = ci\<lparr>ci_numQueriedJobNodes := 0, ci_epoch := newEpoch, ci_volume := newVolume,
                    ci_nodes := map (reset_availability newVolume) (ci_nodes ci)\<rparr>
        in if \<not> hasChild \<and> wantsChild ci then recruitChild ci
           else (DO_NOTHING, notifyRemainingInactiveNodes (-1) ci))"

definition addJobNodesFromSuspendedChild :: "node_list \<Rightarrow> child_interface \<Rightarrow> child_interface" where
  "addJobNodesFromSuspendedChild newNodes ci =
     ci\<lparr>ci_nodes := mergePreferringNewer (ci_nodes ci) newNodes, ci_childHasNodes := False\<rparr>"

definition handleRejectionOfPotentialChild ::
    "int \<Rightarrow> int \<Rightarrow> bool \<Rightarrow> bool \<Rightarrow> bool \<Rightarrow> child_interface
       \<Rightarrow> (msg_directive \<times> child_interface \<times> sched_event list) res" where
  "handleRejectionOfPotentialChild index epoch lost hasChild suspended ci =
     check (index = ci_childIndex ci) (Inr
       (let (found, ci) = findAndUpdateNode (ci_childRank ci) (ci_childIndex ci) epoch
                            (if lost then LOST else BUSY) ci
        in if \<not> hasChild \<and> \<not> suspended \<and> wantsChild ci then recruitChild ci
           else (DO_NOTHING, ci, [])))"

definition child_update :: "child_interface \<Rightarrow> int \<Rightarrow> node_list \<Rightarrow> job_scheduling_update" where
  "child_update ci epoch sub =
     \<lparr>su_jobId = ci_jobId ci, su_destinationIndex = ci_childIndex ci, su_epoch = epoch,
      su_volume = ci_volume ci, su_inactiveJobNodes = cleanUpStatuses sub\<rparr>"

text \<open>\<open>None\<close> (inside a successful result) would be a descent through the tree that does not end.\<close>

definition session_handleChildJoining ::
    "int \<Rightarrow> int \<Rightarrow> int \<Rightarrow> child_interface \<Rightarrow> (child_interface \<times> sched_event list) option res" where
  "session_handleChildJoining source index epoch ci =
     check (index = ci_childIndex ci) (Inr
       (let ci = ci\<lparr>ci_childRank := source, ci_childHasNodes := True\<rparr>
        in case extractSubtree (ci_nodes ci) index True of
             None \<Rightarrow> None
           | Some (sub, rest) \<Rightarrow>
               (let ci = ci\<lparr>ci_nodes := rest\<rparr>;
                    out = [MSG_SCHED_INITIALIZE_CHILD_WITH_NODES source (child_update ci epoch sub)];
                    (found, ci) = findAndUpdateNode source index epoch BUSY ci;
                    (ci, released) = notifyRemainingInactiveNodes (-1) ci
                in Some (ci, out @ released))))"

definition removeNode :: "int \<Rightarrow> int \<Rightarrow> int \<Rightarrow> child_interface \<Rightarrow> child_interface" where
  "removeNode rank epoch index ci =
     ci\<lparr>ci_nodes := nodes_erase (InactiveJobNode rank index epoch) (ci_nodes ci)\<rparr>"

section \<open>The invariant of a session\<close>

text \<open>The nodes form a set with at most one node per rank, their epochs are machine integers, and
  at most four nodes have been queried in the current epoch.\<close>

definition ci_inv :: "child_interface \<Rightarrow> bool" where
  "ci_inv ci \<longleftrightarrow>
     node_set (ci_nodes ci) \<and> inj_on ijn_rank (set (ci_nodes ci))
     \<and> (\<forall>n \<in> set (ci_nodes ci). ijn_lastEpoch n \<le> INT_MAX)
     \<and> 0 \<le> ci_numQueriedJobNodes ci \<and> ci_numQueriedJobNodes ci \<le> 4"

lemma ci_invD:
  assumes "ci_inv ci"
  shows "node_set (ci_nodes ci)" "inj_on ijn_rank (set (ci_nodes ci))"
    "\<And>n. n \<in> set (ci_nodes ci) \<Longrightarrow> ijn_lastEpoch n \<le> INT_MAX"
    "0 \<le> ci_numQueriedJobNodes ci" "ci_numQueriedJobNodes ci \<le> 4"
  using assms by (auto simp: ci_inv_def)

text \<open>Changing only statuses keeps the node part of the invariant.\<close>

lemma status_map_inv:
  assumes "\<And>n. \<exists>s. f n = n\<lparr>ijn_status := s\<rparr>"
  shows "node_set (map f xs) = node_set xs"
    and "inj_on ijn_rank (set xs) \<Longrightarrow> inj_on ijn_rank (set (map f xs))"
    and "ijn_rank (f n) = ijn_rank n" "ijn_originalIndex (f n) = ijn_originalIndex n"
      "ijn_lastEpoch (f n) = ijn_lastEpoch n"
proof -
  have eq: "node_key (f n) = node_key n" "ijn_rank (f n) = ijn_rank n"
    "ijn_originalIndex (f n) = ijn_originalIndex n" "ijn_lastEpoch (f n) = ijn_lastEpoch n" for n
    using assms [of n] by (auto simp: node_key_def)
  show "node_set (map f xs) = node_set xs" by (simp add: o_def eq)
  show "inj_on ijn_rank (set xs) \<Longrightarrow> inj_on ijn_rank (set (map f xs))"
    by (auto simp: inj_on_def eq)
  show "ijn_rank (f n) = ijn_rank n" "ijn_originalIndex (f n) = ijn_originalIndex n"
    "ijn_lastEpoch (f n) = ijn_lastEpoch n" by (rule eq)+
qed

lemma notify_status: "\<exists>s. (if to_be_notified i n then n\<lparr>ijn_status := BUSY\<rparr> else n) = n\<lparr>ijn_status := s\<rparr>"
  by (cases n) (auto intro: exI [of _ "ijn_status n"])

lemma reset_status: "\<exists>s. reset_availability v n = n\<lparr>ijn_status := s\<rparr>"
  by (cases n) (auto simp: reset_availability_def Let_def)

lemma ci_inv_status_map:
  assumes "\<And>n. \<exists>s. f n = n\<lparr>ijn_status := s\<rparr>" "ci_inv ci" "0 \<le> k" "k \<le> 4"
    "ci_nodes ci' = map f (ci_nodes ci)" "ci_numQueriedJobNodes ci' = k"
  shows "ci_inv ci'"
proof -
  have "node_set (map f (ci_nodes ci))" "inj_on ijn_rank (set (map f (ci_nodes ci)))"
    using status_map_inv(1,2) [OF assms(1)] ci_invD(1,2) [OF assms(2)] by blast+
  moreover have "ijn_lastEpoch n \<le> INT_MAX" if "n \<in> set (map f (ci_nodes ci))" for n
    using that status_map_inv(5) [OF assms(1)] ci_invD(3) [OF assms(2)] by auto
  ultimately show ?thesis using assms(3-6) unfolding ci_inv_def by metis
qed

lemma notify_inv: "ci_inv ci \<Longrightarrow> ci_inv (fst (notifyRemainingInactiveNodes i ci))"
  by (rule ci_inv_status_map [OF notify_status [of i], where ci = ci])
    (simp_all add: notifyRemainingInactiveNodes_def ci_invD)

lemma recruit_loop_Some:
  "recruit_loop ci ns = Some n \<Longrightarrow>
     n \<in> set ns \<and> ijn_status n = AVAILABLE \<and> ijn_originalIndex n = ci_childIndex ci
     \<and> ci_numQueriedJobNodes ci < 4"
  by (induction ns) (auto split: if_splits)

lemma recruit_loop_None:
  "recruit_loop ci ns = None \<Longrightarrow> ci_numQueriedJobNodes ci < 4 \<Longrightarrow> n \<in> set ns \<Longrightarrow>
     ijn_originalIndex n = ci_childIndex ci \<Longrightarrow> ijn_status n \<noteq> AVAILABLE"
  by (induction ns) (auto split: if_splits)

lemma recruit_inv: "ci_inv ci \<Longrightarrow> ci_inv (fst (snd (recruitChild ci)))"
  using recruit_loop_Some [of ci "ci_nodes ci"] notify_inv [of ci "ci_childIndex ci"]
  by (auto simp: recruitChild_def ci_inv_def split: option.splits prod.splits)

lemma dropWhile_sorted:
  "node_set xs \<Longrightarrow> dropWhile (\<lambda>n. node_key n < K) xs = filter (\<lambda>n. \<not> node_key n < K) xs"
proof (induction xs)
  case (Cons n xs)
  have "filter (\<lambda>m. \<not> node_key m < K) xs = xs" if "\<not> node_key n < K"
    using that Cons.prems by (intro filter_True) (auto intro: order.strict_trans2)
  then show ?case using Cons by auto
qed simp

lemma find_node_iff:
  assumes "sorted (map ijn_originalIndex ns)" "inj_on ijn_rank (set ns)"
    and "\<And>n. n \<in> set ns \<Longrightarrow> index \<le> ijn_originalIndex n"
  shows "find_node rank index ns = Some n \<longleftrightarrow>
    n \<in> set ns \<and> ijn_rank n = rank \<and> ijn_originalIndex n = index"
  using assms
proof (induction ns)
  case (Cons m ns)
  show ?case
  proof (cases "ijn_originalIndex m = index")
    case True
    have "find_node rank index ns = Some n \<longleftrightarrow>
        n \<in> set ns \<and> ijn_rank n = rank \<and> ijn_originalIndex n = index"
      using Cons by (auto simp: inj_on_def)
    then show ?thesis using True Cons.prems(2) by (auto simp: inj_on_def)
  next
    case False
    then have "index < ijn_originalIndex m" using Cons.prems(3) [of m] by simp
    then show ?thesis using Cons.prems(1) False by auto
  qed
qed simp

lemma find_node_lower_bound:
  assumes "ci_inv ci"
  shows "find_node rank index (dropWhile (\<lambda>n. node_key n < node_key (InactiveJobNode rank index INT_MAX))
      (ci_nodes ci)) = Some n \<longleftrightarrow>
    n \<in> set (ci_nodes ci) \<and> ijn_rank n = rank \<and> ijn_originalIndex n = index"
proof -
  let ?K = "node_key (InactiveJobNode rank index INT_MAX)"
  let ?ns = "filter (\<lambda>n. \<not> node_key n < ?K) (ci_nodes ci)"
  note inv = ci_invD [OF assms]
  have "node_set ?ns" using inv(1) by (rule oset_sorted_filter)
  then have "find_node rank index ?ns = Some n \<longleftrightarrow>
      n \<in> set ?ns \<and> ijn_rank n = rank \<and> ijn_originalIndex n = index"
    using inv(2) by (intro find_node_iff node_set_index_sorted)
      (auto simp: inj_on_def less_node_key_def node_less_def InactiveJobNode_def split: if_splits)
  moreover have "\<not> node_key n < ?K"
    if "n \<in> set (ci_nodes ci)" "ijn_rank n = rank" "ijn_originalIndex n = index"
    using that inv(3) [of n] by (auto simp: less_node_key_def node_less_def InactiveJobNode_def)
  ultimately show ?thesis using dropWhile_sorted [OF inv(1)] by auto
qed

text \<open>What \<open>findAndUpdateNode\<close> does to the set of nodes.\<close>

definition update_of :: "int \<Rightarrow> int \<Rightarrow> int \<Rightarrow> node_status \<Rightarrow> inactive_job_node \<Rightarrow> inactive_job_node" where
  "update_of rank index epoch status n =
     (if ijn_rank n = rank \<and> ijn_originalIndex n = index
      then n\<lparr>ijn_lastEpoch := epoch, ijn_status := status\<rparr> else n)"

lemma update_of_simps [simp]:
  "ijn_rank (update_of r i e st n) = ijn_rank n"
  "ijn_originalIndex (update_of r i e st n) = ijn_originalIndex n"
  by (simp_all add: update_of_def)

lemma findAndUpdateNode_spec:
  assumes "ci_inv ci"
  obtains ns where "findAndUpdateNode r i e st ci =
      (\<exists>n \<in> set (ci_nodes ci). ijn_rank n = r \<and> ijn_originalIndex n = i, ci\<lparr>ci_nodes := ns\<rparr>)"
    and "set ns = update_of r i e st ` set (ci_nodes ci)" and "node_set ns"
proof (cases "\<exists>n \<in> set (ci_nodes ci). ijn_rank n = r \<and> ijn_originalIndex n = i")
  case True
  then obtain n where n: "n \<in> set (ci_nodes ci)" "ijn_rank n = r" "ijn_originalIndex n = i" by auto
  let ?S = "ci_nodes ci"
  let ?n = "n\<lparr>ijn_lastEpoch := e, ijn_status := st\<rparr>"
  let ?ns = "nodes_insert ?n (nodes_erase n ?S)"
  note inv = ci_invD [OF assms]
  have only: "m = n" if "m \<in> set ?S" "ijn_rank m = r" for m
    using that n inv(2) by (auto simp: inj_on_def)
  have rest: "set (nodes_erase n ?S) = set ?S - {n}"
    using oset_key_inj [OF inv(1) _ n(1)] by (auto simp: nodes_erase_def oset_erase_def)
  have "node_key ?n \<notin> node_key ` set (nodes_erase n ?S)"
  proof
    assume "node_key ?n \<in> node_key ` set (nodes_erase n ?S)"
    then obtain m where m: "m \<in> set ?S" "m \<noteq> n" "node_key ?n = node_key m" unfolding rest by auto
    then have "ijn_rank m = r" using n(2) by (simp add: node_key_def)
    then show False using only m by blast
  qed
  then have "set ?ns = insert ?n (set ?S - {n})"
    unfolding nodes_insert_def oset_insert_set [OF nodes_erase_set [OF inv(1), of n], of ?n]
    unfolding rest by (simp only: if_False)
  also have "\<dots> = update_of r i e st ` set ?S"
  proof -
    have "update_of r i e st m = (if m = n then ?n else m)" if "m \<in> set ?S" for m
      using only [OF that] n by (cases "ijn_rank m = r") (auto simp: update_of_def)
    then have "update_of r i e st ` set ?S = (\<lambda>m. if m = n then ?n else m) ` set ?S"
      by (rule image_cong [OF refl])
    then show ?thesis using n(1) by auto
  qed
  finally have "set ?ns = update_of r i e st ` set ?S" .
  moreover have "findAndUpdateNode r i e st ci = (True, ci\<lparr>ci_nodes := ?ns\<rparr>)"
    using find_node_lower_bound [OF assms, of r i n] n by (simp add: findAndUpdateNode_def Let_def)
  moreover have "node_set ?ns" by (intro nodes_insert_set nodes_erase_set inv(1))
  ultimately show ?thesis using that True by simp
next
  case False
  have "find_node r i (dropWhile (\<lambda>n. node_key n < node_key (InactiveJobNode r i INT_MAX)) (ci_nodes ci)) = None"
    using find_node_lower_bound [OF assms, of r i] False by (metis not_None_eq)
  then have "findAndUpdateNode r i e st ci = (False, ci\<lparr>ci_nodes := ci_nodes ci\<rparr>)"
    by (simp add: findAndUpdateNode_def Let_def)
  moreover have "set (ci_nodes ci) = update_of r i e st ` set (ci_nodes ci)"
  proof -
    have "update_of r i e st ` set (ci_nodes ci) = id ` set (ci_nodes ci)"
      using False by (intro image_cong) (auto simp: update_of_def)
    then show ?thesis by simp
  qed
  ultimately show ?thesis using that [of "ci_nodes ci"] False ci_invD(1) [OF assms] by simp
qed

lemma findAndUpdateNode_inv:
  assumes "ci_inv ci" "e \<le> INT_MAX"
  shows "ci_inv (snd (findAndUpdateNode r i e st ci))"
proof -
  obtain ns where ns: "findAndUpdateNode r i e st ci =
      (\<exists>n \<in> set (ci_nodes ci). ijn_rank n = r \<and> ijn_originalIndex n = i, ci\<lparr>ci_nodes := ns\<rparr>)"
    "set ns = update_of r i e st ` set (ci_nodes ci)" "node_set ns"
    using findAndUpdateNode_spec [OF assms(1)] by blast
  have "inj_on ijn_rank (set ns)"
    using ci_invD(2) [OF assms(1)] unfolding ns(2) by (auto simp: inj_on_def)
  then show ?thesis using ns assms ci_invD [OF assms(1)]
    by (auto simp: ci_inv_def update_of_def)
qed

lemma findAndUpdateNode_fields:
  assumes "ci_inv ci"
  shows "set (ci_nodes (snd (findAndUpdateNode r i e st ci))) = update_of r i e st ` set (ci_nodes ci)"
    and "ci_childIndex (snd (findAndUpdateNode r i e st ci)) = ci_childIndex ci"
    and "ci_numQueriedJobNodes (snd (findAndUpdateNode r i e st ci)) = ci_numQueriedJobNodes ci"
    and "ci_volume (snd (findAndUpdateNode r i e st ci)) = ci_volume ci"
    and "ci_jobId (snd (findAndUpdateNode r i e st ci)) = ci_jobId ci"
    and "ci_epoch (snd (findAndUpdateNode r i e st ci)) = ci_epoch ci"
  by (rule findAndUpdateNode_spec [OF assms, of r i e st], simp)+

lemma update_inv: "ci_inv ci \<Longrightarrow> ci_inv (fst (snd (handleBalancingUpdate e v h ci)))"
proof -
  assume inv: "ci_inv ci"
  let ?ci = "ci\<lparr>ci_numQueriedJobNodes := 0, ci_epoch := e, ci_volume := v,
                ci_nodes := map (reset_availability v) (ci_nodes ci)\<rparr>"
  have "ci_inv ?ci" by (rule ci_inv_status_map [OF reset_status [of v] inv, where k = 0]) auto
  then show ?thesis using inv recruit_inv [of ?ci] notify_inv [of ?ci "-1"]
    by (auto simp: handleBalancingUpdate_def Let_def)
qed

lemma rejection_inv:
  assumes "ci_inv ci" "e \<le> INT_MAX" "handleRejectionOfPotentialChild i e lost h susp ci = Inr (d, ci', out)"
  shows "ci_inv ci'"
proof -
  let ?f = "findAndUpdateNode (ci_childRank ci) (ci_childIndex ci) e (if lost then LOST else BUSY) ci"
  have "ci_inv (snd ?f)" by (rule findAndUpdateNode_inv [OF assms(1,2)])
  then show ?thesis using assms(3) recruit_inv [of "snd ?f"]
    by (auto simp: handleRejectionOfPotentialChild_def Let_def split: prod.splits if_splits)
qed

lemma merge_inv:
  assumes "ci_inv ci" "\<forall>n \<in> set ns. ijn_lastEpoch n \<le> INT_MAX"
  shows "ci_inv (addJobNodesFromSuspendedChild ns ci)"
proof -
  let ?xs = "fold nodes_insert ns (ci_nodes ci)"
  have xs: "node_set ?xs" by (rule fold_nodes_insert_set [OF ci_invD(1) [OF assms(1)]])
  have "set (mergePreferringNewer (ci_nodes ci) ns) \<subseteq> set ?xs"
    by (auto simp: mergePreferringNewer_def filterDuplicates_eq [OF xs])
  then have "\<forall>n \<in> set (mergePreferringNewer (ci_nodes ci) ns). ijn_lastEpoch n \<le> INT_MAX"
    using fold_nodes_insert_sub [of ns "ci_nodes ci"] assms ci_invD(3) [OF assms(1)] by blast
  then show ?thesis
    using filterDuplicates_set [OF xs] filterDuplicates_ranks(2) [OF xs] ci_invD(4,5) [OF assms(1)]
    by (simp add: ci_inv_def addJobNodesFromSuspendedChild_def mergePreferringNewer_def)
qed

lemma sub_inv:
  assumes "ci_inv ci" "ci_nodes ci' = filter P (ci_nodes ci)"
    "ci_numQueriedJobNodes ci' = ci_numQueriedJobNodes ci"
  shows "ci_inv ci'"
  using assms oset_sorted_filter [of node_key "ci_nodes ci" P] by (auto simp: ci_inv_def inj_on_def)

lemma remove_inv: "ci_inv ci \<Longrightarrow> ci_inv (removeNode r e i ci)"
  by (erule sub_inv [where P = "\<lambda>n. node_key n \<noteq> node_key (InactiveJobNode r i e)"])
    (auto simp: removeNode_def nodes_erase_def oset_erase_def)

lemma new_session_inv:
  "node_set ns \<Longrightarrow> inj_on ijn_rank (set ns) \<Longrightarrow> \<forall>n \<in> set ns. ijn_lastEpoch n \<le> INT_MAX \<Longrightarrow>
     ci_inv (ChildInterface j ns i)"
  by (simp add: ChildInterface_def ci_inv_def)

section \<open>Recruiting a child\<close>

text \<open>The requests that a chain of rejections (each with its \<open>lost\<close> flag) leads to, up to the point
  where no further inactive node is asked.\<close>

fun negotiate :: "int \<Rightarrow> bool list \<Rightarrow> child_interface \<Rightarrow> int list" where
  "negotiate e [] ci = []"
| "negotiate e (lost # rs) ci =
     (case handleRejectionOfPotentialChild (ci_childIndex ci) e lost False False ci of
        Inr (EMIT_DIRECTED_REQUEST, ci', out) \<Rightarrow> ci_childRank ci' # negotiate e rs ci'
      | _ \<Rightarrow> [])"

definition candidates :: "child_interface \<Rightarrow> int set" where
  "candidates ci = ijn_rank ` {n \<in> set (ci_nodes ci).
     ijn_originalIndex n = ci_childIndex ci \<and> ijn_status n = AVAILABLE}"

lemma recruitChild_cases:
  obtains r where "recruitChild ci = (EMIT_DIRECTED_REQUEST,
      ci\<lparr>ci_childRank := r, ci_numQueriedJobNodes := ci_numQueriedJobNodes ci + 1\<rparr>, [])"
    and "r \<in> candidates ci" "ci_numQueriedJobNodes ci < 4"
  | "recruitChild ci = (EMIT_UNDIRECTED_REQUEST, notifyRemainingInactiveNodes (ci_childIndex ci) ci)"
    and "ci_numQueriedJobNodes ci < 4 \<Longrightarrow> candidates ci = {}"
proof (cases "recruit_loop ci (ci_nodes ci)")
  case None
  then show ?thesis using that(2) recruit_loop_None [OF None]
    by (auto simp: recruitChild_def candidates_def)
next
  case (Some n)
  then show ?thesis using that(1) [of "ijn_rank n"] recruit_loop_Some [OF Some]
    by (auto simp: recruitChild_def candidates_def)
qed

lemma candidates_after_rejection:
  assumes "ci_inv ci" "st \<noteq> AVAILABLE"
  shows "candidates (snd (findAndUpdateNode (ci_childRank ci) (ci_childIndex ci) e st ci)) =
    candidates ci - {ci_childRank ci}"
proof -
  note f = findAndUpdateNode_fields [OF assms(1), of "ci_childRank ci" "ci_childIndex ci" e st]
  have "update_of (ci_childRank ci) (ci_childIndex ci) e st n = n" if "ijn_rank n \<noteq> ci_childRank ci" for n
    using that by (simp add: update_of_def)
  then show ?thesis using assms(2) unfolding candidates_def f(1,2)
    by (fastforce simp: update_of_def image_iff split: if_splits)
qed

lemma negotiate_spec:
  assumes "ci_inv ci" "e \<le> INT_MAX"
  shows "set (negotiate e rs ci) \<subseteq> candidates ci - {ci_childRank ci} \<and> distinct (negotiate e rs ci)
    \<and> int (length (negotiate e rs ci)) \<le> 4 - ci_numQueriedJobNodes ci"
  using assms(1)
proof (induction rs arbitrary: ci)
  case Nil
  then show ?case by (simp add: ci_inv_def)
next
  case (Cons lost rs)
  let ?c = "snd (findAndUpdateNode (ci_childRank ci) (ci_childIndex ci) e (if lost then LOST else BUSY) ci)"
  note f = findAndUpdateNode_fields [OF Cons.prems, of "ci_childRank ci" "ci_childIndex ci" e "if lost then LOST else BUSY"]
  have inv: "ci_inv ?c" by (rule findAndUpdateNode_inv [OF Cons.prems assms(2)])
  have cand: "candidates ?c = candidates ci - {ci_childRank ci}"
    by (rule candidates_after_rejection [OF Cons.prems]) simp
  have rej: "handleRejectionOfPotentialChild (ci_childIndex ci) e lost False False ci =
      Inr (if wantsChild ?c then recruitChild ?c else (DO_NOTHING, ?c, []))"
    by (simp add: handleRejectionOfPotentialChild_def Let_def split: prod.split)
  show ?case
  proof (cases "wantsChild ?c")
    case False
    then show ?thesis using rej Cons.prems by (simp add: ci_inv_def)
  next
    case True
    show ?thesis
    proof (rule recruitChild_cases [of ?c], goal_cases)
      case (1 r)
      let ?d = "?c\<lparr>ci_childRank := r, ci_numQueriedJobNodes := ci_numQueriedJobNodes ?c + 1\<rparr>"
      have "ci_inv ?d" using recruit_inv [OF inv] 1(1) by simp
      note IH = Cons.IH [OF this]
      moreover have "candidates ?d = candidates ?c" by (simp add: candidates_def)
      moreover have "negotiate e (lost # rs) ci = r # negotiate e rs ?d"
        using rej True 1(1) by simp
      ultimately show ?thesis using cand 1(2) f(3) by auto
    next
      case 2
      then show ?thesis using rej True Cons.prems by (simp add: ci_inv_def split: prod.split)
    qed
  qed
qed

text \<open>
  Property (C14): the search for a child in an epoch is bounded and asks sensibly. When a balancing
  update makes a node without child recruit one, then either an undirected request is issued, and this
  only if no inactive node with the child's index is available, or the rank of such a node is asked.
  Every later request of the same epoch, in response to an arbitrary chain of rejections, goes to
  another available node with the child's index that was not asked before, and at most four nodes are
  asked in total.
\<close>
theorem recruiting_asks_at_most_four_candidates:
  assumes "ci_inv ci" "e \<le> INT_MAX" "ci_epoch ci < e" "ci_childIndex ci < v"
    and "handleBalancingUpdate e v False ci = (d, ci', out)"
  defines "avail \<equiv> ijn_rank ` {n \<in> set (ci_nodes ci).
      ijn_originalIndex n = ci_childIndex ci \<and> ijn_status n \<noteq> LOST}"
  shows "d = EMIT_UNDIRECTED_REQUEST \<and> avail = {}
    \<or> d = EMIT_DIRECTED_REQUEST \<and> distinct (ci_childRank ci' # negotiate e rs ci')
      \<and> set (ci_childRank ci' # negotiate e rs ci') \<subseteq> avail
      \<and> length (ci_childRank ci' # negotiate e rs ci') \<le> 4"
proof -
  let ?ci = "ci\<lparr>ci_numQueriedJobNodes := 0, ci_epoch := e, ci_volume := v,
                ci_nodes := map (reset_availability v) (ci_nodes ci)\<rparr>"
  have inv: "ci_inv ?ci" by (rule ci_inv_status_map [OF reset_status [of v] assms(1), where k = 0]) auto
  have cand: "candidates ?ci = avail"
  proof -
    have "reset_availability v n = n\<lparr>ijn_status := if ijn_status n = LOST then LOST else AVAILABLE\<rparr>"
      if "ijn_originalIndex n = ci_childIndex ci" for n
      using that assms(4) by (cases n; cases "ijn_status n") (auto simp: reset_availability_def)
    moreover note status_map_inv(3,4) [OF reset_status [of v]]
    ultimately show ?thesis unfolding avail_def candidates_def by (force simp: image_iff)
  qed
  have rec: "recruitChild ?ci = (d, ci', out)"
    using assms(3-5) by (simp add: handleBalancingUpdate_def Let_def wantsChild_def)
  show ?thesis
  proof (rule recruitChild_cases [of ?ci], goal_cases)
    case (1 r)
    let ?d = "?ci\<lparr>ci_childRank := r, ci_numQueriedJobNodes := ci_numQueriedJobNodes ?ci + 1\<rparr>"
    have "ci_inv ?d" using recruit_inv [OF inv] 1(1) by simp
    then have "set (negotiate e rs ?d) \<subseteq> candidates ?d - {ci_childRank ?d} \<and> distinct (negotiate e rs ?d)
      \<and> int (length (negotiate e rs ?d)) \<le> 4 - ci_numQueriedJobNodes ?d"
      by (rule negotiate_spec [OF _ assms(2)])
    moreover have "candidates ?d = avail" using cand by (simp add: candidates_def)
    ultimately show ?thesis using rec 1 cand by auto
  next
    case 2
    then show ?thesis using rec cand by simp
  qed
qed

theorem recruiting_asks_at_most_four_candidates_witness:
  "let ci = ChildInterface 1 [InactiveJobNode 7 2 3, InactiveJobNode 9 2 1] 2;
       (d, ci', out) = handleBalancingUpdate 4 6 False ci
   in d = EMIT_DIRECTED_REQUEST \<and> distinct (ci_childRank ci' # negotiate 4 [True, False] ci')"
proof -
  let ?ci = "ChildInterface 1 [InactiveJobNode 7 2 3, InactiveJobNode 9 2 1] 2"
  have inv: "ci_inv ?ci"
    by (simp add: ci_inv_def ChildInterface_def InactiveJobNode_def node_key_def less_node_key_def node_less_def)
  obtain d ci' out where h: "handleBalancingUpdate 4 6 False ?ci = (d, ci', out)"
    by (metis prod_cases3)
  have "ijn_rank ` {n \<in> set (ci_nodes ?ci).
      ijn_originalIndex n = ci_childIndex ?ci \<and> ijn_status n \<noteq> LOST} \<noteq> {}"
    by (force simp: ChildInterface_def InactiveJobNode_def)
  then show ?thesis
    using recruiting_asks_at_most_four_candidates [OF inv _ _ _ h, of "[True, False]"] h
    by (auto simp: ChildInterface_def)
qed

section \<open>A child joins\<close>

lemma notify_spec:
  shows "ci_nodes (fst (notifyRemainingInactiveNodes (-1) ci)) =
     map (\<lambda>n. if ijn_status n = AVAILABLE then n\<lparr>ijn_status := BUSY\<rparr> else n) (ci_nodes ci)" (is ?nodes)
  and "snd (notifyRemainingInactiveNodes (-1) ci) =
     map (\<lambda>n. MSG_SCHED_RELEASE_FROM_WAITING (ijn_rank n) [ci_jobId ci, ijn_originalIndex n, ci_epoch ci])
       (filter (\<lambda>n. ijn_status n = AVAILABLE) (ci_nodes ci))" (is ?msgs)
proof -
  have "to_be_notified (-1) = (\<lambda>n. ijn_status n = AVAILABLE)"
    by (intro ext) (simp add: to_be_notified_def)
  then show "?nodes" "?msgs" by (simp_all add: notifyRemainingInactiveNodes_def)
qed

text \<open>
  Property (C18): when a child joins, it is sent exactly the inactive nodes below its index that are not
  lost, all marked available; the others stay with the parent (the joined rank's own node among them,
  now marked busy), no node is left waiting, and precisely the available ones other than the child
  receive a release message.
\<close>
theorem joining_child_gets_its_subtree:
  assumes "ci_inv ci" "0 \<le> ci_childIndex ci" "e \<le> INT_MAX"
  defines "below \<equiv> \<lambda>n. in_subtree (ci_childIndex ci) (ijn_originalIndex n)
      \<and> ijn_originalIndex n \<noteq> ci_childIndex ci"
  shows "\<exists>ci' upd released. session_handleChildJoining source (ci_childIndex ci) e ci =
        Inr (Some (ci', MSG_SCHED_INITIALIZE_CHILD_WITH_NODES source upd # released))
    \<and> su_inactiveJobNodes upd =
        map (\<lambda>n. n\<lparr>ijn_status := AVAILABLE\<rparr>) (filter (\<lambda>n. below n \<and> ijn_status n \<noteq> LOST) (ci_nodes ci))
    \<and> su_destinationIndex upd = ci_childIndex ci \<and> su_epoch upd = e
    \<and> ijn_rank ` set (ci_nodes ci') = ijn_rank ` {n \<in> set (ci_nodes ci). \<not> below n}
    \<and> (\<forall>n \<in> set (ci_nodes ci'). ijn_status n \<noteq> AVAILABLE)
    \<and> set released = {MSG_SCHED_RELEASE_FROM_WAITING (ijn_rank n) [ci_jobId ci, ijn_originalIndex n, ci_epoch ci]
        | n. n \<in> set (ci_nodes ci) \<and> \<not> below n \<and> ijn_status n = AVAILABLE
             \<and> \<not> (ijn_rank n = source \<and> ijn_originalIndex n = ci_childIndex ci)}
    \<and> ci_childHasNodes ci' \<and> ci_childRank ci' = source \<and> ci_inv ci'"
proof -
  let ?i = "ci_childIndex ci"
  let ?sub = "filter below (ci_nodes ci)" and ?rest = "filter (\<lambda>n. \<not> below n) (ci_nodes ci)"
  let ?c = "ci\<lparr>ci_childRank := source, ci_childHasNodes := True, ci_nodes := ?rest\<rparr>"
  let ?f = "snd (findAndUpdateNode source ?i e BUSY ?c)"
  note inv = ci_invD [OF assms(1)]
  have ext: "extractSubtree (ci_nodes ci) ?i True = Some (?sub, ?rest)"
    using extractSubtree_eq [OF inv(1) assms(2), of True] by (simp add: subtree_index_def below_def)
  have c: "ci_inv ?c" by (rule sub_inv [OF assms(1)]) auto
  note f = findAndUpdateNode_fields [OF c, of source ?i e BUSY]
  have fin: "ci_inv ?f" by (rule findAndUpdateNode_inv [OF c assms(3)])
  have ch: "ci_childHasNodes ?f \<and> ci_childRank ?f = source"
    by (simp add: findAndUpdateNode_def Let_def split: option.split)
  have join: "session_handleChildJoining source ?i e ci = Inr (Some (fst (notifyRemainingInactiveNodes (-1) ?f),
      MSG_SCHED_INITIALIZE_CHILD_WITH_NODES source (child_update ?c e ?sub)
        # snd (notifyRemainingInactiveNodes (-1) ?f)))"
    using ext by (simp add: session_handleChildJoining_def Let_def case_prod_beta)
  have upd: "su_inactiveJobNodes (child_update ?c e ?sub) =
      map (\<lambda>n. n\<lparr>ijn_status := AVAILABLE\<rparr>) (filter (\<lambda>n. below n \<and> ijn_status n \<noteq> LOST) (ci_nodes ci))"
    using cleanUpStatuses_eq [OF oset_sorted_filter [OF inv(1)], of below]
    by (simp add: child_update_def conj_commute)
  have ranks: "ijn_rank ` set (ci_nodes (fst (notifyRemainingInactiveNodes (-1) ?f))) =
      ijn_rank ` {n \<in> set (ci_nodes ci). \<not> below n}"
  proof -
    have "ijn_rank ` set (ci_nodes (fst (notifyRemainingInactiveNodes (-1) ?f))) = ijn_rank ` set (ci_nodes ?f)"
      unfolding notify_spec set_map image_image by (intro image_cong) auto
    also have "\<dots> = ijn_rank ` {n \<in> set (ci_nodes ci). \<not> below n}"
      unfolding f(1) by (simp add: image_image)
    finally show ?thesis .
  qed
  have rel: "set (snd (notifyRemainingInactiveNodes (-1) ?f)) =
      {MSG_SCHED_RELEASE_FROM_WAITING (ijn_rank n) [ci_jobId ci, ijn_originalIndex n, ci_epoch ci]
        | n. n \<in> set (ci_nodes ci) \<and> \<not> below n \<and> ijn_status n = AVAILABLE
             \<and> \<not> (ijn_rank n = source \<and> ijn_originalIndex n = ?i)}"
    unfolding notify_spec using f(1,5,6) by (auto simp: update_of_def split: if_splits)
  have busy: "\<forall>n \<in> set (ci_nodes (fst (notifyRemainingInactiveNodes (-1) ?f))). ijn_status n \<noteq> AVAILABLE"
    unfolding notify_spec by auto
  have child: "ci_childHasNodes (fst (notifyRemainingInactiveNodes (-1) ?f))"
    "ci_childRank (fst (notifyRemainingInactiveNodes (-1) ?f)) = source"
    using ch by (simp_all add: notifyRemainingInactiveNodes_def)
  have "su_destinationIndex (child_update ?c e ?sub) = ?i \<and> su_epoch (child_update ?c e ?sub) = e"
    by (simp add: child_update_def)
  then show ?thesis
    using join upd ranks rel busy child notify_inv [OF fin, of "-1"] by blast
qed

theorem joining_child_gets_its_subtree_witness:
  "\<exists>ci' upd released. session_handleChildJoining 9 1 4
      (ChildInterface 1 [InactiveJobNode 7 1 3, InactiveJobNode 8 4 3, InactiveJobNode 5 5 3] 1) =
        Inr (Some (ci', MSG_SCHED_INITIALIZE_CHILD_WITH_NODES 9 upd # released))
    \<and> su_inactiveJobNodes upd = [InactiveJobNode 8 4 3]"
proof -
  let ?ci = "ChildInterface 1 [InactiveJobNode 7 1 3, InactiveJobNode 8 4 3, InactiveJobNode 5 5 3] 1"
  have "ci_inv ?ci"
    by (simp add: ci_inv_def ChildInterface_def InactiveJobNode_def node_key_def less_node_key_def node_less_def)
  from joining_child_gets_its_subtree [OF this, of 4 9] show ?thesis
    by (auto simp: ChildInterface_def InactiveJobNode_def in_subtree.simps)
qed

end
