(* ===== verification/Local_Scheduler.thy ===== *)
theory Local_Scheduler
  imports Child_Interface Job_Tree
begin

text \<open>
  The scheduler that an active node of a job tree runs for its two children (class \<open>LocalScheduler\<close> in
  src/src/scheduling/local_scheduler.hpp): it is initialized with the inactive nodes below it, reacts
  to volume updates, and on suspension waits for the nodes of its children before it returns all of
  them, and itself, to its parent. The root can resume instead. Sessions are null pointers or objects;
  a dereferenced null pointer is undefined behaviour. Messages and callback invocations are returned.
\<close>

section \<open>State\<close>

text \<open>\<open>ls_my_rank\<close> stands for \<open>MyMpi::rank(MPI_COMM_WORLD)\<close>.\<close>

record local_scheduler =
  ls_my_rank :: int
  ls_job_id :: int
  ls_index :: int
  ls_parent_rank :: int
  ls_parent_index :: int
  ls_left_child_index :: int
  ls_right_child_index :: int
  ls_left :: "child_interface option"
  ls_right :: "child_interface option"
  ls_epoch_of_last_suspension :: int
  ls_last_update_epoch :: int
  ls_last_update_volume :: int
  ls_suspending :: bool
  ls_suspended :: bool
  ls_resuming :: bool

type_synonym ls_result = "(local_scheduler \<times> sched_event list) res"

definition LocalScheduler :: "int \<Rightarrow> int \<Rightarrow> job_tree \<Rightarrow> local_scheduler res" where
  "LocalScheduler myRank jobId t =
     res_bind (getParentNodeRank t) (\<lambda>parentRank.
       Inr \<lparr>ls_my_rank = myRank, ls_job_id = jobId, ls_index = jt_index t, ls_parent_rank = parentRank,
            ls_parent_index = getParentIndex t, ls_left_child_index = getLeftChildIndex t,
            ls_right_child_index = getRightChildIndex t, ls_left = None, ls_right = None,
            ls_epoch_of_last_suspension = -1, ls_last_update_epoch = -1, ls_last_update_volume = -1,
            ls_suspending = False, ls_suspended = True, ls_resuming = False\<rparr>)"

definition isActive :: "local_scheduler \<Rightarrow> bool" where
  "isActive s \<longleftrightarrow> \<not> ls_suspended s \<and> \<not> ls_suspending s"

definition canCommit :: "local_scheduler \<Rightarrow> bool" where
  "canCommit s \<longleftrightarrow> ls_suspended s"

definition no_sessions :: "local_scheduler \<Rightarrow> local_scheduler" where
  "no_sessions s = s\<lparr>ls_left := None, ls_right := None\<rparr>"

section \<open>Sessions\<close>

datatype side = Left_Session | Right_Session

definition session :: "side \<Rightarrow> local_scheduler \<Rightarrow> child_interface option" where
  "session d s = (case d of Left_Session \<Rightarrow> ls_left s | Right_Session \<Rightarrow> ls_right s)"

definition set_session :: "side \<Rightarrow> child_interface \<Rightarrow> local_scheduler \<Rightarrow> local_scheduler" where
  "set_session d ci s =
     (case d of Left_Session \<Rightarrow> s\<lparr>ls_left := Some ci\<rparr> | Right_Session \<Rightarrow> s\<lparr>ls_right := Some ci\<rparr>)"

definition find_session :: "(child_interface \<Rightarrow> bool) \<Rightarrow> local_scheduler \<Rightarrow> (side \<times> child_interface) option" where
  "find_session P s =
     (case ls_left s of
        Some ci \<Rightarrow> if P ci then Some (Left_Session, ci)
                   else (case ls_right s of Some ci \<Rightarrow> if P ci then Some (Right_Session, ci) else None | None \<Rightarrow> None)
      | None \<Rightarrow> (case ls_right s of Some ci \<Rightarrow> if P ci then Some (Right_Session, ci) else None | None \<Rightarrow> None))"

definition getSessionByChildIndex :: "int \<Rightarrow> local_scheduler \<Rightarrow> (side \<times> child_interface) option" where
  "getSessionByChildIndex childIndex s = find_session (\<lambda>ci. childIndex = ci_childIndex ci) s"

definition getSessionByChildRank :: "int \<Rightarrow> local_scheduler \<Rightarrow> (side \<times> child_interface) option" where
  "getSessionByChildRank childRank s = find_session (\<lambda>ci. childRank = ci_childRank ci) s"

definition other_side :: "side \<Rightarrow> side" where
  "other_side d = (case d of Left_Session \<Rightarrow> Right_Session | Right_Session \<Rightarrow> Left_Session)"

definition applyDirective :: "msg_directive \<Rightarrow> child_interface \<Rightarrow> sched_event list" where
  "applyDirective d ci =
     (case d of
        DO_NOTHING \<Rightarrow> []
      | EMIT_DIRECTED_REQUEST \<Rightarrow> [Emit_Directed_Request (ci_epoch ci) (ci_childIndex ci) (ci_childRank ci)]
      | EMIT_UNDIRECTED_REQUEST \<Rightarrow> [Emit_Undirected_Request (ci_epoch ci) (ci_childIndex ci)])"

definition acceptsChild :: "int \<Rightarrow> local_scheduler \<Rightarrow> bool" where
  "acceptsChild index s =
     (case getSessionByChildIndex index s of None \<Rightarrow> False | Some (d, ci) \<Rightarrow> wantsChild ci)"

section \<open>Initialization\<close>

definition open_session :: "local_scheduler \<Rightarrow> node_list \<Rightarrow> int \<Rightarrow> child_interface \<times> sched_event list" where
  "open_session s nodes childIndex =
     (let ci = ChildInterface (ls_job_id s) nodes childIndex in
      if ls_last_update_epoch s \<ge> 0
      then let (d, ci, out) = handleBalancingUpdate (ls_last_update_epoch s) (ls_last_update_volume s) False ci
           in (ci, out @ applyDirective d ci)
      else (ci, []))"

definition initializeScheduling :: "job_scheduling_update \<Rightarrow> int \<Rightarrow> local_scheduler \<Rightarrow> ls_result" where
  "initializeScheduling update parentRank s =
     (let s = s\<lparr>ls_parent_rank := parentRank\<rparr> in
      if ls_index s > 0 \<and> su_epoch update \<le> ls_epoch_of_last_suspension s
      then Inr (s, [MSG_SCHED_RETURN_NODES (ls_parent_rank s)
                      (update\<lparr>su_destinationIndex := ls_parent_index s\<rparr>)])
      else
        let s = (if su_volume update \<ge> 0 \<and> su_epoch update > ls_last_update_epoch s
                 then s\<lparr>ls_last_update_epoch := su_epoch update, ls_last_update_volume := su_volume update\<rparr>
                 else s);
            s = s\<lparr>ls_suspended := False\<rparr>
        in res_bind (of_opt (split_update update (ls_index s))) (\<lambda>(leftUpdate, rightUpdate).
             check (ls_left s = None)
               (let (l, out0) = open_session s (su_inactiveJobNodes leftUpdate) (ls_left_child_index s)
                in check (ls_right s = None)
                  (let (r, out1) = open_session s (su_inactiveJobNodes rightUpdate) (ls_right_child_index s)
                   in Inr (s\<lparr>ls_left := Some l, ls_right := Some r\<rparr>, out0 @ out1)))))"

section \<open>Suspension and resumption\<close>

definition doesChildHaveNodes :: "child_interface option \<Rightarrow> bool res" where
  "doesChildHaveNodes c = (case c of None \<Rightarrow> Inl Undefined_behaviour | Some ci \<Rightarrow> Inr (ci_childHasNodes ci))"

definition no_child_has_nodes :: "local_scheduler \<Rightarrow> bool res" where
  "no_child_has_nodes s =
     res_bind (doesChildHaveNodes (ls_left s)) (\<lambda>l.
       if l then Inr False else res_bind (doesChildHaveNodes (ls_right s)) (\<lambda>r. Inr (\<not> r)))"

definition canReturnInactiveJobNodes :: "local_scheduler \<Rightarrow> bool res" where
  "canReturnInactiveJobNodes s =
     (if ls_index s = 0 then Inr False
      else if \<not> ls_suspended s \<and> ls_suspending s then no_child_has_nodes s
      else Inr False)"

definition canResumeAsRoot :: "local_scheduler \<Rightarrow> bool res" where
  "canResumeAsRoot s = (if ls_resuming s then no_child_has_nodes s else Inr False)"

definition merged_nodes :: "local_scheduler \<Rightarrow> node_list res" where
  "merged_nodes s =
     (case (ls_left s, ls_right s) of
        (Some l, Some r) \<Rightarrow> Inr (mergePreferringNewer (mergePreferringNewer [] (ci_nodes l)) (ci_nodes r))
      | _ \<Rightarrow> Inl Undefined_behaviour)"

definition return_update :: "local_scheduler \<Rightarrow> node_list \<Rightarrow> job_scheduling_update" where
  "return_update s nodes =
     (let myNode = InactiveJobNode (ls_my_rank s) (ls_index s) (ls_last_update_epoch s);
          nodes = cleanUpStatuses (nodes_insert (myNode\<lparr>ijn_status := AVAILABLE\<rparr>) nodes)
      in JobSchedulingUpdate_init
           \<lparr>su_jobId := ls_job_id s, su_destinationIndex := ls_parent_index s, su_inactiveJobNodes := nodes\<rparr>)"

definition returnInactiveJobNodesToParent :: "local_scheduler \<Rightarrow> ls_result" where
  "returnInactiveJobNodesToParent s =
     check (ls_suspending s) (check (\<not> ls_suspended s)
       (res_bind (merged_nodes s) (\<lambda>nodes.
          Inr (no_sessions (s\<lparr>ls_suspending := False, ls_suspended := True\<rparr>),
               [MSG_SCHED_RETURN_NODES (ls_parent_rank s) (return_update s nodes)]))))"

definition return_if_possible :: "local_scheduler \<Rightarrow> ls_result" where
  "return_if_possible s =
     res_bind (canReturnInactiveJobNodes s) (\<lambda>b.
       if b then returnInactiveJobNodesToParent s else Inr (s, []))"

definition beginSuspension :: "int \<Rightarrow> local_scheduler \<Rightarrow> ls_result" where
  "beginSuspension epoch s =
     (let epoch = (if epoch = -1 then max (ls_last_update_epoch s) (ls_epoch_of_last_suspension s) else epoch);
          s = s\<lparr>ls_epoch_of_last_suspension := epoch\<rparr>
      in if \<not> ls_suspended s then return_if_possible (s\<lparr>ls_suspending := True\<rparr>)
         else Inr (s, []))"

definition resumeAsRoot :: "local_scheduler \<Rightarrow> ls_result" where
  "resumeAsRoot s =
     res_bind (canResumeAsRoot s) (\<lambda>can. check can
       (let s = s\<lparr>ls_resuming := False, ls_suspending := False\<rparr> in
        res_bind (merged_nodes s) (\<lambda>nodes.
          initializeScheduling
            (JobSchedulingUpdate_init
              \<lparr>su_epoch := max (ls_last_update_epoch s) (ls_epoch_of_last_suspension s),
               su_volume := ls_last_update_volume s, su_inactiveJobNodes := cleanUpStatuses nodes\<rparr>)
            (ls_parent_rank s) (no_sessions s))))"

definition resume_if_possible :: "local_scheduler \<Rightarrow> ls_result" where
  "resume_if_possible s =
     res_bind (canResumeAsRoot s) (\<lambda>b. if b then resumeAsRoot s else Inr (s, []))"

definition beginResumptionAsRoot :: "local_scheduler \<Rightarrow> ls_result" where
  "beginResumptionAsRoot s =
     check (ls_index s = 0) (check (ls_suspending s \<and> \<not> ls_suspended s)
       (resume_if_possible (s\<lparr>ls_resuming := True\<rparr>)))"

section \<open>Updates and messages\<close>

definition update_session :: "int \<Rightarrow> int \<Rightarrow> bool \<Rightarrow> child_interface option \<Rightarrow> child_interface option \<times> sched_event list" where
  "update_session epoch volume hasChild c =
     (case c of
        None \<Rightarrow> (None, [])
      | Some ci \<Rightarrow>
          (let (d, ci, out) = handleBalancingUpdate epoch volume hasChild ci
           in (Some ci, out @ applyDirective d ci)))"

definition updateBalancing :: "int \<Rightarrow> int \<Rightarrow> bool \<Rightarrow> bool \<Rightarrow> local_scheduler \<Rightarrow> ls_result" where
  "updateBalancing epoch volume hasLeftChild hasRightChild s =
     (if ls_last_update_epoch s \<ge> epoch then Inr (s, [])
      else
        let s = s\<lparr>ls_last_update_epoch := epoch, ls_last_update_volume := volume\<rparr> in
        if ls_suspending s \<or> ls_suspended s then Inr (s, [])
        else
          let (l, out0) = update_session epoch volume hasLeftChild (ls_left s);
              (r, out1) = update_session epoch volume hasRightChild (ls_right s);
              s = s\<lparr>ls_left := l, ls_right := r\<rparr>
          in if volume \<le> ls_index s \<and> ls_index s > 0
             then res_bind (beginSuspension epoch s) (\<lambda>(s, out2). Inr (s, out0 @ out1 @ out2))
             else Inr (s, out0 @ out1))"

text \<open>The two kinds of messages that \<open>handle\<close> looks into, with their source.\<close>

datatype sched_message =
    Initialize_Child_With_Nodes int job_scheduling_update
  | Return_Nodes int job_scheduling_update

definition handle_message :: "sched_message \<Rightarrow> local_scheduler \<Rightarrow> ls_result" where
  "handle_message h s =
     (case h of
        Initialize_Child_With_Nodes source update \<Rightarrow> initializeScheduling update source s
      | Return_Nodes source update \<Rightarrow>
          (case getSessionByChildRank source s of
             None \<Rightarrow> Inr (s, [])
           | Some (d, ci) \<Rightarrow>
               Inr (set_session d (addJobNodesFromSuspendedChild (su_inactiveJobNodes update) ci) s, [])))"

definition handle :: "sched_message \<Rightarrow> local_scheduler \<Rightarrow> ls_result" where
  "handle h s =
     res_bind (handle_message h s) (\<lambda>(s, out0).
     res_bind (return_if_possible s) (\<lambda>(s, out1).
     res_bind (resume_if_possible s) (\<lambda>(s, out2). Inr (s, out0 @ out1 @ out2))))"

definition handleRejectReactivation :: "int \<Rightarrow> int \<Rightarrow> bool \<Rightarrow> bool \<Rightarrow> local_scheduler \<Rightarrow> ls_result" where
  "handleRejectReactivation epoch index lost hasChild s =
     (case getSessionByChildIndex index s of
        None \<Rightarrow> Inr (s, [])
      | Some (d, ci) \<Rightarrow>
          res_bind (handleRejectionOfPotentialChild index epoch lost hasChild
                      (ls_suspended s \<or> ls_suspending s) ci)
            (\<lambda>(directive, ci, out). Inr (set_session d ci s, out @ applyDirective directive ci)))"

definition handleChildJoining :: "int \<Rightarrow> int \<Rightarrow> int \<Rightarrow> local_scheduler \<Rightarrow> ls_result" where
  "handleChildJoining source epoch index s =
     (case getSessionByChildIndex index s of
        None \<Rightarrow> Inr (s, [])
      | Some (d, ci) \<Rightarrow>
          res_bind (session_handleChildJoining source index epoch ci) (\<lambda>r.
          res_bind (of_opt r) (\<lambda>(ci, out). Inr (set_session d ci s, out))))"

definition handleNodeFreed :: "int \<Rightarrow> int \<Rightarrow> int \<Rightarrow> local_scheduler \<Rightarrow> local_scheduler" where
  "handleNodeFreed rank epoch index s =
     s\<lparr>ls_left := map_option (removeNode rank epoch index) (ls_left s),
       ls_right := map_option (removeNode rank epoch index) (ls_right s)\<rparr>"

definition resetRole :: "local_scheduler \<Rightarrow> local_scheduler" where
  "resetRole s = no_sessions (s\<lparr>ls_epoch_of_last_suspension := -1, ls_last_update_epoch := -1\<rparr>)"

section \<open>Calls and reachable states\<close>

text \<open>The calls that the rest of the program makes. \<open>call_ok\<close> says when: a child is initialized with
  nodes while it is suspended (or the message is outdated), the two assertions of
  \<open>beginResumptionAsRoot\<close> and of the job database before it reuses a scheduler hold, epochs are
  machine integers, and a received list of nodes is a set with one node per rank.\<close>

datatype ls_call =
    Handle_Message sched_message
  | Update_Balancing int int bool bool
  | Begin_Suspension int
  | Begin_Resumption_As_Root
  | Handle_Reject_Reactivation int int bool bool
  | Handle_Child_Joining int int int
  | Handle_Node_Freed int int int
  | Reset_Role

definition ls_perform :: "ls_call \<Rightarrow> local_scheduler \<Rightarrow> ls_result" where
  "ls_perform c s =
     (case c of
        Handle_Message h \<Rightarrow> handle h s
      | Update_Balancing epoch volume hasLeft hasRight \<Rightarrow> updateBalancing epoch volume hasLeft hasRight s
      | Begin_Suspension epoch \<Rightarrow> beginSuspension epoch s
      | Begin_Resumption_As_Root \<Rightarrow> beginResumptionAsRoot s
      | Handle_Reject_Reactivation epoch index lost hasChild \<Rightarrow> handleRejectReactivation epoch index lost hasChild s
      | Handle_Child_Joining source epoch index \<Rightarrow> handleChildJoining source epoch index s
      | Handle_Node_Freed rank epoch index \<Rightarrow> Inr (handleNodeFreed rank epoch index s, [])
      | Reset_Role \<Rightarrow> Inr (resetRole s, []))"

definition nodes_ok :: "node_list \<Rightarrow> bool" where
  "nodes_ok ns \<longleftrightarrow> node_set ns \<and> inj_on ijn_rank (set ns) \<and> (\<forall>n \<in> set ns. ijn_lastEpoch n \<le> INT_MAX)"

definition call_ok :: "ls_call \<Rightarrow> local_scheduler \<Rightarrow> bool" where
  "call_ok c s \<longleftrightarrow>
     (case c of
        Handle_Message (Initialize_Child_With_Nodes source u) \<Rightarrow>
          nodes_ok (su_inactiveJobNodes u) \<and> su_epoch u \<le> INT_MAX
          \<and> (ls_suspended s \<or> ls_index s > 0 \<and> su_epoch u \<le> ls_epoch_of_last_suspension s)
      | Handle_Message (Return_Nodes source u) \<Rightarrow>
          (\<forall>n \<in> set (su_inactiveJobNodes u). ijn_lastEpoch n \<le> INT_MAX)
      | Update_Balancing epoch _ _ _ \<Rightarrow> epoch \<le> INT_MAX
      | Begin_Suspension epoch \<Rightarrow> epoch \<le> INT_MAX
      | Begin_Resumption_As_Root \<Rightarrow> ls_index s = 0 \<and> ls_suspending s
      | Handle_Reject_Reactivation epoch _ _ _ \<Rightarrow> epoch \<le> INT_MAX
      | Handle_Child_Joining _ epoch _ \<Rightarrow> epoch \<le> INT_MAX
      | Handle_Node_Freed _ _ _ \<Rightarrow> True
      | Reset_Role \<Rightarrow> canCommit s)"

inductive ls_reachable :: "local_scheduler \<Rightarrow> bool" where
  created: "LocalScheduler myRank jobId t = Inr s \<Longrightarrow> 0 \<le> jt_index t \<Longrightarrow> ls_reachable s"
| called: "ls_reachable s \<Longrightarrow> call_ok c s \<Longrightarrow> ls_perform c s = Inr (s', out) \<Longrightarrow> ls_reachable s'"

text \<open>The invariant: sessions exist exactly while the scheduler is not suspended, each for its child
  index and well-formed; only a scheduler that is not suspended can be suspending, only the suspending
  root can be resuming.\<close>

definition session_inv :: "int \<Rightarrow> child_interface option \<Rightarrow> bool" where
  "session_inv i c \<longleftrightarrow> (case c of None \<Rightarrow> True | Some ci \<Rightarrow> ci_inv ci \<and> ci_childIndex ci = i)"

definition ls_inv :: "local_scheduler \<Rightarrow> bool" where
  "ls_inv s \<longleftrightarrow>
     (ls_suspended s \<longleftrightarrow> ls_left s = None) \<and> (ls_suspended s \<longleftrightarrow> ls_right s = None)
     \<and> (ls_suspending s \<longrightarrow> \<not> ls_suspended s) \<and> (ls_resuming s \<longrightarrow> ls_index s = 0 \<and> ls_suspending s)
     \<and> 0 \<le> ls_index s
     \<and> ls_left_child_index s = 2 * ls_index s + 1 \<and> ls_right_child_index s = 2 * ls_index s + 2
     \<and> session_inv (ls_left_child_index s) (ls_left s) \<and> session_inv (ls_right_child_index s) (ls_right s)
     \<and> ls_last_update_epoch s \<le> INT_MAX \<and> ls_epoch_of_last_suspension s \<le> INT_MAX"

text \<open>What a scheduler sends fits what the receiving schedulers expect.\<close>

definition sched_event_ok :: "sched_event \<Rightarrow> bool" where
  "sched_event_ok e \<longleftrightarrow>
     (case e of
        MSG_SCHED_INITIALIZE_CHILD_WITH_NODES dest u \<Rightarrow> nodes_ok (su_inactiveJobNodes u)
      | MSG_SCHED_RETURN_NODES dest u \<Rightarrow> \<forall>n \<in> set (su_inactiveJobNodes u). ijn_lastEpoch n \<le> INT_MAX
      | _ \<Rightarrow> True)"

definition good :: "ls_result \<Rightarrow> bool" where
  "good r \<longleftrightarrow> (case r of Inl _ \<Rightarrow> False | Inr (s, out) \<Rightarrow> ls_inv s \<and> (\<forall>e \<in> set out. sched_event_ok e))"

lemma session_inv_simps [simp]:
  "session_inv i None" "session_inv i (Some ci) \<longleftrightarrow> ci_inv ci \<and> ci_childIndex ci = i"
  by (simp_all add: session_inv_def)

lemma sched_event_ok_simps [simp]:
  "sched_event_ok (MSG_SCHED_RELEASE_FROM_WAITING r xs)"
  "sched_event_ok (Emit_Directed_Request a b c)" "sched_event_ok (Emit_Undirected_Request a b)"
  "sched_event_ok (MSG_SCHED_INITIALIZE_CHILD_WITH_NODES d u) \<longleftrightarrow> nodes_ok (su_inactiveJobNodes u)"
  "sched_event_ok (MSG_SCHED_RETURN_NODES d u) \<longleftrightarrow> (\<forall>n \<in> set (su_inactiveJobNodes u). ijn_lastEpoch n \<le> INT_MAX)"
  by (simp_all add: sched_event_ok_def)

lemma good_Inr [simp]: "good (Inr (s, out)) \<longleftrightarrow> ls_inv s \<and> (\<forall>e \<in> set out. sched_event_ok e)"
  by (simp add: good_def)

lemma goodE:
  assumes "good r"
  obtains s out where "r = Inr (s, out)" "ls_inv s" "\<forall>e \<in> set out. sched_event_ok e"
  using assms by (cases r) (auto simp: good_def)

lemma good_append: "good r \<Longrightarrow> \<forall>e \<in> set out. sched_event_ok e \<Longrightarrow>
    good (res_bind r (\<lambda>(s, out'). Inr (s, out @ out')))"
  by (erule goodE) auto

lemma applyDirective_ok: "e \<in> set (applyDirective d ci) \<Longrightarrow> sched_event_ok e"
  by (auto simp: applyDirective_def split: msg_directive.splits)

section \<open>Sessions keep their part of the invariant\<close>

lemma notify_frame:
  "ci_childIndex (fst (notifyRemainingInactiveNodes i ci)) = ci_childIndex ci"
  "e \<in> set (snd (notifyRemainingInactiveNodes i ci)) \<Longrightarrow> sched_event_ok e"
  by (auto simp: notifyRemainingInactiveNodes_def)

lemma recruit_frame:
  "ci_childIndex (fst (snd (recruitChild ci))) = ci_childIndex ci"
  "e \<in> set (snd (snd (recruitChild ci))) \<Longrightarrow> sched_event_ok e"
  using notify_frame [where i = "ci_childIndex ci" and ci = ci] by (auto simp: recruitChild_def split: option.splits)

lemma update_frame:
  "ci_childIndex (fst (snd (handleBalancingUpdate e v h ci))) = ci_childIndex ci"
  "x \<in> set (snd (snd (handleBalancingUpdate e v h ci))) \<Longrightarrow> sched_event_ok x"
  by (auto simp: handleBalancingUpdate_def Let_def recruit_frame notify_frame split: if_splits)

lemma rejection_frame:
  assumes "ci_inv ci" "e \<le> INT_MAX" "index = ci_childIndex ci"
  obtains d ci' out where "handleRejectionOfPotentialChild index e lost h susp ci = Inr (d, ci', out)"
    and "ci_inv ci'" "ci_childIndex ci' = ci_childIndex ci" "\<forall>x \<in> set out. sched_event_ok x"
proof -
  let ?f = "snd (findAndUpdateNode (ci_childRank ci) (ci_childIndex ci) e (if lost then LOST else BUSY) ci)"
  let ?r = "if \<not> h \<and> \<not> susp \<and> wantsChild ?f then recruitChild ?f else (DO_NOTHING, ?f, [])"
  have r: "handleRejectionOfPotentialChild index e lost h susp ci = Inr (fst ?r, fst (snd ?r), snd (snd ?r))"
    using assms(3) by (simp add: handleRejectionOfPotentialChild_def Let_def case_prod_beta)
  show ?thesis
    by (rule that [OF r rejection_inv [OF assms(1,2) r]])
      (use findAndUpdateNode_fields(2) [OF assms(1)] in \<open>auto simp: recruit_frame split: if_splits\<close>)
qed

lemma joining_frame:
  assumes "ci_inv ci" "0 \<le> ci_childIndex ci" "e \<le> INT_MAX" "index = ci_childIndex ci"
  obtains ci' out where "session_handleChildJoining source index e ci = Inr (Some (ci', out))"
    and "ci_inv ci'" "ci_childIndex ci' = ci_childIndex ci" "\<forall>x \<in> set out. sched_event_ok x"
proof -
  let ?in = "\<lambda>n. subtree_index index True (ijn_originalIndex n)"
  let ?sub = "filter ?in (ci_nodes ci)"
  let ?c = "ci\<lparr>ci_childRank := source, ci_childHasNodes := True, ci_nodes := filter (\<lambda>n. \<not> ?in n) (ci_nodes ci)\<rparr>"
  let ?f = "snd (findAndUpdateNode source index e BUSY ?c)"
  let ?n = "notifyRemainingInactiveNodes (-1) ?f"
  note inv = ci_invD [OF assms(1)]
  have c: "ci_inv ?c" by (rule sub_inv [OF assms(1)]) auto
  have "extractSubtree (ci_nodes ci) index True = Some (?sub, filter (\<lambda>n. \<not> ?in n) (ci_nodes ci))"
    using extractSubtree_eq [OF inv(1)] assms(2,4) by simp
  then have j: "session_handleChildJoining source index e ci = Inr (Some (fst ?n,
      MSG_SCHED_INITIALIZE_CHILD_WITH_NODES source (child_update ?c e ?sub) # snd ?n))"
    using assms(4) by (simp add: session_handleChildJoining_def Let_def case_prod_beta)
  have "nodes_ok (cleanUpStatuses ?sub)"
    using cleanUpStatuses_set [OF oset_sorted_filter [OF inv(1)], of ?in] inv(2,3)
    by (auto simp: nodes_ok_def cleanUpStatuses_eq [OF oset_sorted_filter [OF inv(1)]] inj_on_def)
  then show ?thesis
    using notify_inv [OF findAndUpdateNode_inv [OF c assms(3)]] findAndUpdateNode_fields(2) [OF c]
    by (intro that [OF j]) (auto simp: notify_frame child_update_def)
qed

lemma merge_frame:
  "session_inv i (Some ci) \<Longrightarrow> \<forall>n \<in> set ns. ijn_lastEpoch n \<le> INT_MAX \<Longrightarrow>
     session_inv i (Some (addJobNodesFromSuspendedChild ns ci))"
  using merge_inv [of ci ns] by (simp add: addJobNodesFromSuspendedChild_def)

lemma removeNode_index [simp]: "ci_childIndex (removeNode r e j ci) = ci_childIndex ci"
  by (simp add: removeNode_def)

lemma open_session_frame:
  assumes "nodes_ok ns" "open_session s ns i = (ci, out)"
  shows "session_inv i (Some ci)" "x \<in> set out \<Longrightarrow> sched_event_ok x"
proof -
  let ?c = "ChildInterface (ls_job_id s) ns i"
  have "ci_inv ?c" using assms(1) by (simp add: nodes_ok_def new_session_inv)
  moreover have "ci_childIndex ?c = i" by (simp add: ChildInterface_def)
  ultimately show "session_inv i (Some ci)" "x \<in> set out \<Longrightarrow> sched_event_ok x"
    using assms(2) update_inv [of ?c "ls_last_update_epoch s" "ls_last_update_volume s" False]
      update_frame [where e = "ls_last_update_epoch s" and v = "ls_last_update_volume s" and h = False and ci = ?c]
    by (auto simp: open_session_def Let_def applyDirective_ok split: if_splits prod.splits)
qed

lemma update_session_frame:
  assumes "session_inv i c" "update_session e v h c = (c', out)"
  shows "session_inv i c'" "c' = None \<longleftrightarrow> c = None" "x \<in> set out \<Longrightarrow> sched_event_ok x"
  using assms update_inv [of "the c" e v h] update_frame [where e = e and v = v and h = h and ci = "the c"]
  by (auto simp: update_session_def Let_def applyDirective_ok split: option.splits prod.splits)

lemma find_session_Some:
  "find_session P s = Some (d, ci) \<Longrightarrow> session d s = Some ci \<and> P ci"
  by (auto simp: find_session_def session_def split: option.splits if_splits)

section \<open>The scheduler keeps its invariant\<close>

lemma nodes_ok_subset: "nodes_ok ns \<Longrightarrow> node_set ms \<Longrightarrow> set ms \<subseteq> set ns \<Longrightarrow> nodes_ok ms"
  by (auto simp: nodes_ok_def intro: inj_on_subset)

lemma split_nodes_ok:
  assumes "nodes_ok (su_inactiveJobNodes u)" "0 \<le> k"
  obtains l r where "split_update u k = Some (l, r)"
    and "nodes_ok (su_inactiveJobNodes l)" "nodes_ok (su_inactiveJobNodes r)"
proof -
  obtain L R where LR: "split_loop k (su_inactiveJobNodes u) [] [] = Some (L, R)"
    "node_set L" "node_set R" "mset L + mset R = mset (su_inactiveJobNodes u)"
    using split_loop_spec [of k "[]" "[]" "su_inactiveJobNodes u"] assms by (auto simp: nodes_ok_def)
  have "set L \<union> set R = set (su_inactiveJobNodes u)"
    by (metis LR(4) set_mset_mset set_mset_union)
  then have "nodes_ok L" "nodes_ok R" using nodes_ok_subset [OF assms(1)] LR(2,3) by auto
  then show ?thesis using LR(1) that by (force simp: split_update_def Let_def)
qed

lemma init_good:
  assumes "ls_left s = None" "ls_right s = None" "\<not> ls_suspending s" "\<not> ls_resuming s" "0 \<le> ls_index s"
    and "ls_left_child_index s = 2 * ls_index s + 1" "ls_right_child_index s = 2 * ls_index s + 2"
    and "ls_last_update_epoch s \<le> INT_MAX" "ls_epoch_of_last_suspension s \<le> INT_MAX"
    and "nodes_ok (su_inactiveJobNodes u)" "su_epoch u \<le> INT_MAX"
    and "\<not> (ls_index s > 0 \<and> su_epoch u \<le> ls_epoch_of_last_suspension s)"
  shows "good (initializeScheduling u p s)"
proof -
  let ?s = "(if su_volume u \<ge> 0 \<and> su_epoch u > ls_last_update_epoch s
             then s\<lparr>ls_parent_rank := p, ls_last_update_epoch := su_epoch u, ls_last_update_volume := su_volume u\<rparr>
             else s\<lparr>ls_parent_rank := p\<rparr>)\<lparr>ls_suspended := False\<rparr>"
  obtain L R where LR: "split_update u (ls_index s) = Some (L, R)"
    "nodes_ok (su_inactiveJobNodes L)" "nodes_ok (su_inactiveJobNodes R)"
    using split_nodes_ok [OF assms(10,5)] .
  obtain l o0 where l: "open_session ?s (su_inactiveJobNodes L) (ls_left_child_index s) = (l, o0)" by fastforce
  obtain r o1 where r: "open_session ?s (su_inactiveJobNodes R) (ls_right_child_index s) = (r, o1)" by fastforce
  have "initializeScheduling u p s = Inr (?s\<lparr>ls_left := Some l, ls_right := Some r\<rparr>, o0 @ o1)"
    using assms(1,2,12) LR(1) l r by (auto simp: initializeScheduling_def Let_def)
  then show ?thesis
    using open_session_frame [OF LR(2) l] open_session_frame [OF LR(3) r] assms
    by (auto simp: ls_inv_def)
qed

lemma initialize_good:
  assumes "ls_inv s" "call_ok (Handle_Message (Initialize_Child_With_Nodes p u)) s"
  shows "good (initializeScheduling u p s)"
proof (cases "ls_index s > 0 \<and> su_epoch u \<le> ls_epoch_of_last_suspension s")
  case True
  then show ?thesis using assms by (auto simp: initializeScheduling_def ls_inv_def call_ok_def nodes_ok_def)
next
  case False
  then show ?thesis using assms by (intro init_good) (auto simp: ls_inv_def call_ok_def)
qed

lemma active_sessions:
  assumes "ls_inv s" "\<not> ls_suspended s"
  obtains l r where "ls_left s = Some l" "ls_right s = Some r" "ci_inv l" "ci_inv r"
    and "ci_childIndex l = 2 * ls_index s + 1" "ci_childIndex r = 2 * ls_index s + 2"
  using assms by (cases "ls_left s"; cases "ls_right s") (auto simp: ls_inv_def)

lemma no_child_has_nodes_eq:
  assumes "ls_left s = Some l" "ls_right s = Some r"
  shows "no_child_has_nodes s = Inr (\<not> ci_childHasNodes l \<and> \<not> ci_childHasNodes r)"
  using assms by (simp add: no_child_has_nodes_def doesChildHaveNodes_def)

text \<open>What the two sessions hand back when they end.\<close>

lemma merged_nodes_spec:
  assumes "ls_left s = Some l" "ls_right s = Some r" "ci_inv l" "ci_inv r"
  obtains ns where "merged_nodes s = Inr ns" "nodes_ok ns"
    and "ijn_rank ` set ns = ijn_rank ` (set (ci_nodes l) \<union> set (ci_nodes r))"
    and "set ns \<subseteq> set (ci_nodes l) \<union> set (ci_nodes r)"
proof -
  let ?a = "mergePreferringNewer [] (ci_nodes l)"
  let ?b = "mergePreferringNewer ?a (ci_nodes r)"
  have e: "node_set ([] :: node_list)" by simp
  note A = mergePreferringNewer_spec [OF e, where other = "ci_nodes l"]
    and a = mergePreferringNewer_spec(1) [OF e, where other = "ci_nodes l"]
  have sets: "set ?b \<subseteq> set (ci_nodes l) \<union> set (ci_nodes r)"
    "ijn_rank ` set ?b = ijn_rank ` (set (ci_nodes l) \<union> set (ci_nodes r))"
    using A mergePreferringNewer_spec [OF a, where other = "ci_nodes r"] by (auto simp: image_Un)
  then have "nodes_ok ?b"
    using mergePreferringNewer_spec [OF a, where other = "ci_nodes r"] ci_invD(3) [OF assms(3)] ci_invD(3) [OF assms(4)]
    by (fastforce simp: nodes_ok_def)
  then show ?thesis using assms(1,2) sets by (intro that) (auto simp: merged_nodes_def)
qed

lemma clean_nodes_ok: "nodes_ok ns \<Longrightarrow> nodes_ok (cleanUpStatuses ns)"
  using cleanUpStatuses_set [of ns] by (auto simp: nodes_ok_def cleanUpStatuses_eq inj_on_def)

text \<open>Returning all nodes: what is sent, and to which state it leads.\<close>

lemma return_spec:
  assumes "ls_inv s" "ls_suspending s" "ls_index s > 0"
    and "ls_left s = Some l" "ls_right s = Some r" "\<not> ci_childHasNodes l" "\<not> ci_childHasNodes r"
  obtains ns where "return_if_possible s = Inr (no_sessions (s\<lparr>ls_suspending := False, ls_suspended := True\<rparr>),
      [MSG_SCHED_RETURN_NODES (ls_parent_rank s) (return_update s ns)])" "nodes_ok ns"
    and "ijn_rank ` set ns = ijn_rank ` (set (ci_nodes l) \<union> set (ci_nodes r))"
    and "set ns \<subseteq> set (ci_nodes l) \<union> set (ci_nodes r)"
proof -
  have inv: "ci_inv l" "ci_inv r" "\<not> ls_suspended s" using assms(1,2,4,5) by (auto simp: ls_inv_def)
  obtain ns where ns: "merged_nodes s = Inr ns" "nodes_ok ns"
    "ijn_rank ` set ns = ijn_rank ` (set (ci_nodes l) \<union> set (ci_nodes r))"
    "set ns \<subseteq> set (ci_nodes l) \<union> set (ci_nodes r)"
    using merged_nodes_spec [OF assms(4,5) inv(1,2)] .
  have "canReturnInactiveJobNodes s = Inr True"
    using assms inv(3) no_child_has_nodes_eq [OF assms(4,5)] by (simp add: canReturnInactiveJobNodes_def)
  then show ?thesis using ns assms(2) inv(3)
    by (intro that) (simp_all add: return_if_possible_def returnInactiveJobNodesToParent_def return_update_def Let_def)
qed

lemma return_noop:
  assumes "\<not> ls_suspending s \<or> ls_suspended s \<or> ls_index s = 0
    \<or> (\<exists>l r. ls_left s = Some l \<and> ls_right s = Some r \<and> (ci_childHasNodes l \<or> ci_childHasNodes r))"
  shows "return_if_possible s = Inr (s, [])"
  using assms by (auto simp: return_if_possible_def canReturnInactiveJobNodes_def no_child_has_nodes_eq)

lemma return_update_spec:
  assumes "nodes_ok ns"
  defines "me \<equiv> \<lambda>s. InactiveJobNode (ls_my_rank s) (ls_index s) (ls_last_update_epoch s)"
  shows "ls_last_update_epoch s \<le> INT_MAX \<Longrightarrow>
      \<forall>n \<in> set (su_inactiveJobNodes (return_update s ns)). ijn_lastEpoch n \<le> INT_MAX"
    and "\<forall>n \<in> set (su_inactiveJobNodes (return_update s ns)). ijn_status n = AVAILABLE"
    and "node_key (me s) \<in> node_key ` set ns \<or> me s \<in> set (su_inactiveJobNodes (return_update s ns))"
    and "ijn_rank ` {n \<in> set ns. ijn_status n \<noteq> LOST} \<subseteq> ijn_rank ` set (su_inactiveJobNodes (return_update s ns))"
    and "ijn_rank ` set (su_inactiveJobNodes (return_update s ns)) \<subseteq> insert (ls_my_rank s) (ijn_rank ` set ns)"
proof -
  let ?ns = "nodes_insert (me s) ns"
  have set: "node_set ns" and ep: "\<forall>n \<in> set ns. ijn_lastEpoch n \<le> INT_MAX" using assms by (auto simp: nodes_ok_def)
  have me: "me s = InactiveJobNode (ls_my_rank s) (ls_index s) (ls_last_update_epoch s)" "ijn_status (me s) = AVAILABLE"
    "ijn_rank (me s) = ls_my_rank s" "ijn_lastEpoch (me s) = ls_last_update_epoch s" "(me s)\<lparr>ijn_status := AVAILABLE\<rparr> = me s"
    by (simp_all add: me_def InactiveJobNode_def)
  have ins: "set ?ns = (if node_key (me s) \<in> node_key ` set ns then set ns else insert (me s) (set ns))"
    unfolding nodes_insert_def by (rule oset_insert_set [OF set])
  have upd: "su_inactiveJobNodes (return_update s ns) =
      map (\<lambda>n. n\<lparr>ijn_status := AVAILABLE\<rparr>) (filter (\<lambda>n. ijn_status n \<noteq> LOST) ?ns)"
    using cleanUpStatuses_eq [OF nodes_insert_set [OF set, of "me s"]] me(1,5)
    by (simp add: return_update_def Let_def)
  show "ls_last_update_epoch s \<le> INT_MAX \<Longrightarrow>
      \<forall>n \<in> set (su_inactiveJobNodes (return_update s ns)). ijn_lastEpoch n \<le> INT_MAX"
    using ins ep me(4) unfolding upd by (auto split: if_splits)
  show "\<forall>n \<in> set (su_inactiveJobNodes (return_update s ns)). ijn_status n = AVAILABLE" unfolding upd by auto
  show "node_key (me s) \<in> node_key ` set ns \<or> me s \<in> set (su_inactiveJobNodes (return_update s ns))"
    using ins me(2,5) unfolding upd by (auto simp: image_iff intro!: bexI [of _ "me s"])
  show "ijn_rank ` {n \<in> set ns. ijn_status n \<noteq> LOST} \<subseteq> ijn_rank ` set (su_inactiveJobNodes (return_update s ns))"
    using ins unfolding upd by (auto simp: image_image)
  show "ijn_rank ` set (su_inactiveJobNodes (return_update s ns)) \<subseteq> insert (ls_my_rank s) (ijn_rank ` set ns)"
    using ins me(3) unfolding upd by (auto split: if_splits)
qed

lemma return_good:
  assumes "ls_inv s"
  shows "good (return_if_possible s)"
proof (cases "ls_suspending s \<and> ls_index s > 0")
  case False
  then show ?thesis using return_noop [of s] assms by (auto simp: ls_inv_def)
next
  case True
  then obtain l r where lr: "ls_left s = Some l" "ls_right s = Some r"
    using active_sessions [OF assms] assms by (auto simp: ls_inv_def)
  show ?thesis
  proof (cases "ci_childHasNodes l \<or> ci_childHasNodes r")
    case True
    then show ?thesis using return_noop [of s] lr assms by auto
  next
    case False
    obtain ns where ns: "nodes_ok ns" "return_if_possible s = Inr (no_sessions (s\<lparr>ls_suspending := False, ls_suspended := True\<rparr>),
      [MSG_SCHED_RETURN_NODES (ls_parent_rank s) (return_update s ns)])"
    proof (rule return_spec [OF assms _ _ lr])
      show "ls_suspending s" "0 < ls_index s" "\<not> ci_childHasNodes l" "\<not> ci_childHasNodes r"
        using \<open>ls_suspending s \<and> ls_index s > 0\<close> False by auto
    qed (rule that)
    have "\<forall>n \<in> set (su_inactiveJobNodes (return_update s ns)). ijn_lastEpoch n \<le> INT_MAX"
      by (rule return_update_spec(1) [OF ns(1)]) (use assms in \<open>simp add: ls_inv_def\<close>)
    then show ?thesis using ns(2) assms True by (auto simp: no_sessions_def ls_inv_def)
  qed
qed

lemma resume_good:
  assumes "ls_inv s"
  shows "good (resume_if_possible s)"
proof (cases "ls_resuming s")
  case False
  then show ?thesis using assms by (simp add: resume_if_possible_def canResumeAsRoot_def)
next
  case True
  then have st: "ls_index s = 0" "\<not> ls_suspended s" using assms by (auto simp: ls_inv_def)
  obtain l r where lr: "ls_left s = Some l" "ls_right s = Some r" "ci_inv l" "ci_inv r"
    by (rule active_sessions [OF assms st(2)])
  let ?s = "s\<lparr>ls_resuming := False, ls_suspending := False\<rparr>"
  obtain ns where ns: "merged_nodes ?s = Inr ns" "nodes_ok ns"
    by (rule merged_nodes_spec [of ?s l r]) (use lr in auto)
  let ?u = "JobSchedulingUpdate_init
              \<lparr>su_epoch := max (ls_last_update_epoch s) (ls_epoch_of_last_suspension s),
               su_volume := ls_last_update_volume s, su_inactiveJobNodes := cleanUpStatuses ns\<rparr>"
  have "good (initializeScheduling ?u (ls_parent_rank s) (no_sessions ?s))"
    using assms st clean_nodes_ok [OF ns(2)] by (intro init_good) (auto simp: ls_inv_def no_sessions_def)
  then show ?thesis using True ns assms no_child_has_nodes_eq [OF lr(1,2)]
    by (simp add: resume_if_possible_def canResumeAsRoot_def resumeAsRoot_def Let_def)
qed

lemma suspension_good:
  assumes "ls_inv s" "epoch \<le> INT_MAX"
  shows "good (beginSuspension epoch s)"
proof -
  let ?e = "if epoch = -1 then max (ls_last_update_epoch s) (ls_epoch_of_last_suspension s) else epoch"
  have "ls_inv (s\<lparr>ls_epoch_of_last_suspension := ?e, ls_suspending := True\<rparr>)" if "\<not> ls_suspended s"
    using assms that by (auto simp: ls_inv_def)
  moreover have "ls_inv (s\<lparr>ls_epoch_of_last_suspension := ?e\<rparr>)" using assms by (auto simp: ls_inv_def)
  ultimately show ?thesis using return_good by (auto simp: beginSuspension_def Let_def)
qed

lemma balancing_good:
  assumes "ls_inv s" "epoch \<le> INT_MAX"
  shows "good (updateBalancing epoch volume hl hr s)"
proof (cases "ls_last_update_epoch s \<ge> epoch \<or> ls_suspending s \<or> ls_suspended s")
  case True
  then show ?thesis using assms by (auto simp: updateBalancing_def ls_inv_def)
next
  case False
  obtain l o0 where l: "update_session epoch volume hl (ls_left s) = (l, o0)" by fastforce
  obtain r o1 where r: "update_session epoch volume hr (ls_right s) = (r, o1)" by fastforce
  let ?s = "s\<lparr>ls_last_update_epoch := epoch, ls_last_update_volume := volume, ls_left := l, ls_right := r\<rparr>"
  have "session_inv (ls_left_child_index s) (ls_left s)" "session_inv (ls_right_child_index s) (ls_right s)"
    using assms(1) by (auto simp: ls_inv_def)
  note lr = update_session_frame [OF this(1) l] update_session_frame [OF this(2) r]
  have inv: "ls_inv ?s" using assms lr by (auto simp: ls_inv_def)
  have out: "\<forall>e \<in> set (o0 @ o1). sched_event_ok e" using lr by auto
  have "updateBalancing epoch volume hl hr s =
      (if volume \<le> ls_index s \<and> ls_index s > 0
       then res_bind (beginSuspension epoch ?s) (\<lambda>(s, out2). Inr (s, (o0 @ o1) @ out2)) else Inr (?s, o0 @ o1))"
    using False l r by (simp add: updateBalancing_def Let_def)
  then show ?thesis using good_append [OF suspension_good [OF inv assms(2)] out] inv out by simp
qed

lemma set_session_inv:
  assumes "ls_inv s" "session d s = Some ci" "ci_inv ci'" "ci_childIndex ci' = ci_childIndex ci"
  shows "ls_inv (set_session d ci' s)"
  using assms by (cases d) (auto simp: ls_inv_def session_def set_session_def)

lemma session_ok:
  assumes "ls_inv s" "session d s = Some ci"
  shows "ci_inv ci" "0 \<le> ci_childIndex ci"
proof -
  have "0 \<le> ls_index s" "session_inv (2 * ls_index s + 1) (ls_left s)" "session_inv (2 * ls_index s + 2) (ls_right s)"
    using assms(1) by (auto simp: ls_inv_def)
  then show "ci_inv ci" "0 \<le> ci_childIndex ci" using assms(2) by (cases d; simp add: session_def)+
qed

lemma handle_good:
  assumes "ls_inv s" "call_ok (Handle_Message h) s"
  shows "good (handle h s)"
proof -
  have "good (handle_message h s)"
  proof (cases h)
    case (Initialize_Child_With_Nodes p u)
    then show ?thesis using initialize_good assms by (simp add: handle_message_def)
  next
    case (Return_Nodes p u)
    show ?thesis
    proof (cases "getSessionByChildRank p s")
      case None
      then show ?thesis using Return_Nodes assms by (simp add: handle_message_def)
    next
      case (Some dc)
      then obtain d ci where dc: "dc = (d, ci)" "session d s = Some ci"
        using find_session_Some [of _ s] by (cases dc) (auto simp: getSessionByChildRank_def)
      then have "session_inv (ci_childIndex ci) (Some (addJobNodesFromSuspendedChild (su_inactiveJobNodes u) ci))"
        using session_ok [OF assms(1) dc(2)] assms(2) Return_Nodes by (intro merge_frame) (auto simp: call_ok_def)
      then show ?thesis using Some dc Return_Nodes set_session_inv [OF assms(1) dc(2)]
        by (simp add: handle_message_def)
    qed
  qed
  then obtain s1 o0 where 1: "handle_message h s = Inr (s1, o0)" "ls_inv s1" "\<forall>e \<in> set o0. sched_event_ok e"
    by (rule goodE)
  obtain s2 o1 where 2: "return_if_possible s1 = Inr (s2, o1)" "ls_inv s2" "\<forall>e \<in> set o1. sched_event_ok e"
    using return_good [OF 1(2)] by (rule goodE)
  show ?thesis using good_append [OF resume_good [OF 2(2)], of "o0 @ o1"] 1 2 by (simp add: handle_def ball_Un)
qed

lemma rejection_good:
  assumes "ls_inv s" "epoch \<le> INT_MAX"
  shows "good (handleRejectReactivation epoch index lost hasChild s)"
proof (cases "getSessionByChildIndex index s")
  case None
  then show ?thesis using assms by (simp add: handleRejectReactivation_def)
next
  case (Some dc)
  then obtain d ci where dc: "dc = (d, ci)" "session d s = Some ci" "index = ci_childIndex ci"
    using find_session_Some [of _ s] by (cases dc) (auto simp: getSessionByChildIndex_def)
  obtain e ci' out where "handleRejectionOfPotentialChild index epoch lost hasChild
      (ls_suspended s \<or> ls_suspending s) ci = Inr (e, ci', out)"
    and "ci_inv ci'" "ci_childIndex ci' = ci_childIndex ci" "\<forall>x \<in> set out. sched_event_ok x"
    by (rule rejection_frame [OF session_ok(1) [OF assms(1) dc(2)] assms(2) dc(3)])
  then show ?thesis using Some dc set_session_inv [OF assms(1) dc(2)] applyDirective_ok
    by (auto simp: handleRejectReactivation_def)
qed

lemma joining_good:
  assumes "ls_inv s" "epoch \<le> INT_MAX"
  shows "good (handleChildJoining source epoch index s)"
proof (cases "getSessionByChildIndex index s")
  case None
  then show ?thesis using assms by (simp add: handleChildJoining_def)
next
  case (Some dc)
  then obtain d ci where dc: "dc = (d, ci)" "session d s = Some ci" "index = ci_childIndex ci"
    using find_session_Some [of _ s] by (cases dc) (auto simp: getSessionByChildIndex_def)
  obtain ci' out where "session_handleChildJoining source index epoch ci = Inr (Some (ci', out))"
    and "ci_inv ci'" "ci_childIndex ci' = ci_childIndex ci" "\<forall>x \<in> set out. sched_event_ok x"
    by (rule joining_frame [OF session_ok [OF assms(1) dc(2)] assms(2) dc(3)])
  then show ?thesis using Some dc set_session_inv [OF assms(1) dc(2)]
    by (auto simp: handleChildJoining_def)
qed

lemma freed_good: "ls_inv s \<Longrightarrow> good (Inr (handleNodeFreed r e i s, []))"
  using remove_inv removeNode_index by (auto simp: handleNodeFreed_def ls_inv_def)

lemma reset_good: "ls_inv s \<Longrightarrow> canCommit s \<Longrightarrow> good (Inr (resetRole s, []))"
  by (auto simp: resetRole_def no_sessions_def canCommit_def ls_inv_def)

lemma resumption_good:
  assumes "ls_inv s" "ls_index s = 0" "ls_suspending s"
  shows "good (beginResumptionAsRoot s)"
proof -
  have "ls_inv (s\<lparr>ls_resuming := True\<rparr>)" using assms by (auto simp: ls_inv_def)
  then show ?thesis using assms resume_good [of "s\<lparr>ls_resuming := True\<rparr>"]
    by (auto simp: beginResumptionAsRoot_def ls_inv_def)
qed

lemmas ls_good = handle_good balancing_good suspension_good resumption_good rejection_good joining_good
  freed_good reset_good

lemma perform_good:
  assumes "ls_inv s" "call_ok c s"
  shows "good (ls_perform c s)"
  using assms ls_good [OF assms(1)] by (cases c) (auto simp: ls_perform_def call_ok_def)

lemma created_inv: "LocalScheduler myRank jobId t = Inr s \<Longrightarrow> 0 \<le> jt_index t \<Longrightarrow> ls_inv s"
  by (auto simp: LocalScheduler_def res_bind_eq_Inr_iff ls_inv_def getLeftChildIndex_def getRightChildIndex_def)

lemma reachable_inv: "ls_reachable s \<Longrightarrow> ls_inv s"
proof (induction rule: ls_reachable.induct)
  case (called s c s' out)
  then show ?case using perform_good [of s c] by simp
qed (rule created_inv)

text \<open>
  Property (C3): in every state a scheduler can reach, sessions exist exactly while it is not
  suspended, each for its own child index, a suspending scheduler is not suspended and only the root
  can be resuming. Every further call that respects its preconditions succeeds: no assertion fails, no
  null session is dereferenced and every loop ends; and the node lists that it sends satisfy the
  preconditions of the schedulers that receive them.
\<close>
theorem scheduler_never_stuck:
  assumes "ls_reachable s"
  shows "(ls_suspended s \<longleftrightarrow> ls_left s = None) \<and> (ls_suspended s \<longleftrightarrow> ls_right s = None)
    \<and> \<not> (ls_suspending s \<and> ls_suspended s) \<and> (ls_resuming s \<longrightarrow> ls_index s = 0 \<and> ls_suspending s)
    \<and> (\<forall>l. ls_left s = Some l \<longrightarrow> ci_childIndex l = 2 * ls_index s + 1 \<and> ci_inv l)
    \<and> (\<forall>r. ls_right s = Some r \<longrightarrow> ci_childIndex r = 2 * ls_index s + 2 \<and> ci_inv r)
    \<and> (\<forall>c. call_ok c s \<longrightarrow> (\<exists>s' out. ls_perform c s = Inr (s', out) \<and> (\<forall>e \<in> set out. sched_event_ok e)))"
proof -
  note inv = reachable_inv [OF assms]
  have "\<exists>s' out. ls_perform c s = Inr (s', out) \<and> (\<forall>e \<in> set out. sched_event_ok e)" if "call_ok c s" for c
    using perform_good [OF inv that] by (rule goodE) blast
  moreover have "\<forall>l. ls_left s = Some l \<longrightarrow> ci_childIndex l = 2 * ls_index s + 1 \<and> ci_inv l"
    "\<forall>r. ls_right s = Some r \<longrightarrow> ci_childIndex r = 2 * ls_index s + 2 \<and> ci_inv r"
    using inv by (auto simp: ls_inv_def)
  ultimately show ?thesis using inv unfolding ls_inv_def by blast
qed

text \<open>
  Property (C13): a suspending node that is not the root returns its nodes as soon as it can. If a
  session still waits for its child, the other does not, and the child's list arrives, then this very
  message makes the scheduler suspended, without sessions and ready to be committed again, and sends
  exactly one message to the parent; it lists the node itself, no lost node, and every rank that one of
  the sessions or the child knew as not lost under the chosen newest entry; nothing is invented.
\<close>
theorem last_child_completes_suspension:
  assumes "ls_reachable s" "ls_suspending s" "ls_index s > 0"
    and "getSessionByChildRank child s = Some (d, ci)" "session (other_side d) s = Some cj"
    and "\<not> ci_childHasNodes cj" "\<forall>n \<in> set (su_inactiveJobNodes u). ijn_lastEpoch n \<le> INT_MAX"
  defines "me \<equiv> InactiveJobNode (ls_my_rank s) (ls_index s) (ls_last_update_epoch s)"
    and "known \<equiv> set (ci_nodes ci) \<union> set (su_inactiveJobNodes u) \<union> set (ci_nodes cj)"
  shows "\<exists>s' upd. handle (Return_Nodes child u) s = Inr (s', [MSG_SCHED_RETURN_NODES (ls_parent_rank s) upd])
    \<and> ls_suspended s' \<and> \<not> ls_suspending s' \<and> canCommit s' \<and> ls_left s' = None \<and> ls_right s' = None
    \<and> su_jobId upd = ls_job_id s \<and> su_destinationIndex upd = ls_parent_index s
    \<and> (\<forall>n \<in> set (su_inactiveJobNodes upd). ijn_status n = AVAILABLE)
    \<and> (node_key me \<in> node_key ` known \<or> me \<in> set (su_inactiveJobNodes upd))
    \<and> {r \<in> ijn_rank ` known. \<forall>n \<in> known. ijn_rank n = r \<longrightarrow> ijn_status n \<noteq> LOST}
        \<subseteq> ijn_rank ` set (su_inactiveJobNodes upd)
    \<and> ijn_rank ` set (su_inactiveJobNodes upd) \<subseteq> insert (ls_my_rank s) (ijn_rank ` known)"
proof -
  let ?ci = "addJobNodesFromSuspendedChild (su_inactiveJobNodes u) ci"
  let ?s = "set_session d ?ci s"
  note inv = reachable_inv [OF assms(1)]
  have dci: "session d s = Some ci"
    using find_session_Some assms(4) by (auto simp: getSessionByChildRank_def)
  have h: "handle_message (Return_Nodes child u) s = Inr (?s, [])"
    using assms(4) by (simp add: handle_message_def)
  have "session_inv (ci_childIndex ci) (Some ?ci)"
    using session_ok(1) [OF inv dci] assms(7) by (intro merge_frame) auto
  then have inv': "ls_inv ?s" by (intro set_session_inv [OF inv dci]) auto
  have sfields: "ls_suspending ?s = ls_suspending s" "ls_index ?s = ls_index s" "ls_my_rank ?s = ls_my_rank s"
    "ls_last_update_epoch ?s = ls_last_update_epoch s" "ls_parent_rank ?s = ls_parent_rank s"
    "ls_job_id ?s = ls_job_id s" "ls_parent_index ?s = ls_parent_index s" "ls_resuming ?s = ls_resuming s"
    by (cases d; simp add: set_session_def)+
  obtain l r where lr: "ls_left ?s = Some l" "ls_right ?s = Some r" "{l, r} = {?ci, cj}"
    using assms(5) by (cases d) (auto simp: set_session_def session_def other_side_def)
  have idle: "\<not> ci_childHasNodes l" "\<not> ci_childHasNodes r"
    using lr(3) assms(6) by (auto simp: addJobNodesFromSuspendedChild_def doubleton_eq_iff)
  have merged: "ijn_rank ` set (ci_nodes ?ci) = ijn_rank ` (set (ci_nodes ci) \<union> set (su_inactiveJobNodes u))"
    "set (ci_nodes ?ci) \<subseteq> set (ci_nodes ci) \<union> set (su_inactiveJobNodes u)"
    using mergePreferringNewer_spec [OF ci_invD(1) [OF session_ok(1) [OF inv dci]], where other = "su_inactiveJobNodes u"]
    by (auto simp: addJobNodesFromSuspendedChild_def)
  have un: "set (ci_nodes l) \<union> set (ci_nodes r) = set (ci_nodes ?ci) \<union> set (ci_nodes cj)"
    using lr(3) by (auto simp: doubleton_eq_iff)
  obtain ns where ns: "return_if_possible ?s = Inr (no_sessions (?s\<lparr>ls_suspending := False, ls_suspended := True\<rparr>),
      [MSG_SCHED_RETURN_NODES (ls_parent_rank ?s) (return_update ?s ns)])"
    "nodes_ok ns" "ijn_rank ` set ns = ijn_rank ` (set (ci_nodes l) \<union> set (ci_nodes r))"
    "set ns \<subseteq> set (ci_nodes l) \<union> set (ci_nodes r)"
    by (rule return_spec [OF inv' _ _ lr(1,2) idle]) (use assms(2,3) sfields in auto)
  let ?s' = "no_sessions (?s\<lparr>ls_suspending := False, ls_suspended := True\<rparr>)"
  have "resume_if_possible ?s' = Inr (?s', [])"
    using inv assms(3) sfields by (simp add: resume_if_possible_def canResumeAsRoot_def no_sessions_def ls_inv_def)
  then have out: "handle (Return_Nodes child u) s =
      Inr (?s', [MSG_SCHED_RETURN_NODES (ls_parent_rank s) (return_update ?s ns)])"
    using h ns(1) sfields by (simp add: handle_def)
  have sub: "set ns \<subseteq> known" "ijn_rank ` set ns = ijn_rank ` known"
    using ns(3,4) un merged by (auto simp: known_def image_Un)
  have "{r \<in> ijn_rank ` known. \<forall>n \<in> known. ijn_rank n = r \<longrightarrow> ijn_status n \<noteq> LOST}
      \<subseteq> ijn_rank ` {n \<in> set ns. ijn_status n \<noteq> LOST}"
  proof
    fix x assume x: "x \<in> {r \<in> ijn_rank ` known. \<forall>n \<in> known. ijn_rank n = r \<longrightarrow> ijn_status n \<noteq> LOST}"
    then have "x \<in> ijn_rank ` set ns" using sub(2) by simp
    then obtain n where "n \<in> set ns" "ijn_rank n = x" by auto
    then show "x \<in> ijn_rank ` {n \<in> set ns. ijn_status n \<noteq> LOST}" using x sub(1) by blast
  qed
  note U = return_update_spec(2-) [OF ns(2), where s = ?s, unfolded sfields, folded me_def]
    and keep = subset_trans [OF this U(3)]
  have "node_key me \<in> node_key ` known \<or> me \<in> set (su_inactiveJobNodes (return_update ?s ns))"
    using U(2) image_mono [OF sub(1), of node_key] by blast
  moreover have "su_jobId (return_update ?s ns) = ls_job_id s" "su_destinationIndex (return_update ?s ns) = ls_parent_index s"
    by (simp_all add: return_update_def sfields Let_def)
  moreover have "ls_suspended ?s'" "\<not> ls_suspending ?s'" "canCommit ?s'" "ls_left ?s' = None" "ls_right ?s' = None"
    by (simp_all add: canCommit_def no_sessions_def)
  ultimately show ?thesis
    using out U(1) keep U(4) [unfolded sub(2)] by (intro exI [of _ ?s'] exI [of _ "return_update ?s ns"] conjI)
qed

text \<open>A sequence of calls, stopped at a call whose preconditions do not hold.\<close>

fun ls_run :: "ls_call list \<Rightarrow> local_scheduler \<Rightarrow> local_scheduler res" where
  "ls_run [] s = Inr s"
| "ls_run (c # cs) s =
     (if call_ok c s then res_bind (ls_perform c s) (\<lambda>(s', out). ls_run cs s') else Inl Aborted)"

lemma ls_run_reachable: "ls_run cs s = Inr s' \<Longrightarrow> ls_reachable s \<Longrightarrow> ls_reachable s'"
  by (induction cs arbitrary: s) (auto simp: res_bind_eq_Inr_iff split: if_splits intro: ls_reachable.called)

text \<open>A suspending node with index 1 on rank 3 whose left child on rank 5 still has nodes.\<close>

definition sample_scheduler :: "local_scheduler res" where
  "sample_scheduler =
     res_bind (jt_update 1 8 8 (JobTree (\<lambda>seed n xs. xs) 10 3 9 False)) (\<lambda>t.
     res_bind (LocalScheduler 3 9 t) (\<lambda>s.
       if jt_index t = 1
       then ls_run [Handle_Message (Initialize_Child_With_Nodes 8 (JobSchedulingUpdate_init
               \<lparr>su_jobId := 9, su_epoch := 2, su_volume := 6, su_inactiveJobNodes := [InactiveJobNode 7 4 0]\<rparr>)),
             Handle_Child_Joining 5 2 3, Begin_Suspension 3] s
       else Inl Aborted))"

lemma sample_scheduler_reachable: "sample_scheduler = Inr s \<Longrightarrow> ls_reachable s"
  unfolding sample_scheduler_def
  by (auto simp only: res_bind_eq_Inr_iff split: if_splits intro: ls_run_reachable [OF _ ls_reachable.created])

lemma sample_scheduler_state:
  "case sample_scheduler of
     Inl e \<Rightarrow> False
   | Inr s \<Rightarrow> ls_suspending s \<and> ls_index s = 1 \<and> ls_my_rank s = 3 \<and> ls_parent_rank s = 8
       \<and> (case getSessionByChildRank 5 s of None \<Rightarrow> False | Some (d, ci) \<Rightarrow>
           (case session (other_side d) s of None \<Rightarrow> False | Some cj \<Rightarrow>
             \<not> ci_childHasNodes cj \<and> (\<forall>n \<in> set (ci_nodes ci) \<union> set (ci_nodes cj). ijn_rank n \<noteq> 6)))"
  by code_simp

theorem scheduler_never_stuck_witness:
  "case sample_scheduler of
     Inl e \<Rightarrow> False
   | Inr s \<Rightarrow> ls_left s \<noteq> None \<and> (\<exists>s' out. ls_perform (Update_Balancing 7 1 False False) s = Inr (s', out))"
proof -
  obtain s where s: "sample_scheduler = Inr s" "ls_suspending s"
    using sample_scheduler_state by (auto split: sum.splits)
  have ok: "call_ok (Update_Balancing 7 1 False False) s" by (simp add: call_ok_def)
  note reach = sample_scheduler_reachable [OF s(1)]
  show ?thesis unfolding s(1) sum.case
    using scheduler_never_stuck [OF reach] ok s(2) by blast
qed

theorem last_child_completes_suspension_witness:
  "case sample_scheduler of
     Inl e \<Rightarrow> False
   | Inr s \<Rightarrow> (\<exists>s' upd. handle (Return_Nodes 5 (JobSchedulingUpdate_init
            \<lparr>su_inactiveJobNodes := [InactiveJobNode 6 7 1]\<rparr>)) s = Inr (s', [MSG_SCHED_RETURN_NODES 8 upd])
        \<and> canCommit s' \<and> 6 \<in> ijn_rank ` set (su_inactiveJobNodes upd))"
proof -
  let ?u = "JobSchedulingUpdate_init\<lparr>su_inactiveJobNodes := [InactiveJobNode 6 7 1]\<rparr>"
  obtain s d ci cj where s: "sample_scheduler = Inr s" "ls_suspending s" "ls_index s = 1" "ls_parent_rank s = 8"
    "getSessionByChildRank 5 s = Some (d, ci)" "session (other_side d) s = Some cj" "\<not> ci_childHasNodes cj"
    "\<forall>n \<in> set (ci_nodes ci) \<union> set (ci_nodes cj). ijn_rank n \<noteq> 6"
    using sample_scheduler_state by (auto split: sum.splits option.splits)
  have ep: "\<forall>n \<in> set (su_inactiveJobNodes ?u). ijn_lastEpoch n \<le> INT_MAX" and idx: "ls_index s > 0"
    using s(3) by (simp_all add: InactiveJobNode_def)
  let ?known = "set (ci_nodes ci) \<union> set (su_inactiveJobNodes ?u) \<union> set (ci_nodes cj)"
  have "6 \<in> {r \<in> ijn_rank ` ?known. \<forall>n \<in> ?known. ijn_rank n = r \<longrightarrow> ijn_status n \<noteq> LOST}"
    using s(8) by (auto simp: InactiveJobNode_def)
  then show ?thesis unfolding s(1) sum.case
    using last_child_completes_suspension [OF sample_scheduler_reachable [OF s(1)] s(2) idx s(5,6,7) ep]
    unfolding s(4) by blast
qed

end
