(* ===== verification/Job.thy ===== *)
theory Job
  imports Job_Comm Job_Description Job_Result Local_Scheduler
begin

text \<open>
  One node of a job (class \<open>Job\<close> in src/src/app/job.hpp and job.cpp): its life cycle, its commitment to a
  request, its demand for resources and its accounting of used time. The methods \<open>appl_*\<close>, which an
  application implements, are output events; what they return is an argument. The current time is an
  argument; times are rationals rounded like \<open>float\<close>. The library function \<open>std::pow\<close> is an argument of
  the two definitions that call it.
\<close>

section \<open>State\<close>

datatype job_state = INACTIVE | ACTIVE | SUSPENDED | PAST

record job_params =
  pa_growthPeriod :: rat
  pa_continuousGrowth :: bool
  pa_maxDemand :: int
  pa_numThreadsPerProcess :: int
  pa_useDormantChildren :: bool
  pa_jobCommUpdatePeriod :: rat
  pa_maxLiteralsPerThread :: int

record job =
  j_id :: int
  j_appl :: application
  j_has_description :: bool
  j_description :: job_description
  j_desired_revision :: int
  j_last_solved_revision :: int
  j_time_of_arrival :: rat
  j_time_of_activation :: rat
  j_time_of_first_volume_update :: rat
  j_time_of_abort :: rat
  j_time_of_last_limit_check :: rat
  j_used_cpu_seconds :: rat
  j_growth_period :: rat
  j_continuous_growth :: bool
  j_max_demand :: int
  j_threads_per_job :: int
  j_state :: job_state
  j_commitment :: "job_request option"
  j_balancing_epoch_of_last_commitment :: int
  j_result :: "job_result option"
  j_waiting_rank_revision_pairs :: "(int \<times> int) list"
  j_job_tree :: job_tree
  j_comm :: job_comm
  j_volume :: int
  j_priority :: float32
  j_last_temperature :: rat
  j_age_of_const_cooldown :: int
  j_last_demand :: int

datatype job_event =
    Appl_Start | Appl_Suspend | Appl_Resume | Appl_Terminate
  | Appl_Begin_Communication | Appl_Communicate int job_message
  | Cancel_Send int
  | Send_Message int job_message

type_synonym job_result_of_call = "(job \<times> job_event list) res"

text \<open>A default-constructed description; the members without initializer are written before they are read.\<close>

definition no_description :: job_description where
  "no_description = (JobDescription 0 f32_one ONESHOT_SAT False)\<lparr>jd_revision := -1\<rparr>"

text \<open>\<open>0.01f\<close> is the initial priority.\<close>

definition Job :: "rat \<Rightarrow> shuffler \<Rightarrow> job_params \<Rightarrow> int \<Rightarrow> int \<Rightarrow> int \<Rightarrow> application \<Rightarrow> job" where
  "Job now shuffle params commSize worldRank jobId appl =
     \<lparr>j_id = jobId, j_appl = appl, j_has_description = False, j_description = no_description,
      j_desired_revision = 0, j_last_solved_revision = -1, j_time_of_arrival = now, j_time_of_activation = 0,
      j_time_of_first_volume_update = -1, j_time_of_abort = 0,
      j_time_of_last_limit_check = 0, j_used_cpu_seconds = 0, j_growth_period = pa_growthPeriod params,
      j_continuous_growth = pa_continuousGrowth params, j_max_demand = pa_maxDemand params,
      j_threads_per_job = pa_numThreadsPerProcess params, j_state = INACTIVE, j_commitment = None,
      j_balancing_epoch_of_last_commitment = -1, j_result = None, j_waiting_rank_revision_pairs = [],
      j_job_tree = JobTree shuffle commSize worldRank jobId (pa_useDormantChildren params),
      j_comm = JobComm jobId (pa_jobCommUpdatePeriod params), j_volume = 1, j_priority = 0x3C23D70A,
      j_last_temperature = 1, j_age_of_const_cooldown = -1, j_last_demand = 0\<rparr>"

section \<open>Requests for children\<close>

text \<open>The callbacks handed to the scheduler: a request for a certain worker or for any worker, its tag is
  represented by the first component, the last two are the child and the destination.\<close>

datatype request_tag = MSG_REQUEST_NODE_ONESHOT | MSG_REQUEST_NODE

definition emit_request ::
    "float32 \<Rightarrow> int \<Rightarrow> int \<Rightarrow> int option \<Rightarrow> job \<Rightarrow> (request_tag \<times> job_request \<times> bool \<times> int) res" where
  "emit_request birth epoch requestedIndex rank j =
     res_bind (getRootNodeRank (j_job_tree j)) (\<lambda>root.
       let req = (JobRequest (j_id j) (j_appl j) root (jt_rank (j_job_tree j)) requestedIndex birth epoch
                    (case rank of Some _ \<Rightarrow> -2 | None \<Rightarrow> 0))\<lparr>req_revision := max 0 (j_desired_revision j)\<rparr>;
           left = requestedIndex = getLeftChildIndex (j_job_tree j)
       in Inr (case rank of Some r \<Rightarrow> (MSG_REQUEST_NODE_ONESHOT, req, left, r)
                          | None \<Rightarrow> (MSG_REQUEST_NODE, req, left, -1)))"

definition constructScheduler :: "int \<Rightarrow> job \<Rightarrow> local_scheduler res" where
  "constructScheduler myRank j = LocalScheduler myRank (j_id j) (j_job_tree j)"

section \<open>Resources\<close>

definition updateVolumeAndUsedCpu :: "rat \<Rightarrow> int \<Rightarrow> job \<Rightarrow> job" where
  "updateVolumeAndUsedCpu now newVolume j =
     (if j_state j = ACTIVE \<and> isRoot (j_job_tree j)
      then j\<lparr>j_used_cpu_seconds :=
               round24 (j_used_cpu_seconds j +
                 round24 (round24 (round24 (now - j_time_of_last_limit_check j)
                   * round24 (of_int (j_threads_per_job j))) * round24 (of_int (j_volume j)))),
             j_time_of_last_limit_check := now\<rparr>
      else j)\<lparr>j_volume := newVolume\<rparr>"

definition limit_exceeded :: "bool \<Rightarrow> float32 \<Rightarrow> rat \<Rightarrow> rat \<Rightarrow> bool" where
  "limit_exceeded hasDescription limit globalLimit used \<longleftrightarrow>
     globalLimit > 0 \<and> used > globalLimit
     \<or> hasDescription \<and> f32_less f32_zero limit \<and> used > f32_val limit"

definition checkResourceLimit :: "rat \<Rightarrow> rat \<Rightarrow> rat \<Rightarrow> job \<Rightarrow> bool \<times> job" where
  "checkResourceLimit now wcSecsPerInstance cpuSecsPerInstance j =
     (let j = updateVolumeAndUsedCpu now (j_volume j) j;
          usedWcSecs = round24 (now - j_time_of_activation j);
          usedCpuSecs = j_used_cpu_seconds j
      in (limit_exceeded (j_has_description j) (jd_cpu_limit (j_description j)) cpuSecsPerInstance usedCpuSecs
          \<or> limit_exceeded (j_has_description j) (jd_wallclock_limit (j_description j)) wcSecsPerInstance usedWcSecs, j))"

section \<open>Life cycle\<close>

definition updateJobTree :: "int \<Rightarrow> int \<Rightarrow> int \<Rightarrow> job \<Rightarrow> job res" where
  "updateJobTree index rootRank parentRank j =
     res_bind (jt_update index (if index = 0 then -1 else rootRank) parentRank (j_job_tree j))
       (\<lambda>t. Inr (j\<lparr>j_job_tree := t\<rparr>))"

definition commit :: "job_request \<Rightarrow> job \<Rightarrow> job res" where
  "commit req j =
     check (j_state j \<noteq> ACTIVE) (check (j_state j \<noteq> PAST)
       (updateJobTree (req_requestedNodeIndex req) (req_rootRank req) (req_requestingNodeRank req)
          (j\<lparr>j_commitment := Some req, j_balancing_epoch_of_last_commitment := req_balancingEpoch req,
             j_job_tree := clearJobNodeUpdates (j_job_tree j)\<rparr>)))"

definition uncommit :: "job \<Rightarrow> job res" where
  "uncommit j = check (j_state j \<noteq> ACTIVE) (Inr (j\<lparr>j_commitment := None\<rparr>))"

text \<open>The product of two \<open>int\<close>s is computed as an \<open>int\<close> before it is stored in a \<open>long\<close>.\<close>

definition limit_threads :: "int \<Rightarrow> 64 word \<Rightarrow> int \<Rightarrow> int res" where
  "limit_threads maxLiteralsPerThread numLiterals threads =
     (if maxLiteralsPerThread > 0 \<and> uint numLiterals > maxLiteralsPerThread
      then let maxAllowedLiterals = threads * maxLiteralsPerThread
           in if int32 maxAllowedLiterals
              then res_bind
                     (to_int (of_int \<lfloor>round24 (round24 (of_int maxAllowedLiterals) / round24 (of_int (uint numLiterals)))\<rfloor>))
                     (\<lambda>optNumThreads. Inr (max 1 optNumThreads))
              else Inl Undefined_behaviour
      else Inr threads)"

definition pushRevision :: "job_params \<Rightarrow> byte list \<Rightarrow> job \<Rightarrow> job res" where
  "pushRevision params data j =
     res_bind (JobDescription_deserialize data (j_description j)) (\<lambda>desc.
       let j = j\<lparr>j_description := desc, j_priority := jd_priority desc,
                 j_max_demand := (if jd_max_demand desc > 0
                   then if j_max_demand j = 0 then jd_max_demand desc else min (j_max_demand j) (jd_max_demand desc)
                   else j_max_demand j)\<rparr>
       in res_bind (limit_threads (pa_maxLiteralsPerThread params) (jd_f_size desc) (j_threads_per_job j))
            (\<lambda>threads. Inr (j\<lparr>j_threads_per_job := threads, j_has_description := True, j_result := None\<rparr>)))"

definition start :: "rat \<Rightarrow> job \<Rightarrow> job_result_of_call" where
  "start now j =
     check (j_state j = INACTIVE)
       (Inr (j\<lparr>j_time_of_activation := (if j_time_of_activation j \<le> 0 then now else j_time_of_activation j),
               j_time_of_last_limit_check := now, j_volume := max 1 (j_volume j), j_state := ACTIVE\<rparr>,
             [Appl_Start]))"

definition unset_children :: "job \<Rightarrow> job_result_of_call" where
  "unset_children j =
     res_bind (unsetLeftChild (j_job_tree j)) (\<lambda>(t, left).
     res_bind (unsetRightChild t) (\<lambda>(t, right).
       Inr (j\<lparr>j_job_tree := t\<rparr>, map Cancel_Send (left @ right))))"

definition suspend :: "rat \<Rightarrow> job \<Rightarrow> job_result_of_call" where
  "suspend now j =
     check (j_state j = ACTIVE)
       (res_bind (unset_children (j\<lparr>j_state := SUSPENDED\<rparr>)) (\<lambda>(j, cancelled).
          Inr (updateVolumeAndUsedCpu now (j_volume j) j, Appl_Suspend # cancelled)))"

definition resume :: "rat \<Rightarrow> job \<Rightarrow> job_result_of_call" where
  "resume now j =
     check (j_state j = SUSPENDED)
       (Inr (j\<lparr>j_volume := max 1 (j_volume j), j_state := ACTIVE, j_time_of_last_limit_check := now\<rparr>,
             [Appl_Resume]))"

definition terminate :: "rat \<Rightarrow> job \<Rightarrow> job_result_of_call" where
  "terminate now j =
     (let j = (if j_state j = ACTIVE then updateVolumeAndUsedCpu now (j_volume j) j else j)
      in res_bind (unset_children (j\<lparr>j_state := PAST\<rparr>)) (\<lambda>(j, cancelled).
           Inr (j\<lparr>j_time_of_abort := now\<rparr>, Appl_Terminate # cancelled)))"

definition isDestructible :: "bool \<Rightarrow> job \<Rightarrow> bool res" where
  "isDestructible appl_isDestructible j = check (j_state j = PAST) (Inr appl_isDestructible)"

definition getResult :: "job_result \<Rightarrow> job \<Rightarrow> (job_result \<times> job) res" where
  "getResult appl_getResult j =
     (let result = (case j_result j of None \<Rightarrow> appl_getResult | Some r \<Rightarrow> r)
      in check (jr_id result \<ge> 1) (Inr (result, j\<lparr>j_result := Some result\<rparr>)))"

section \<open>Demand and temperature\<close>

fun growth_loop :: "int \<Rightarrow> nat \<Rightarrow> int \<Rightarrow> int" where
  "growth_loop commSize 0 demand = demand"
| "growth_loop commSize (Suc n) demand =
     (if demand < commSize then growth_loop commSize n (2 * demand + 1) else demand)"

definition grown_demand :: "(rat \<Rightarrow> rat \<Rightarrow> rat) \<Rightarrow> rat \<Rightarrow> job \<Rightarrow> int res" where
  "grown_demand pow now j =
     (let commSize = jt_comm_size (j_job_tree j) in
      if j_growth_period j \<le> 0 then Inr commSize
      else if j_time_of_activation j \<le> 0 then Inr 1
      else
        let t = round24 (now - j_time_of_activation j);
            numPeriods = min (round24 (t / j_growth_period j)) 28
        in if \<not> j_continuous_growth j
           then res_bind (to_int (of_int \<lfloor>numPeriods\<rfloor>)) (\<lambda>intPeriods.
                  Inr (min commSize (growth_loop commSize (nat intPeriods) 1)))
           else res_bind (to_int (pow 2 (round24 (numPeriods + 1)))) (\<lambda>p. Inr (min commSize (p - 1))))"

definition getDemand :: "(rat \<Rightarrow> rat \<Rightarrow> rat) \<Rightarrow> rat \<Rightarrow> job \<Rightarrow> int res" where
  "getDemand pow now j =
     (if j_state j \<noteq> ACTIVE then Inr (if j_commitment j \<noteq> None then 1 else 0)
      else res_bind (grown_demand pow now j) (\<lambda>demand.
        Inr (if j_max_demand j > 0 then min demand (j_max_demand j) else demand)))"

definition getTemperature :: "(rat \<Rightarrow> rat \<Rightarrow> rat) \<Rightarrow> rat \<Rightarrow> job \<Rightarrow> (rat \<times> job) res" where
  "getTemperature pow now j =
     (let baseTemp = round53 (95 / 100); decay = round53 (99 / 100); eps = 1 / 2 ^ 51 in
      res_bind (to_int (round24 (now - j_time_of_activation j))) (\<lambda>age.
        let temp = round53 (baseTemp + round53 (round53 (1 - baseTemp) * pow decay (of_int (age + 1))));
            j = (if j_age_of_const_cooldown j < 0 \<and> round53 (j_last_temperature j - temp) \<le> eps
                 then j\<lparr>j_age_of_const_cooldown := age\<rparr> else j);
            cooldown = j_age_of_const_cooldown j
        in if 0 \<le> cooldown
           then Inr (round53 (round53 (baseTemp + round53 (round53 (1 - baseTemp) * pow decay (of_int (cooldown + 1))))
                       - round53 (of_int (age - cooldown + 1) * eps)), j)
           else Inr (temp, j\<lparr>j_last_temperature := temp\<rparr>)))"

section \<open>Communication\<close>

definition wantsToCommunicate :: "rat \<Rightarrow> bool \<Rightarrow> job \<Rightarrow> bool \<times> job" where
  "wantsToCommunicate now appl_wants j =
     (if j_state j \<noteq> ACTIVE then (False, j)
      else let (wants, c) = wantsToAggregate now (j_job_tree j) (j_comm j)
           in (wants \<or> appl_wants, j\<lparr>j_comm := c\<rparr>))"

definition begin_communication :: "rat \<Rightarrow> int \<Rightarrow> job \<Rightarrow> job_result_of_call" where
  "begin_communication now revision j =
     (if jc_aggregate_ranklist (j_comm j)
      then res_bind (beginAggregation now revision (j_job_tree j) (j_comm j)) (\<lambda>(c, out).
             Inr (j\<lparr>j_comm := c\<rparr>, map (\<lambda>(dest, msg). Send_Message dest msg) out))
      else Inr (j, [Appl_Begin_Communication]))"

definition communicate :: "int \<Rightarrow> job_message \<Rightarrow> job \<Rightarrow> job_result_of_call" where
  "communicate source msg j =
     res_bind (jc_handle (j_job_tree j) msg (j_comm j)) (\<lambda>(handled, msg, c, out).
       let j = j\<lparr>j_comm := c\<rparr>
       in Inr (j, if handled then map (\<lambda>(dest, msg). Send_Message dest msg) out
                  else [Appl_Communicate source msg]))"

section \<open>Lemmas\<close>

lemma growth_loop_closed:
  "0 \<le> demand \<Longrightarrow> min commSize (growth_loop commSize n demand) = min commSize (2 ^ n * (demand + 1) - 1)"
proof (induction n arbitrary: demand)
  case (Suc n)
  show ?case
  proof (cases "demand < commSize")
    case True
    then show ?thesis using Suc.IH [of "2 * demand + 1"] Suc.prems by (simp add: algebra_simps)
  next
    case False
    have "demand + 1 \<le> 2 ^ Suc n * (demand + 1)"
      using Suc.prems mult_right_mono [of 1 "2 ^ Suc n" "demand + 1"] one_le_power [of "2::int" "Suc n"]
      by (simp del: power_Suc)
    with False show ?thesis by (simp del: power_Suc)
  qed
qed simp

lemma round24_nonneg: "0 \<le> x \<Longrightarrow> 0 \<le> round24 x"
  using round_sig_mono [of 0 x 24] by (simp add: round_sig_def)

text \<open>What \<open>std::pow\<close> is relied on: with base 2 it is monotone and exact on integers, so that it maps the
  exponents between 1 and 29 to values between \<open>2\<close> and \<open>2\<^sup>29\<close>.\<close>

definition pow2_ok :: "(rat \<Rightarrow> rat \<Rightarrow> rat) \<Rightarrow> bool" where
  "pow2_ok pow \<longleftrightarrow> (\<forall>x. 1 \<le> x \<and> x \<le> 29 \<longrightarrow> 2 \<le> pow 2 x \<and> pow 2 x \<le> 2 ^ 29)"

definition periods :: "rat \<Rightarrow> job \<Rightarrow> rat" where
  "periods now j = min (round24 (round24 (now - j_time_of_activation j) / j_growth_period j)) 28"

lemma periods_bounds:
  assumes "j_time_of_activation j \<le> now" "0 < j_growth_period j"
  shows "0 \<le> periods now j" "periods now j \<le> 28"
proof -
  have "0 \<le> round24 (round24 (now - j_time_of_activation j) / j_growth_period j)"
    using assms by (intro round24_nonneg divide_nonneg_pos) auto
  then show "0 \<le> periods now j" "periods now j \<le> 28" by (simp_all add: periods_def)
qed

lemma continuous_exponent:
  assumes "0 \<le> x" "x \<le> 28"
  shows "1 \<le> round24 (x + 1)" "round24 (x + 1) \<le> 29"
proof -
  have "round24 (of_int 1) = of_int 1" "round24 (of_int 29) = of_int 29" by (intro round_sig_of_int; simp)+
  then show "1 \<le> round24 (x + 1)" "round24 (x + 1) \<le> 29"
    using round_sig_mono [of 1 "x + 1" 24] round_sig_mono [of "x + 1" 29 24] assms by simp_all
qed

lemma grown_demand_spec:
  assumes "1 \<le> jt_comm_size (j_job_tree j)" "pow2_ok pow"
    and "0 < j_growth_period j \<Longrightarrow> j_time_of_activation j \<le> now"
  shows "\<exists>d. grown_demand pow now j = Inr d \<and> 1 \<le> d \<and> d \<le> jt_comm_size (j_job_tree j)
    \<and> (0 < j_growth_period j \<and> 0 < j_time_of_activation j \<and> \<not> j_continuous_growth j \<longrightarrow>
         d = min (jt_comm_size (j_job_tree j)) (2 ^ (nat \<lfloor>periods now j\<rfloor> + 1) - 1))"
proof (cases "0 < j_growth_period j \<and> 0 < j_time_of_activation j")
  case False
  then show ?thesis using assms(1) by (auto simp: grown_demand_def Let_def)
next
  case True
  let ?n = "jt_comm_size (j_job_tree j)" and ?x = "periods now j"
  have x: "0 \<le> ?x" "?x \<le> 28" using periods_bounds assms(3) True by auto
  show ?thesis
  proof (cases "j_continuous_growth j")
    case False
    have f: "0 \<le> \<lfloor>?x\<rfloor>" "\<lfloor>?x\<rfloor> \<le> 28" using x by (auto simp: floor_le_iff)
    then have "to_int (of_int \<lfloor>?x\<rfloor>) = Inr \<lfloor>?x\<rfloor>" by (simp add: to_int_def abs_if)
    then have "grown_demand pow now j = Inr (min ?n (2 ^ (nat \<lfloor>?x\<rfloor> + 1) - 1))"
      using True False growth_loop_closed [of 1 ?n "nat \<lfloor>?x\<rfloor>"]
      by (simp add: grown_demand_def Let_def periods_def [symmetric])
    moreover have "(1::int) < 2 ^ (nat \<lfloor>?x\<rfloor> + 1)" by (rule one_less_power) auto
    ultimately show ?thesis using assms(1) by simp
  next
    case cont: True
    let ?p = "pow 2 (round24 (?x + 1))"
    have p: "2 \<le> ?p" "?p \<le> 2 ^ 29"
      using assms(2) continuous_exponent [OF x] by (auto simp: pow2_ok_def)
    then have "to_int ?p = Inr \<lfloor>?p\<rfloor>" "2 \<le> \<lfloor>?p\<rfloor>" by (auto simp: to_int_def le_floor_iff)
    then show ?thesis using True cont assms(1)
      by (simp add: grown_demand_def Let_def periods_def [symmetric])
  qed
qed

lemma getDemand_total:
  assumes "1 \<le> jt_comm_size (j_job_tree j)" "pow2_ok pow" "j_time_of_activation j \<le> now"
  obtains d where "getDemand pow now j = Inr d"
proof -
  obtain d where "grown_demand pow now j = Inr d"
    using grown_demand_spec [OF assms(1,2), of now] assms(3) by blast
  then have "\<exists>d. getDemand pow now j = Inr d" by (simp add: getDemand_def)
  then show ?thesis using that by blast
qed

definition tree_ok :: "job_tree \<Rightarrow> bool" where
  "tree_ok t \<longleftrightarrow> jt_inv t \<and> \<not> jt_use_dormant_children t"

definition same_place :: "job_tree \<Rightarrow> job_tree \<Rightarrow> bool" where
  "same_place t t' \<longleftrightarrow> jt_index t' = jt_index t \<and> jt_rank t' = jt_rank t \<and> jt_comm_size t' = jt_comm_size t
     \<and> jt_client_rank t' = jt_client_rank t"

lemma unset_left:
  assumes "tree_ok t"
  obtains t' cancelled where "unsetLeftChild t = Inr (t', cancelled)" "tree_ok t'" "\<not> jt_has_left_child t'"
    "jt_has_right_child t' = jt_has_right_child t" "same_place t t'"
proof (cases "jt_has_left_child t")
  case True
  let ?t = "t\<lparr>jt_past_children := insert (perm_fun (jt_job_node_ranks t) (getLeftChildIndex t)) (jt_past_children t),
              jt_has_left_child := False, jt_send_handles_left := [],
              jt_job_node_ranks := perm_clear (jt_job_node_ranks t) (getLeftChildIndex t)\<rparr>"
  have "jt_inv ?t"
    by (rule jt_inv_frame [OF clear_inv [of t "getLeftChildIndex t"]]) (use assms in \<open>auto simp: tree_ok_def\<close>)
  with True assms show ?thesis
    by (intro that [of ?t "jt_send_handles_left t"])
      (auto simp: unsetLeftChild_def getLeftChildNodeRank_def node_rank_eq addDormantChild_def tree_ok_def
        same_place_def Let_def getLeftChildIndex_def)
qed (use assms that in \<open>auto simp: unsetLeftChild_def same_place_def\<close>)

lemma unset_right:
  assumes "tree_ok t"
  obtains t' cancelled where "unsetRightChild t = Inr (t', cancelled)" "tree_ok t'" "\<not> jt_has_right_child t'"
    "jt_has_left_child t' = jt_has_left_child t" "same_place t t'"
proof (cases "jt_has_right_child t")
  case True
  let ?t = "t\<lparr>jt_past_children := insert (perm_fun (jt_job_node_ranks t) (getRightChildIndex t)) (jt_past_children t),
              jt_has_right_child := False, jt_send_handles_right := [],
              jt_job_node_ranks := perm_clear (jt_job_node_ranks t) (getRightChildIndex t)\<rparr>"
  have "jt_inv ?t"
    by (rule jt_inv_frame [OF clear_inv [of t "getRightChildIndex t"]]) (use assms in \<open>auto simp: tree_ok_def\<close>)
  with True assms show ?thesis
    by (intro that [of ?t "jt_send_handles_right t"])
      (auto simp: unsetRightChild_def getRightChildNodeRank_def node_rank_eq addDormantChild_def tree_ok_def
        same_place_def Let_def getRightChildIndex_def)
qed (use assms that in \<open>auto simp: unsetRightChild_def same_place_def\<close>)

lemma unset_children_spec:
  assumes "tree_ok (j_job_tree j)"
  obtains t cancelled where "unset_children j = Inr (j\<lparr>j_job_tree := t\<rparr>, map Cancel_Send cancelled)"
    "tree_ok t" "isLeaf t" "same_place (j_job_tree j) t"
proof -
  obtain t1 c1 where t1: "unsetLeftChild (j_job_tree j) = Inr (t1, c1)" "tree_ok t1" "\<not> jt_has_left_child t1"
    "same_place (j_job_tree j) t1" using unset_left [OF assms] by metis
  obtain t2 c2 where t2: "unsetRightChild t1 = Inr (t2, c2)" "tree_ok t2" "\<not> jt_has_right_child t2"
    "jt_has_left_child t2 = jt_has_left_child t1" "same_place t1 t2" using unset_right [OF t1(2)] by metis
  show ?thesis
    by (rule that [of t2 "c1 @ c2"]) (use t1 t2 in \<open>auto simp: unset_children_def isLeaf_def same_place_def\<close>)
qed

lemma updateJobNode_ok:
  assumes "tree_ok t"
  obtains t' where "updateJobNode i r t = Inr t'" "tree_ok t'" "same_place t t'"
    "jt_has_left_child t' = jt_has_left_child t" "jt_has_right_child t' = jt_has_right_child t"
proof -
  obtain p where p: "updateJobNode i r t = Inr (t\<lparr>jt_job_node_ranks := p\<rparr>)" "jt_inv (t\<lparr>jt_job_node_ranks := p\<rparr>)"
    using updateJobNode_spec [of t i r] assms by (auto simp: tree_ok_def)
  show ?thesis by (rule that [OF p(1)]) (use p(2) assms in \<open>auto simp: tree_ok_def same_place_def\<close>)
qed

lemma updateJobTree_ok:
  assumes "tree_ok (j_job_tree j)"
  obtains t where "updateJobTree index rootRank parentRank j = Inr (j\<lparr>j_job_tree := t\<rparr>)" "tree_ok t"
    "jt_index t = index" "jt_comm_size t = jt_comm_size (j_job_tree j)" "isRoot t \<longrightarrow> jt_client_rank t \<noteq> None"
proof -
  let ?t = "(j_job_tree j)\<lparr>jt_index := index\<rparr>"
  have ok: "tree_ok ?t" using assms by (simp add: tree_ok_def jt_inv_def pending_def)
  define root where "root = (if index = 0 \<or> (if index = 0 then -1 else rootRank) < 0 then jt_rank ?t
      else if index = 0 then -1 else rootRank)"
  obtain t1 where t1: "updateJobNode 0 root ?t = Inr t1" "tree_ok t1" "same_place ?t t1"
    using updateJobNode_ok [OF ok, of 0 root] by metis
  obtain t2 where t2: "updateJobNode (jt_index t1) (jt_rank t1) t1 = Inr t2" "tree_ok t2" "same_place t1 t2"
    using updateJobNode_ok [OF t1(2), of "jt_index t1" "jt_rank t1"] by metis
  obtain t3 where t3: "updateParentNodeRank parentRank t2 = Inr t3" "tree_ok t3" "jt_index t3 = jt_index t2"
    "jt_comm_size t3 = jt_comm_size t2" "isRoot t3 \<longrightarrow> jt_client_rank t3 \<noteq> None"
  proof (cases "isRoot t2")
    case True
    have "tree_ok (t2\<lparr>jt_client_rank := Some parentRank\<rparr>)"
      using t2(2) jt_inv_frame [of t2 "t2\<lparr>jt_client_rank := Some parentRank\<rparr>"] by (simp add: tree_ok_def)
    with True that show ?thesis by (simp add: updateParentNodeRank_def)
  next
    case False
    obtain t' where t': "updateJobNode (getParentIndex t2) parentRank t2 = Inr t'" "tree_ok t'" "same_place t2 t'"
      using updateJobNode_ok [OF t2(2), of "getParentIndex t2" parentRank] by metis
    with False show ?thesis by (intro that [of t']) (auto simp: updateParentNodeRank_def same_place_def isRoot_def)
  qed
  show ?thesis
    by (rule that [of t3])
      (use t1 t2 t3 in \<open>auto simp: updateJobTree_def jt_update_def Let_def root_def [symmetric] same_place_def\<close>)
qed

section \<open>Calls from outside\<close>

text \<open>The calls a worker makes on a job, with the time and whatever else the call depends on. A child may
  join an active node.\<close>

datatype job_call =
    Start rat | Suspend rat | Resume rat | Terminate rat
  | Commit job_request | Uncommit
  | Push_Revision job_params "byte list"
  | Update_Volume rat int | Check_Limit rat rat rat
  | Set_Child rat int int
  | Wants_To_Communicate rat bool | Begin_Communication rat int | Communicate int job_message

fun perform_call :: "job_call \<Rightarrow> job \<Rightarrow> job_result_of_call" where
  "perform_call (Start now) j = start now j"
| "perform_call (Suspend now) j = suspend now j"
| "perform_call (Resume now) j = resume now j"
| "perform_call (Terminate now) j = terminate now j"
| "perform_call (Commit req) j = res_bind (commit req j) (\<lambda>j. Inr (j, []))"
| "perform_call Uncommit j = res_bind (uncommit j) (\<lambda>j. Inr (j, []))"
| "perform_call (Push_Revision params data) j = res_bind (pushRevision params data j) (\<lambda>j. Inr (j, []))"
| "perform_call (Update_Volume now v) j = Inr (updateVolumeAndUsedCpu now v j, [])"
| "perform_call (Check_Limit now wc cpu) j = Inr (snd (checkResourceLimit now wc cpu j), [])"
| "perform_call (Set_Child now rank index) j =
     res_bind (setChild now rank index (j_job_tree j)) (\<lambda>(_, t). Inr (j\<lparr>j_job_tree := t\<rparr>, []))"
| "perform_call (Wants_To_Communicate now w) j = Inr (snd (wantsToCommunicate now w j), [])"
| "perform_call (Begin_Communication now revision) j = begin_communication now revision j"
| "perform_call (Communicate source msg) j = communicate source msg j"

fun run_calls :: "job_call list \<Rightarrow> job \<Rightarrow> job_result_of_call" where
  "run_calls [] j = Inr (j, [])"
| "run_calls (c # cs) j =
     res_bind (perform_call c j) (\<lambda>(j, out). res_bind (run_calls cs j) (\<lambda>(j, outs). Inr (j, out @ outs)))"

text \<open>The documented state diagram, as an automaton that reads the calls into the application.\<close>

fun appl_next :: "job_state \<Rightarrow> job_event \<Rightarrow> job_state option" where
  "appl_next s Appl_Start = (if s = INACTIVE then Some ACTIVE else None)"
| "appl_next s Appl_Suspend = (if s = ACTIVE then Some SUSPENDED else None)"
| "appl_next s Appl_Resume = (if s = SUSPENDED then Some ACTIVE else None)"
| "appl_next s Appl_Terminate = Some PAST"
| "appl_next s _ = Some s"

fun appl_trace :: "job_state \<Rightarrow> job_event list \<Rightarrow> job_state option" where
  "appl_trace s [] = Some s"
| "appl_trace s (e # es) = (case appl_next s e of None \<Rightarrow> None | Some s' \<Rightarrow> appl_trace s' es)"

definition call_allowed :: "job_call \<Rightarrow> job_state \<Rightarrow> bool" where
  "call_allowed c s \<longleftrightarrow>
     (case c of Start _ \<Rightarrow> s = INACTIVE | Suspend _ \<Rightarrow> s = ACTIVE | Resume _ \<Rightarrow> s = SUSPENDED
      | Commit _ \<Rightarrow> s = INACTIVE \<or> s = SUSPENDED | Uncommit \<Rightarrow> s \<noteq> ACTIVE | _ \<Rightarrow> True)"

text \<open>Calls whose success depends on data only (a serialized revision, an application message).\<close>

definition data_call :: "job_call \<Rightarrow> bool" where
  "data_call c \<longleftrightarrow>
     (case c of Push_Revision _ _ \<Rightarrow> True | Begin_Communication _ _ \<Rightarrow> True | Communicate _ _ \<Rightarrow> True | _ \<Rightarrow> False)"

lemma updateVolume_frame [simp]:
  "j_state (updateVolumeAndUsedCpu now v j) = j_state j" "j_job_tree (updateVolumeAndUsedCpu now v j) = j_job_tree j"
  by (simp_all add: updateVolumeAndUsedCpu_def)

lemma appl_trace_append:
  "appl_trace s (xs @ ys) = (case appl_trace s xs of None \<Rightarrow> None | Some s' \<Rightarrow> appl_trace s' ys)"
  by (induction xs arbitrary: s) (auto split: option.splits)

lemma appl_trace_silent:
  "appl_trace s (map Cancel_Send xs) = Some s" "appl_trace s (map (\<lambda>(d, m). Send_Message d m) ms) = Some s"
  by (induction xs, auto, induction ms, auto)

lemma setChild_ok:
  assumes "tree_ok t"
  obtains rel t' where "setChild now rank index t = Inr (rel, t')" "tree_ok t'" "same_place t t'"
proof -
  have ok: "tree_ok (t\<lparr>jt_has_left_child := True\<rparr>)" "tree_ok (t\<lparr>jt_has_right_child := True\<rparr>)"
    using assms jt_inv_frame [of t "t\<lparr>jt_has_left_child := True\<rparr>"] jt_inv_frame [of t "t\<lparr>jt_has_right_child := True\<rparr>"]
    by (auto simp: tree_ok_def)
  obtain l where l: "updateJobNode (getLeftChildIndex (t\<lparr>jt_has_left_child := True\<rparr>)) rank (t\<lparr>jt_has_left_child := True\<rparr>) = Inr l"
    "tree_ok l" "same_place (t\<lparr>jt_has_left_child := True\<rparr>) l"
    using updateJobNode_ok [OF ok(1)] by metis
  obtain r where r: "updateJobNode (getRightChildIndex (t\<lparr>jt_has_right_child := True\<rparr>)) rank (t\<lparr>jt_has_right_child := True\<rparr>) = Inr r"
    "tree_ok r" "same_place (t\<lparr>jt_has_right_child := True\<rparr>) r"
    using updateJobNode_ok [OF ok(2)] by metis
  have size: "same_place x (fulfilDesireLeft now x)" "same_place x (fulfilDesireRight now x)" for x
    by (simp_all add: fulfilDesireLeft_def fulfilDesireRight_def record_latency_def same_place_def)
  from l r have "tree_ok (fulfilDesireLeft now l)" "tree_ok (fulfilDesireRight now r)"
    by (simp_all add: tree_ok_def fulfil_inv)
  then have left: "setLeftChild now rank t = Inr (fulfilDesireLeft now l)" "tree_ok (fulfilDesireLeft now l)"
    "same_place t (fulfilDesireLeft now l)"
    and right: "setRightChild now rank t = Inr (fulfilDesireRight now r)" "tree_ok (fulfilDesireRight now r)"
    "same_place t (fulfilDesireRight now r)"
    using l r size [of l] size [of r] by (simp_all add: setLeftChild_def setRightChild_def Let_def same_place_def)
  consider "index = getLeftChildIndex t" | "index \<noteq> getLeftChildIndex t" "index = getRightChildIndex t"
    | "index \<noteq> getLeftChildIndex t" "index \<noteq> getRightChildIndex t" by blast
  then show ?thesis
    by cases (use left right assms in \<open>auto simp: setChild_def same_place_def intro: that\<close>)
qed

lemma commit_ok:
  assumes "tree_ok (j_job_tree j)" "j_state j = INACTIVE \<or> j_state j = SUSPENDED"
  obtains t where "commit req j = Inr (j\<lparr>j_commitment := Some req,
      j_balancing_epoch_of_last_commitment := req_balancingEpoch req, j_job_tree := t\<rparr>)" "tree_ok t"
    "jt_index t = req_requestedNodeIndex req" "jt_comm_size t = jt_comm_size (j_job_tree j)"
    "isRoot t \<longrightarrow> jt_client_rank t \<noteq> None"
proof -
  let ?j = "j\<lparr>j_commitment := Some req, j_balancing_epoch_of_last_commitment := req_balancingEpoch req,
             j_job_tree := clearJobNodeUpdates (j_job_tree j)\<rparr>"
  have "tree_ok (j_job_tree ?j)"
    using assms(1) by (simp add: tree_ok_def jt_inv_def clearJobNodeUpdates_def perm_clear_all_def pending_def)
  then obtain t where "updateJobTree (req_requestedNodeIndex req) (req_rootRank req) (req_requestingNodeRank req) ?j
      = Inr (?j\<lparr>j_job_tree := t\<rparr>)" "tree_ok t" "jt_index t = req_requestedNodeIndex req"
    "jt_comm_size t = jt_comm_size (j_job_tree ?j)" "isRoot t \<longrightarrow> jt_client_rank t \<noteq> None"
    by (rule updateJobTree_ok)
  with assms(2) that show ?thesis by (auto simp: commit_def clearJobNodeUpdates_def)
qed

lemma suspend_ok:
  assumes "tree_ok (j_job_tree j)" "j_state j = ACTIVE"
  obtains t cancelled where "suspend now j = Inr (j\<lparr>j_state := SUSPENDED, j_job_tree := t\<rparr>, Appl_Suspend # map Cancel_Send cancelled)"
    "tree_ok t" "isLeaf t" "same_place (j_job_tree j) t"
proof -
  obtain t cancelled where "unset_children (j\<lparr>j_state := SUSPENDED\<rparr>) =
      Inr (j\<lparr>j_state := SUSPENDED, j_job_tree := t\<rparr>, map Cancel_Send cancelled)"
    "tree_ok t" "isLeaf t" "same_place (j_job_tree j) t"
    using unset_children_spec [of "j\<lparr>j_state := SUSPENDED\<rparr>"] assms(1) by auto
  with assms(2) that show ?thesis by (simp add: suspend_def updateVolumeAndUsedCpu_def)
qed

lemma terminate_ok:
  assumes "tree_ok (j_job_tree j)"
  obtains t cancelled where "terminate now j =
      Inr ((if j_state j = ACTIVE then updateVolumeAndUsedCpu now (j_volume j) j else j)
             \<lparr>j_state := PAST, j_job_tree := t, j_time_of_abort := now\<rparr>, Appl_Terminate # map Cancel_Send cancelled)"
    "tree_ok t" "isLeaf t" "same_place (j_job_tree j) t"
proof -
  define j1 where "j1 = (if j_state j = ACTIVE then updateVolumeAndUsedCpu now (j_volume j) j else j)"
  have tree: "j_job_tree j1 = j_job_tree j" by (simp add: j1_def)
  obtain t cancelled where "unset_children (j1\<lparr>j_state := PAST\<rparr>) =
      Inr (j1\<lparr>j_state := PAST, j_job_tree := t\<rparr>, map Cancel_Send cancelled)"
    "tree_ok t" "isLeaf t" "same_place (j_job_tree j) t"
    using unset_children_spec [of "j1\<lparr>j_state := PAST\<rparr>"] assms tree by auto
  with that show ?thesis by (simp add: terminate_def Let_def j1_def)
qed

text \<open>Progress: exactly the calls that the state allows succeed.\<close>

lemma call_progress:
  assumes "tree_ok (j_job_tree j)" "\<not> data_call c"
  shows "(\<exists>r. perform_call c j = Inr r) \<longleftrightarrow> call_allowed c (j_state j)"
proof (cases c)
  case (Suspend now)
  have "\<exists>r. suspend now j = Inr r" if "j_state j = ACTIVE"
    using suspend_ok [OF assms(1) that, of now] by metis
  moreover have "j_state j = ACTIVE" if "suspend now j = Inr r" for r
    using that by (simp add: suspend_def)
  ultimately show ?thesis using Suspend by (auto simp: call_allowed_def)
next
  case (Terminate now)
  have "\<exists>r. terminate now j = Inr r" using terminate_ok [OF assms(1), of now] by metis
  then show ?thesis using Terminate by (simp add: call_allowed_def)
next
  case (Commit req)
  have "\<exists>r. commit req j = Inr r" if "j_state j = INACTIVE \<or> j_state j = SUSPENDED"
    using commit_ok [OF assms(1) that, of req] by metis
  moreover have "j_state j = INACTIVE \<or> j_state j = SUSPENDED" if "commit req j = Inr r" for r
    using that by (cases "j_state j") (simp_all add: commit_def)
  ultimately show ?thesis using Commit by (auto simp: call_allowed_def res_bind_eq_Inr_iff)
next
  case (Set_Child now rank index)
  have "\<exists>rel t. setChild now rank index (j_job_tree j) = Inr (rel, t)"
    using setChild_ok [OF assms(1), of now rank index] by metis
  then show ?thesis using Set_Child by (auto simp: call_allowed_def)
qed (use assms in \<open>auto simp: call_allowed_def data_call_def start_def resume_def uncommit_def check_def\<close>)

text \<open>Preservation: a call keeps the tree well-formed and follows the state diagram.\<close>

lemma call_preservation:
  assumes "tree_ok (j_job_tree j)" "perform_call c j = Inr (j', out)"
  shows "tree_ok (j_job_tree j') \<and> jt_comm_size (j_job_tree j') = jt_comm_size (j_job_tree j)
    \<and> appl_trace (j_state j) out = Some (j_state j')"
proof (cases c)
  case (Suspend now)
  then have active: "j_state j = ACTIVE" using assms by (simp add: suspend_def)
  obtain t cancelled where "suspend now j = Inr (j\<lparr>j_state := SUSPENDED, j_job_tree := t\<rparr>, Appl_Suspend # map Cancel_Send cancelled)"
    "tree_ok t" "same_place (j_job_tree j) t" using suspend_ok [OF assms(1) active, of now] by metis
  then show ?thesis using assms(2) Suspend active by (auto simp: appl_trace_silent same_place_def)
next
  case (Terminate now)
  obtain j1 t cancelled where "terminate now j =
      Inr (j1\<lparr>j_state := PAST, j_job_tree := t, j_time_of_abort := now\<rparr>, Appl_Terminate # map Cancel_Send cancelled)"
    "tree_ok t" "same_place (j_job_tree j) t" using terminate_ok [OF assms(1), of now] by metis
  then show ?thesis using assms(2) Terminate by (auto simp: appl_trace_silent same_place_def)
next
  case (Commit req)
  then have st: "j_state j = INACTIVE \<or> j_state j = SUSPENDED"
    using assms(2) by (cases "j_state j") (auto simp: commit_def)
  obtain t where "commit req j = Inr (j\<lparr>j_commitment := Some req,
      j_balancing_epoch_of_last_commitment := req_balancingEpoch req, j_job_tree := t\<rparr>)" "tree_ok t"
    "jt_comm_size t = jt_comm_size (j_job_tree j)" using commit_ok [OF assms(1) st, of req] by metis
  then show ?thesis using assms(2) Commit by auto
next
  case (Set_Child now rank index)
  obtain rel t where "setChild now rank index (j_job_tree j) = Inr (rel, t)" "tree_ok t"
    "same_place (j_job_tree j) t" using setChild_ok [OF assms(1), of now rank index] by metis
  then show ?thesis using assms(2) Set_Child by (auto simp: same_place_def)
next
  case (Push_Revision params data)
  then have "j_job_tree j' = j_job_tree j" "j_state j' = j_state j" "out = []"
    using assms(2) by (auto simp: pushRevision_def Let_def res_bind_eq_Inr_iff)
  then show ?thesis using assms(1) by simp
next
  case (Check_Limit now wc cpu)
  then show ?thesis using assms by (auto simp: checkResourceLimit_def Let_def)
next
  case (Wants_To_Communicate now w)
  then have "j_job_tree j' = j_job_tree j" "j_state j' = j_state j" "out = []"
    using assms(2) by (auto simp: wantsToCommunicate_def split: prod.splits if_splits)
  then show ?thesis using assms(1) by simp
next
  case (Begin_Communication now revision)
  then have "j_job_tree j' = j_job_tree j" "j_state j' = j_state j"
    "out = [Appl_Begin_Communication] \<or> (\<exists>ms. out = map (\<lambda>(d, m). Send_Message d m) ms)"
    using assms(2) by (auto simp: begin_communication_def res_bind_eq_Inr_iff split: if_splits)
  then show ?thesis using assms(1) by (auto simp: appl_trace_silent)
next
  case (Communicate source msg)
  then have "j_job_tree j' = j_job_tree j" "j_state j' = j_state j"
    "(\<exists>m. out = [Appl_Communicate source m]) \<or> (\<exists>ms. out = map (\<lambda>(d, m). Send_Message d m) ms)"
    using assms(2) by (auto simp: communicate_def Let_def res_bind_eq_Inr_iff split: if_splits)
  then show ?thesis using assms(1) by (auto simp: appl_trace_silent)
qed (use assms in \<open>auto simp: start_def resume_def uncommit_def res_bind_eq_Inr_iff\<close>)

lemma run_preservation:
  assumes "tree_ok (j_job_tree j)" "run_calls cs j = Inr (j', out)"
  shows "tree_ok (j_job_tree j') \<and> jt_comm_size (j_job_tree j') = jt_comm_size (j_job_tree j)
    \<and> appl_trace (j_state j) out = Some (j_state j')"
  using assms
proof (induction cs arbitrary: j out)
  case (Cons c cs)
  then obtain j1 o1 o2 where c: "perform_call c j = Inr (j1, o1)" "run_calls cs j1 = Inr (j', o2)" "out = o1 @ o2"
    by (auto simp: res_bind_eq_Inr_iff)
  with call_preservation [OF Cons.prems(1) c(1)] Cons.IH [of j1 o2] show ?case
    by (simp add: appl_trace_append)
qed simp

lemma Job_tree_ok:
  assumes "0 < commSize" "\<And>s f xs. mset (shuffle s f xs) = mset xs" "\<not> pa_useDormantChildren params"
  shows "tree_ok (j_job_tree (Job now shuffle params commSize worldRank jobId appl))"
  using assms jt_inv_init [of commSize shuffle] by (simp add: tree_ok_def Job_def JobTree_def)

section \<open>Properties\<close>


definition sample_params :: job_params where
  "sample_params = \<lparr>pa_growthPeriod = 1, pa_continuousGrowth = False, pa_maxDemand = 0, pa_numThreadsPerProcess = 4,
     pa_useDormantChildren = False, pa_jobCommUpdatePeriod = 0, pa_maxLiteralsPerThread = 50000000\<rparr>"

definition sample_job :: job where
  "sample_job = Job 0 (\<lambda>_ _ xs. xs) sample_params 16 3 7 ONESHOT_SAT"


text \<open>
  Property (C20): the demand of a job. \<open>getDemand\<close> never converts a value out of range; a node that is not
  active has demand one if it is committed and zero otherwise; an active node has a demand between one and
  the number of workers, and no larger than its limit if it has one. With discrete growth, the demand before
  the limit is one less than two to the number of begun growth periods (28 completed periods at most),
  capped by the number of workers. The library's \<open>pow\<close> is only relied on to stay between 2 and
  \<open>2\<^sup>29\<close> for exponents between 1 and 29.
\<close>

theorem demand_within_bounds:
  assumes "1 \<le> jt_comm_size (j_job_tree j)" "0 \<le> j_max_demand j" "pow2_ok pow"
    and "0 < j_growth_period j \<Longrightarrow> j_time_of_activation j \<le> now"
  shows "\<exists>d. getDemand pow now j = Inr d
    \<and> (j_state j \<noteq> ACTIVE \<longrightarrow> d = (if j_commitment j = None then 0 else 1))
    \<and> (j_state j = ACTIVE \<longrightarrow> 1 \<le> d \<and> d \<le> jt_comm_size (j_job_tree j) \<and> (0 < j_max_demand j \<longrightarrow> d \<le> j_max_demand j))
    \<and> (j_state j = ACTIVE \<and> 0 < j_growth_period j \<and> 0 < j_time_of_activation j \<and> \<not> j_continuous_growth j \<and> j_max_demand j = 0
        \<longrightarrow> d = min (jt_comm_size (j_job_tree j)) (2 ^ (nat \<lfloor>periods now j\<rfloor> + 1) - 1))"
proof -
  obtain d where d: "grown_demand pow now j = Inr d" "1 \<le> d" "d \<le> jt_comm_size (j_job_tree j)"
    "0 < j_growth_period j \<and> 0 < j_time_of_activation j \<and> \<not> j_continuous_growth j \<longrightarrow>
         d = min (jt_comm_size (j_job_tree j)) (2 ^ (nat \<lfloor>periods now j\<rfloor> + 1) - 1)"
    using grown_demand_spec [OF assms(1,3), of now] assms(4) by blast
  then show ?thesis using assms(2) by (cases "j_state j = ACTIVE") (auto simp: getDemand_def)
qed

theorem demand_within_bounds_witness:
  "\<exists>d. getDemand (\<lambda>_ _. 4) 3 (sample_job\<lparr>j_state := ACTIVE, j_time_of_activation := 1\<rparr>) = Inr d \<and> 1 \<le> d \<and> d \<le> 16"
proof -
  have "pow2_ok (\<lambda>_ _. 4)" by (simp add: pow2_ok_def)
  from demand_within_bounds [OF _ _ this, of "sample_job\<lparr>j_state := ACTIVE, j_time_of_activation := 1\<rparr>" 3]
  show ?thesis by (auto simp: sample_job_def Job_def JobTree_def sample_params_def)
qed

text \<open>
  Property (C32): suspending a job drops CPU time. The time between the last accounting and a suspension
  is not charged to the root of a job: \<open>suspend\<close> changes the state before it calls the accounting, which only
  charges active jobs, and \<open>resume\<close> restarts the clock. Terminating the same job at the same time, or checking its
  limits, does charge it.
\<close>

theorem suspension_drops_cpu_time:
  assumes "tree_ok (j_job_tree j)" "j_state j = ACTIVE"
  shows "\<exists>j1 j2 j3 out1 out2 out3. suspend t1 j = Inr (j1, out1) \<and> resume t2 j1 = Inr (j2, out2)
    \<and> j_used_cpu_seconds j2 = j_used_cpu_seconds j \<and> j_time_of_last_limit_check j2 = t2
    \<and> terminate t1 j = Inr (j3, out3)
    \<and> j_used_cpu_seconds j3 = j_used_cpu_seconds (snd (checkResourceLimit t1 wc cpu j))"
proof -
  obtain t c where s: "suspend t1 j = Inr (j\<lparr>j_state := SUSPENDED, j_job_tree := t\<rparr>, c)"
    using suspend_ok [OF assms, of t1] by metis
  obtain t' c' where "terminate t1 j = Inr ((if j_state j = ACTIVE then updateVolumeAndUsedCpu t1 (j_volume j) j else j)
      \<lparr>j_state := PAST, j_job_tree := t', j_time_of_abort := t1\<rparr>, c')"
    using terminate_ok [OF assms(1), of t1] by metis
  then have t: "terminate t1 j = Inr ((updateVolumeAndUsedCpu t1 (j_volume j) j)
      \<lparr>j_state := PAST, j_job_tree := t', j_time_of_abort := t1\<rparr>, c')" by (simp add: assms(2))
  have r: "resume t2 (j\<lparr>j_state := SUSPENDED, j_job_tree := t\<rparr>) =
      Inr (j\<lparr>j_state := ACTIVE, j_job_tree := t, j_volume := max 1 (j_volume j), j_time_of_last_limit_check := t2\<rparr>, [Appl_Resume])"
    by (simp add: resume_def)
  show ?thesis
    by (intro exI conjI, rule s, rule r, simp, simp, rule t, simp add: checkResourceLimit_def Let_def)
qed

theorem suspension_drops_cpu_time_witness:
  "\<exists>j1 j2 out1 out2. suspend 9 (sample_job\<lparr>j_state := ACTIVE\<rparr>) = Inr (j1, out1) \<and> resume 20 j1 = Inr (j2, out2)
    \<and> j_used_cpu_seconds j2 = 0"
proof -
  have act: "j_state (sample_job\<lparr>j_state := ACTIVE\<rparr>) = ACTIVE" by simp
  have "tree_ok (j_job_tree (sample_job\<lparr>j_state := ACTIVE\<rparr>))"
    using Job_tree_ok [of 16 "\<lambda>_ _ xs. xs" sample_params] by (simp add: sample_job_def sample_params_def)
  note drops = suspension_drops_cpu_time [OF this act, of 9 20]
  have "j_used_cpu_seconds (sample_job\<lparr>j_state := ACTIVE\<rparr>) = 0" by (simp add: sample_job_def Job_def)
  with drops show ?thesis by metis
qed


end
