(* ===== verification/Job_Database.thy ===== *)
theory Job_Database
  imports Job "HOL-Library.Product_Lexorder"
begin

text \<open>
  The jobs of one process (class \<open>JobDatabase\<close> in src/src/data/job_database.hpp and .cpp): which job is
  active, which one is committed to a request, which requests it adopts, and how jobs are suspended,
  terminated and forgotten. Jobs and schedulers are stored by value under their keys, so the pointer to the
  current job is its id. Calls into the balancer and the collective assignment are output events; the
  balancing epoch is an argument, as is what an application answers. The janitor thread is
  an atomic step per round; the destructor and the pure logging are left out.
\<close>

section \<open>State\<close>

datatype adoption_result = ADOPT_FROM_IDLE | ADOPT_REPLACE_CURRENT | REJECT | DEFER | DISCARD
datatype job_request_mode = TARGETED_REJOIN | NORMAL | IGNORE_FAIL

datatype db_event =
    Set_Status_Dirty
  | On_Activate int int | On_Suspend int | On_Terminate int | On_Probe int
  | Job_Event int job_event
  | Sched_Event int int sched_event

text \<open>\<open>db_jobs\<close> and \<open>db_schedulers\<close> are unordered maps, kept sorted by key here; their iteration order only
  decides the order in which jobs are forgotten.\<close>

record job_database =
  db_params :: job_params
  db_reactivation_scheduling :: bool
  db_job_cache_size :: int
  db_wcsecs_per_instance :: rat
  db_cpusecs_per_instance :: rat
  db_comm_size :: int
  db_coll_assign :: bool
  db_num_stored_jobs :: int
  db_jobs :: "(int \<times> job) list"
  db_has_commitment :: bool
  db_schedulers :: "((int \<times> int) \<times> local_scheduler) list"
  db_num_schedulers_per_job :: "int \<Rightarrow> int"
  db_load :: int
  db_current_job :: "int option"
  db_deferred_requests :: "(rat \<times> int \<times> job_request) list"
  db_future_request_msgs :: "(int \<times> byte list list) list"
  db_root_requests :: "(int \<times> job_request list) list"
  db_pending_root_reactivate_request :: "job_request option"
  db_job_destruct_queue :: "job list"
  db_jobs_to_free :: "job list"
  db_total_busy_time :: rat
  db_time_of_last_adoption :: rat
  db_desire_latencies :: "rat list list"

type_synonym db_result = "(job_database \<times> db_event list) res"

definition JobDatabase :: "job_params \<Rightarrow> bool \<Rightarrow> int \<Rightarrow> rat \<Rightarrow> rat \<Rightarrow> rat \<Rightarrow> int \<Rightarrow> bool \<Rightarrow> job_database res" where
  "JobDatabase params reactivationScheduling jobCacheSize jobWallclockLimit jobCpuLimit loadFactor commSize collAssign =
     check (0 < loadFactor \<and> loadFactor \<le> 1)
       (Inr \<lparr>db_params = params, db_reactivation_scheduling = reactivationScheduling,
             db_job_cache_size = jobCacheSize, db_wcsecs_per_instance = jobWallclockLimit,
             db_cpusecs_per_instance = jobCpuLimit, db_comm_size = commSize, db_coll_assign = collAssign,
             db_num_stored_jobs = 0, db_jobs = [], db_has_commitment = False, db_schedulers = [],
             db_num_schedulers_per_job = (\<lambda>_. 0), db_load = 0, db_current_job = None,
             db_deferred_requests = [], db_future_request_msgs = [], db_root_requests = [],
             db_pending_root_reactivate_request = None, db_job_destruct_queue = [], db_jobs_to_free = [],
             db_total_busy_time = 0, db_time_of_last_adoption = 0, db_desire_latencies = []\<rparr>)"

definition lookup_job :: "int \<Rightarrow> job_database \<Rightarrow> job option" where
  "lookup_job jobId db = map_option snd (oset_find fst jobId (db_jobs db))"

definition db_has :: "int \<Rightarrow> job_database \<Rightarrow> bool" where
  "db_has jobId db \<longleftrightarrow> lookup_job jobId db \<noteq> None"

definition db_get :: "int \<Rightarrow> job_database \<Rightarrow> job res" where
  "db_get jobId db = (case lookup_job jobId db of None \<Rightarrow> Inl Assertion_failed | Some j \<Rightarrow> Inr j)"

definition put_job :: "int \<Rightarrow> job \<Rightarrow> job_database \<Rightarrow> job_database" where
  "put_job jobId j db = db\<lparr>db_jobs := oset_put fst (jobId, j) (db_jobs db)\<rparr>"

definition dirty :: "job_database \<Rightarrow> db_event list" where
  "dirty db = (if db_coll_assign db then [Set_Status_Dirty] else [])"

definition createJob :: "rat \<Rightarrow> shuffler \<Rightarrow> int \<Rightarrow> int \<Rightarrow> int \<Rightarrow> application \<Rightarrow> job_database \<Rightarrow> job_database" where
  "createJob now shuffle commSize worldRank jobId appl db =
     (put_job jobId (Job now shuffle (db_params db) commSize worldRank jobId appl) db)
       \<lparr>db_num_stored_jobs := db_num_stored_jobs db + 1\<rparr>"

section \<open>Load\<close>

definition hasActiveJob :: "job_database \<Rightarrow> bool" where
  "hasActiveJob db \<longleftrightarrow> db_load db = 1"

definition isBusyOrCommitted :: "job_database \<Rightarrow> bool" where
  "isBusyOrCommitted db \<longleftrightarrow> hasActiveJob db \<or> db_has_commitment db"

definition getActive :: "job_database \<Rightarrow> job res" where
  "getActive db =
     (case db_current_job db of None \<Rightarrow> Inl Undefined_behaviour
      | Some i \<Rightarrow> (case lookup_job i db of None \<Rightarrow> Inl Undefined_behaviour | Some j \<Rightarrow> Inr j))"

definition setLoad :: "rat \<Rightarrow> int \<Rightarrow> int \<Rightarrow> job_database \<Rightarrow> db_result" where
  "setLoad now load whichJobId db =
     check (load + db_load db = 1) (check (db_has whichJobId db)
       (let db = db\<lparr>db_load := load\<rparr> in
        if load = 1
        then check (db_current_job db = None)
               (Inr (db\<lparr>db_current_job := Some whichJobId, db_time_of_last_adoption := now\<rparr>, dirty db))
        else if load = 0
        then check (db_current_job db \<noteq> None)
               (Inr (db\<lparr>db_current_job := None,
                        db_total_busy_time := round24 (db_total_busy_time db
                          + round24 (now - db_time_of_last_adoption db))\<rparr>, dirty db))
        else Inr (db, dirty db)))"

section \<open>Revisions and execution\<close>

definition getRevision :: "job \<Rightarrow> int" where
  "getRevision j = (if j_has_description j then jd_revision (j_description j) else -1)"

definition appendRevision :: "int \<Rightarrow> byte list \<Rightarrow> job_database \<Rightarrow> (bool \<times> job_database) res" where
  "appendRevision jobId description db =
     (case lookup_job jobId db of
        None \<Rightarrow> Inr (False, db)
      | Some j \<Rightarrow>
          res_bind (readRevisionIndex description) (\<lambda>rev.
            if (if j_has_description j then rev \<noteq> getMaxConsecutiveRevision (j_description j) + 1 else rev \<noteq> 0)
            then Inr (False, db)
            else res_bind (pushRevision (db_params db) description j) (\<lambda>j. Inr (True, put_job jobId j db))))"

text \<open>\<open>start\<close> or \<open>resume\<close>, the new demand, and its announcement to the balancer.\<close>

definition activate :: "(rat \<Rightarrow> rat \<Rightarrow> rat) \<Rightarrow> rat \<Rightarrow> int \<Rightarrow> job_result_of_call \<Rightarrow> job_database \<Rightarrow> db_result" where
  "activate pow now jobId started db =
     res_bind started (\<lambda>(j, out).
     res_bind (getDemand pow now j) (\<lambda>demand.
       Inr (put_job jobId (j\<lparr>j_last_demand := demand\<rparr>) db,
            map (Job_Event jobId) out @ [On_Activate jobId demand])))"

definition execute :: "(rat \<Rightarrow> rat \<Rightarrow> rat) \<Rightarrow> rat \<Rightarrow> int \<Rightarrow> job_database \<Rightarrow> db_result" where
  "execute pow now jobId db =
     (case lookup_job jobId db of
        None \<Rightarrow> Inr (db, [])
      | Some j \<Rightarrow>
          res_bind (setLoad now 1 jobId db) (\<lambda>(db, out).
          res_bind (activate pow now jobId (if j_state j = INACTIVE then start now j else resume now j) db)
            (\<lambda>(db, out'). Inr (db, out @ out'))))"

definition preregisterJobInBalancer :: "(rat \<Rightarrow> rat \<Rightarrow> rat) \<Rightarrow> rat \<Rightarrow> int \<Rightarrow> job_database \<Rightarrow> db_result" where
  "preregisterJobInBalancer pow now jobId db =
     res_bind (db_get jobId db) (\<lambda>j.
     res_bind (if isRoot (j_job_tree j) then Inr 0 else getDemand pow now j) (\<lambda>d.
       let demand = max 1 d
       in Inr (if isRoot (j_job_tree j) then put_job jobId (j\<lparr>j_last_demand := demand\<rparr>) db else db,
               [On_Activate jobId demand])))"

definition checkComputationLimits :: "rat \<Rightarrow> int \<Rightarrow> job_database \<Rightarrow> (bool \<times> job_database) res" where
  "checkComputationLimits now jobId db =
     res_bind (db_get jobId db) (\<lambda>j.
       if \<not> isRoot (j_job_tree j) then Inr (False, db)
       else let (exceeded, j) = checkResourceLimit now (db_wcsecs_per_instance db) (db_cpusecs_per_instance db) j
            in Inr (exceeded, put_job jobId j db))"

section \<open>Requests\<close>

definition isRequestObsolete :: "int \<Rightarrow> job_request \<Rightarrow> job_database \<Rightarrow> bool" where
  "isRequestObsolete epoch req db \<longleftrightarrow>
     (if req_requestedNodeIndex req = 0 then False
      else if req_balancingEpoch req < epoch then True
      else case lookup_job (req_jobId req) db of
             None \<Rightarrow> False
           | Some j \<Rightarrow> j_state j = ACTIVE
               \<and> (let t = j_job_tree j; i = req_requestedNodeIndex req
                  in i = jt_index t \<or> jt_has_left_child t \<and> i = getLeftChildIndex t
                     \<or> jt_has_right_child t \<and> i = getRightChildIndex t))"

definition isAdoptionOfferObsolete :: "job_request \<Rightarrow> bool \<Rightarrow> job_database \<Rightarrow> bool" where
  "isAdoptionOfferObsolete req alreadyAccepted db \<longleftrightarrow>
     (if req_requestedNodeIndex req = 0 then False
      else case lookup_job (req_jobId req) db of
             None \<Rightarrow> True
           | Some j \<Rightarrow>
               let t = j_job_tree j; i = req_requestedNodeIndex req in
               if j_state j \<noteq> ACTIVE \<and> j_commitment j = None then True
               else if i \<noteq> getLeftChildIndex t \<and> i \<noteq> getRightChildIndex t then True
               else if req_revision req < getRevision j then True
               else if alreadyAccepted then False
               else i = getLeftChildIndex t \<and> jt_has_left_child t
                    \<or> i = getRightChildIndex t \<and> jt_has_right_child t)"

definition db_commit :: "(rat \<Rightarrow> rat \<Rightarrow> rat) \<Rightarrow> rat \<Rightarrow> job_request \<Rightarrow> job_database \<Rightarrow> db_result" where
  "db_commit pow now req db =
     (case lookup_job (req_jobId req) db of
        None \<Rightarrow> Inr (db, [])
      | Some j \<Rightarrow>
          res_bind (commit req j) (\<lambda>j.
          res_bind (preregisterJobInBalancer pow now (req_jobId req)
                      ((put_job (req_jobId req) j db)\<lparr>db_has_commitment := True\<rparr>)) (\<lambda>(db, out).
            Inr (db, out @ dirty db))))"

definition db_hasCommitment :: "int \<Rightarrow> job_database \<Rightarrow> bool" where
  "db_hasCommitment jobId db \<longleftrightarrow>
     (case lookup_job jobId db of None \<Rightarrow> False | Some j \<Rightarrow> j_commitment j \<noteq> None)"

definition db_uncommit :: "int \<Rightarrow> job_database \<Rightarrow> db_result" where
  "db_uncommit jobId db =
     (case lookup_job jobId db of
        None \<Rightarrow> Inr (db, [])
      | Some j \<Rightarrow>
          res_bind (uncommit j) (\<lambda>j. Inr ((put_job jobId j db)\<lparr>db_has_commitment := False\<rparr>, dirty db)))"

section \<open>Schedulers\<close>

definition lookup_scheduler :: "int \<Rightarrow> int \<Rightarrow> job_database \<Rightarrow> local_scheduler option" where
  "lookup_scheduler jobId index db = map_option snd (oset_find fst (jobId, index) (db_schedulers db))"

definition put_scheduler :: "int \<Rightarrow> int \<Rightarrow> local_scheduler \<Rightarrow> job_database \<Rightarrow> job_database" where
  "put_scheduler jobId index s db = db\<lparr>db_schedulers := oset_put fst ((jobId, index), s) (db_schedulers db)\<rparr>"

definition erase_scheduler :: "int \<Rightarrow> int \<Rightarrow> job_database \<Rightarrow> job_database" where
  "erase_scheduler jobId index db =
     db\<lparr>db_schedulers := oset_erase fst (jobId, index) (db_schedulers db),
        db_num_schedulers_per_job :=
          (db_num_schedulers_per_job db)(jobId := db_num_schedulers_per_job db jobId - 1)\<rparr>"

text \<open>The two halves of \<open>initScheduler\<close>: the scheduler of a node is created if there is none, and then gets its role.\<close>

definition ensure_scheduler :: "int \<Rightarrow> job_request \<Rightarrow> job \<Rightarrow> job_database \<Rightarrow> (local_scheduler \<times> job_database) res" where
  "ensure_scheduler myRank req j db =
     (let jobId = req_jobId req; index = req_requestedNodeIndex req in
      case lookup_scheduler jobId index db of
        Some s \<Rightarrow> Inr (s, db)
      | None \<Rightarrow> res_bind (constructScheduler myRank j) (\<lambda>s.
          Inr (s, (put_scheduler jobId index s db)
                 \<lparr>db_num_schedulers_per_job :=
                    (db_num_schedulers_per_job db)(jobId := db_num_schedulers_per_job db jobId + 1)\<rparr>)))"

definition init_role :: "job_request \<Rightarrow> job_tree \<Rightarrow> local_scheduler \<Rightarrow> ls_result" where
  "init_role req t s =
     (if isRoot t
      then if req_revision req = 0
           then res_bind (getParentNodeRank t) (\<lambda>parent.
                  initializeScheduling
                    (JobSchedulingUpdate_init\<lparr>su_epoch := max 0 (req_balancingEpoch req)\<rparr>) parent s)
           else beginResumptionAsRoot s
      else check (canCommit s) (Inr (resetRole s, [])))"

definition initScheduler :: "int \<Rightarrow> job_request \<Rightarrow> job_database \<Rightarrow> db_result" where
  "initScheduler myRank req db =
     (let jobId = req_jobId req; index = req_requestedNodeIndex req in
      res_bind (db_get jobId db) (\<lambda>j.
      res_bind (ensure_scheduler myRank req j db) (\<lambda>(s, db).
      res_bind (init_role req (j_job_tree j) s) (\<lambda>(s, out).
        Inr (put_scheduler jobId index s db, map (Sched_Event jobId index) out)))))"

definition suspendScheduler :: "job \<Rightarrow> job_database \<Rightarrow> db_result" where
  "suspendScheduler j db =
     (let jobId = j_id j; index = jt_index (j_job_tree j) in
      case lookup_scheduler jobId index db of
        None \<Rightarrow> Inr (db, [])
      | Some s \<Rightarrow>
          res_bind (if isActive s then beginSuspension (-1) s else Inr (s, [])) (\<lambda>(s, out).
            let db = put_scheduler jobId index s db
            in Inr (if index > 0 \<and> canCommit s then erase_scheduler jobId index db else db,
                    map (Sched_Event jobId index) out)))"

section \<open>Suspending, resuming, terminating, forgetting\<close>

definition db_suspend :: "rat \<Rightarrow> int \<Rightarrow> job_database \<Rightarrow> db_result" where
  "db_suspend now jobId db =
     (case lookup_job jobId db of
        None \<Rightarrow> Inl Assertion_failed
      | Some j \<Rightarrow> check (j_state j = ACTIVE)
          (res_bind (suspendScheduler j db) (\<lambda>(db, out1).
           res_bind (suspend now j) (\<lambda>(j, out2).
           res_bind (setLoad now 0 jobId (put_job jobId j db)) (\<lambda>(db, out3).
             Inr (db, out1 @ map (Job_Event jobId) out2 @ out3 @ [On_Suspend jobId]))))))"

definition reactivate :: "(rat \<Rightarrow> rat \<Rightarrow> rat) \<Rightarrow> rat \<Rightarrow> job_request \<Rightarrow> job_database \<Rightarrow> db_result" where
  "reactivate pow now req db =
     res_bind (db_get (req_jobId req) db) (\<lambda>j.
     res_bind (updateJobTree (req_requestedNodeIndex req) (req_rootRank req) (req_requestingNodeRank req) j) (\<lambda>j.
     res_bind (setLoad now 1 (req_jobId req) (put_job (req_jobId req) j db)) (\<lambda>(db, out1).
       check (j_commitment j = None)
         (res_bind (activate pow now (req_jobId req) (resume now j) db) (\<lambda>(db, out2).
            Inr (db, out1 @ out2))))))"

definition forget :: "rat \<Rightarrow> int \<Rightarrow> job_database \<Rightarrow> db_result" where
  "forget now jobId db =
     res_bind (db_get jobId db) (\<lambda>j.
     res_bind (if j_state j \<noteq> PAST then terminate now j else Inr (j, [])) (\<lambda>(j, out).
       check (j_state j = PAST)
         (let latencies = jt_desire_latencies (j_job_tree j) in
          Inr (db\<lparr>db_job_destruct_queue := db_job_destruct_queue db
                    @ [if latencies = [] then j else j\<lparr>j_job_tree := (j_job_tree j)\<lparr>jt_desire_latencies := []\<rparr>\<rparr>],
                  db_desire_latencies := db_desire_latencies db @ (if latencies = [] then [] else [latencies]),
                  db_jobs := oset_erase fst jobId (db_jobs db)\<rparr>,
               map (Job_Event jobId) out))))"

text \<open>The statistics sort the latencies of the job in place.\<close>

definition sort_latencies :: "job \<Rightarrow> job" where
  "sort_latencies j = j\<lparr>j_job_tree := (j_job_tree j)\<lparr>jt_desire_latencies := sort (jt_desire_latencies (j_job_tree j))\<rparr>\<rparr>"

definition db_terminate :: "rat \<Rightarrow> int \<Rightarrow> job_database \<Rightarrow> db_result" where
  "db_terminate now jobId db =
     res_bind (db_get jobId db) (\<lambda>j.
     let wasTerminatedBefore = j_state j = PAST in
     res_bind (if hasActiveJob db
               then res_bind (getActive db) (\<lambda>a. if j_id a = jobId then setLoad now 0 jobId db else Inr (db, []))
               else Inr (db, [])) (\<lambda>(db, out1).
     res_bind (terminate now (if wasTerminatedBefore then j else sort_latencies j)) (\<lambda>(j, out2).
     let db = put_job jobId j db in
     res_bind (if j_commitment j \<noteq> None then db_uncommit jobId db else Inr (db, [])) (\<lambda>(db, out3).
     res_bind (forget now jobId db) (\<lambda>(db, out4).
       Inr (db, out1 @ map (Job_Event jobId) out2 @ out3
                @ (if wasTerminatedBefore then [] else [On_Terminate jobId]) @ out4))))))"

definition hasDormantRoot :: "job_database \<Rightarrow> bool" where
  "hasDormantRoot db \<longleftrightarrow> (\<exists>p \<in> set (db_jobs db). isRoot (j_job_tree (snd p)) \<and> j_state (snd p) = SUSPENDED)"

definition hasDormantJob :: "int \<Rightarrow> job_database \<Rightarrow> bool" where
  "hasDormantJob jobId db \<longleftrightarrow>
     (case lookup_job jobId db of None \<Rightarrow> False | Some j \<Rightarrow> j_state j = SUSPENDED)"

definition getDormantJobs :: "job_database \<Rightarrow> int list" where
  "getDormantJobs db = map fst (filter (\<lambda>(jobId, _). hasDormantJob jobId db) (db_jobs db))"

definition hasInactiveJobsWaitingForReactivation :: "job_database \<Rightarrow> bool" where
  "hasInactiveJobsWaitingForReactivation db \<longleftrightarrow>
     db_reactivation_scheduling db
     \<and> (\<exists>p \<in> set (db_jobs db). j_state (snd p) = SUSPENDED \<and> isWaitingForReactivation (j_job_tree (snd p)))"

section \<open>Adopting requests\<close>

definition reject :: "job_database \<Rightarrow> (adoption_result \<times> int \<times> job_database \<times> db_event list) res" where
  "reject db = Inr (REJECT, -1, db, dirty db)"

definition dormant_root_of_request :: "job_request \<Rightarrow> job_database \<Rightarrow> bool" where
  "dormant_root_of_request req db \<longleftrightarrow>
     (case lookup_job (req_jobId req) db of
        None \<Rightarrow> False | Some j \<Rightarrow> isRoot (j_job_tree j) \<and> j_state j = SUSPENDED)"

definition adopt_busy ::
    "rat \<Rightarrow> job_request \<Rightarrow> int \<Rightarrow> job_database \<Rightarrow> (adoption_result \<times> int \<times> job_database \<times> db_event list) res" where
  "adopt_busy now req sender db =
     (if req_requestedNodeIndex req = 0 \<and> \<not> db_reactivation_scheduling db
      then res_bind
             (if (case lookup_job (req_jobId req) db of None \<Rightarrow> True | Some j \<Rightarrow> j_state j \<noteq> ACTIVE)
              then res_bind (getActive db) (\<lambda>j.
                     Inr (if j_state j = ACTIVE \<and> \<not> isRoot (j_job_tree j) \<and> isLeaf (j_job_tree j)
                          then Some (j_id j) else None))
              else Inr None)
             (\<lambda>removed. case removed of
                Some removedJob \<Rightarrow> res_bind (db_suspend now removedJob db) (\<lambda>(db, out).
                  Inr (ADOPT_REPLACE_CURRENT, removedJob, db, out))
              | None \<Rightarrow>
                  if req_numHops req > 0 \<and> c_mod (req_numHops req) (max 32 (db_comm_size db)) = 0
                  then Inr (DEFER, -1, db\<lparr>db_deferred_requests := db_deferred_requests db @ [(now, sender, req)]\<rparr>, [])
                  else reject db)
      else reject db)"

definition tryAdopt ::
    "rat \<Rightarrow> job_request \<Rightarrow> job_request_mode \<Rightarrow> int \<Rightarrow> job_database
       \<Rightarrow> (adoption_result \<times> int \<times> job_database \<times> db_event list) res" where
  "tryAdopt now req mode sender db =
     (let thisRoot = (case lookup_job (req_jobId req) db of None \<Rightarrow> False | Some j \<Rightarrow> isRoot (j_job_tree j)) in
      if db_has_commitment db then reject db
      else if hasDormantRoot db \<and> \<not> dormant_root_of_request req db then Inr (REJECT, -1, db, [])
      else if (case lookup_scheduler (req_jobId req) (req_requestedNodeIndex req) db of
                 None \<Rightarrow> False | Some s \<Rightarrow> \<not> canCommit s)
      then Inr (REJECT, -1, db, [])
      else if (if thisRoot then req_requestedNodeIndex req > 0
               else hasDormantRoot db \<and> req_requestedNodeIndex req = 0)
      then reject db
      else if \<not> isBusyOrCommitted db
      then if mode \<noteq> TARGETED_REJOIN then Inr (ADOPT_FROM_IDLE, -1, db, [])
           else if hasDormantJob (req_jobId req) db then Inr (ADOPT_FROM_IDLE, -1, db, [])
           else reject db
      else adopt_busy now req sender db)"

section \<open>Clean-up\<close>

definition old_scheduler :: "job_database \<Rightarrow> (int \<times> int) \<times> local_scheduler \<Rightarrow> bool" where
  "old_scheduler db = (\<lambda>((jobId, index), s).
     \<not> (case lookup_job jobId db of None \<Rightarrow> False | Some j \<Rightarrow> j_state j = ACTIVE \<or> j_commitment j \<noteq> None)
     \<and> (\<not> db_has jobId db \<or> index > 0) \<and> canCommit s)"

definition eraseOldSchedulers :: "job_database \<Rightarrow> job_database" where
  "eraseOldSchedulers db =
     fold (\<lambda>((jobId, index), _). erase_scheduler jobId index) (filter (old_scheduler db) (db_schedulers db)) db"

definition orderDeletions :: "(job \<Rightarrow> bool) \<Rightarrow> job_database \<Rightarrow> job_database res" where
  "orderDeletions appl_isDestructible db =
     check (\<forall>j \<in> set (db_job_destruct_queue db). j_state j = PAST)
       (Inr (db\<lparr>db_jobs_to_free := db_jobs_to_free db @ filter appl_isDestructible (db_job_destruct_queue db),
                db_job_destruct_queue := filter (\<lambda>j. \<not> appl_isDestructible j) (db_job_destruct_queue db)\<rparr>))"

definition expired :: "rat \<Rightarrow> job \<Rightarrow> bool" where
  "expired now j \<longleftrightarrow> j_commitment j = None \<and> j_state j = INACTIVE \<and> round24 (now - j_time_of_arrival j) \<ge> 10"

definition cached :: "job_database \<Rightarrow> int \<times> job \<Rightarrow> bool" where
  "cached db = (\<lambda>(jobId, j).
     j_commitment j = None \<and> j_state j = SUSPENDED \<and> db_num_schedulers_per_job db jobId = 0
     \<and> db_job_cache_size db > 0 \<and> \<not> isRoot (j_job_tree j))"

text \<open>The priority queue yields the oldest suspended job first; among jobs of the same age the model takes
  the one that was inserted first. A negative cache size empties the queue and reads its top.\<close>

definition jobsToForget :: "rat \<Rightarrow> job_database \<Rightarrow> int list res" where
  "jobsToForget now db =
     (let suspended = map (\<lambda>(jobId, j). (round24 (now - j_time_of_activation j), jobId))
                        (filter (cached db) (db_jobs db));
          queue = map snd (sort_key (\<lambda>(age, _). - age) suspended)
      in if db_job_cache_size db < 0 then Inl Undefined_behaviour
         else Inr (map fst (filter (\<lambda>(_, j). expired now j) (db_jobs db))
                   @ take (length queue - nat (db_job_cache_size db)) queue))"

fun forget_all :: "rat \<Rightarrow> int list \<Rightarrow> job_database \<Rightarrow> db_result" where
  "forget_all now [] db = Inr (db, [])"
| "forget_all now (i # is) db =
     res_bind (forget now i db) (\<lambda>(db, out).
     res_bind (forget_all now is db) (\<lambda>(db, out'). Inr (db, out @ out')))"

definition forgetOldJobs :: "rat \<Rightarrow> (job \<Rightarrow> bool) \<Rightarrow> job_database \<Rightarrow> db_result" where
  "forgetOldJobs now appl_isDestructible db =
     res_bind (orderDeletions appl_isDestructible (eraseOldSchedulers db)) (\<lambda>db.
     res_bind (jobsToForget now db) (\<lambda>ids. forget_all now ids db))"

text \<open>One round of the janitor thread: it takes the jobs to free from the shared list and deletes them.\<close>

definition runJanitor :: "job_database \<Rightarrow> job_database" where
  "runJanitor db =
     db\<lparr>db_jobs_to_free := [], db_num_stored_jobs := db_num_stored_jobs db - int (length (db_jobs_to_free db))\<rparr>"

section \<open>Waiting requests\<close>

definition getDeferredRequestsToForward :: "rat \<Rightarrow> job_database \<Rightarrow> (job_request \<times> int) list \<times> job_database" where
  "getDeferredRequestsToForward now db =
     (let due = takeWhile (\<lambda>(deferredTime, _, _). \<not> round24 (now - deferredTime) < 1) (db_deferred_requests db)
      in (map (\<lambda>(_, sender, req). (req, sender)) due,
          db\<lparr>db_deferred_requests := drop (length due) (db_deferred_requests db)\<rparr>))"

definition loadPendingRootReactivationRequest :: "job_database \<Rightarrow> (job_request \<times> job_database) res" where
  "loadPendingRootReactivationRequest db =
     (case db_pending_root_reactivate_request db of
        None \<Rightarrow> Inl Assertion_failed
      | Some r \<Rightarrow> Inr (r, db\<lparr>db_pending_root_reactivate_request := None\<rparr>))"

definition setPendingRootReactivationRequest :: "job_request \<Rightarrow> job_database \<Rightarrow> job_database res" where
  "setPendingRootReactivationRequest req db =
     check (case db_pending_root_reactivate_request db of None \<Rightarrow> True | Some r \<Rightarrow> req_jobId req = req_jobId r)
       (Inr (db\<lparr>db_pending_root_reactivate_request := Some req\<rparr>))"

definition addFutureRequestMessage :: "int \<Rightarrow> byte list \<Rightarrow> job_database \<Rightarrow> job_database" where
  "addFutureRequestMessage epoch h db =
     db\<lparr>db_future_request_msgs :=
          oset_put fst (epoch, (case oset_find fst epoch (db_future_request_msgs db) of
              None \<Rightarrow> [] | Some (_, hs) \<Rightarrow> hs) @ [h]) (db_future_request_msgs db)\<rparr>"

definition getArrivedFutureRequests :: "int \<Rightarrow> job_database \<Rightarrow> (byte list list \<times> job_database) res" where
  "getArrivedFutureRequests presentEpoch db =
     (let arrived = filter (\<lambda>(epoch, _). epoch \<le> presentEpoch) (db_future_request_msgs db)
      in check (\<forall>(_, msgs) \<in> set arrived. msgs \<noteq> [])
           (Inr (concat (map snd arrived),
                 db\<lparr>db_future_request_msgs := filter (\<lambda>(epoch, _). \<not> epoch \<le> presentEpoch) (db_future_request_msgs db)\<rparr>)))"

definition addRootRequest :: "job_request \<Rightarrow> job_database \<Rightarrow> job_database \<times> db_event list" where
  "addRootRequest req db =
     (db\<lparr>db_root_requests :=
           oset_put fst (req_jobId req, (case oset_find fst (req_jobId req) (db_root_requests db) of
               None \<Rightarrow> [] | Some (_, rs) \<Rightarrow> rs) @ [req]) (db_root_requests db)\<rparr>,
      [On_Probe (req_jobId req)])"

definition getRootRequest :: "int \<Rightarrow> job_database \<Rightarrow> (job_request option \<times> job_database) res" where
  "getRootRequest jobId db =
     (case oset_find fst jobId (db_root_requests db) of
        None \<Rightarrow> Inr (None, db)
      | Some (_, []) \<Rightarrow> Inl Undefined_behaviour
      | Some (_, r # rs) \<Rightarrow>
          Inr (Some r, db\<lparr>db_root_requests :=
            (if rs = [] then oset_erase fst jobId (db_root_requests db)
             else oset_put fst (jobId, rs) (db_root_requests db))\<rparr>))"

end
