(* ===== verification/Job_Database_Laws.thy ===== *)
theory Job_Database_Laws
  imports Job_Database
begin

text \<open>
  The invariant of the job database, that every call of a worker keeps it and succeeds, and what follows
  for the current job, for adoption and for the job cache.
\<close>

section \<open>Invariant\<close>

text \<open>A root node knows its client, and a node that was committed to or started has an index.\<close>

definition placed :: "job \<Rightarrow> bool" where
  "placed j \<longleftrightarrow> (isRoot (j_job_tree j) \<longrightarrow> jt_client_rank (j_job_tree j) \<noteq> None)
     \<and> (j_state j \<noteq> INACTIVE \<or> j_commitment j \<noteq> None \<longrightarrow> 0 \<le> jt_index (j_job_tree j))"

text \<open>At time \<open>now\<close>, a stored job.\<close>

definition job_ok :: "rat \<Rightarrow> int \<Rightarrow> job \<Rightarrow> bool" where
  "job_ok now i j \<longleftrightarrow> j_id j = i \<and> tree_ok (j_job_tree j) \<and> 1 \<le> jt_comm_size (j_job_tree j) \<and> j_state j \<noteq> PAST
     \<and> j_time_of_activation j \<le> now \<and> placed j"

text \<open>The current job is the only active one, and at most one job, \<open>k\<close>, is committed to a request; then there
  is no current job.\<close>

definition jobs_inv :: "rat \<Rightarrow> (int \<rightharpoonup> job) \<Rightarrow> int option \<Rightarrow> int option \<Rightarrow> bool" where
  "jobs_inv now L current k \<longleftrightarrow>
     (\<forall>i j. L i = Some j \<longrightarrow> job_ok now i j \<and> (j_state j = ACTIVE \<longleftrightarrow> current = Some i) \<and> (j_commitment j \<noteq> None \<longleftrightarrow> k = Some i))
     \<and> (\<forall>c. current = Some c \<longrightarrow> L c \<noteq> None) \<and> (\<forall>c. k = Some c \<longrightarrow> L c \<noteq> None) \<and> (current = None \<or> k = None)"

definition db_at :: "rat \<Rightarrow> int option \<Rightarrow> job_database \<Rightarrow> bool" where
  "db_at now k db \<longleftrightarrow>
     oset fst (db_jobs db) \<and> jobs_inv now (\<lambda>i. lookup_job i db) (db_current_job db) k
     \<and> (db_has_commitment db \<longleftrightarrow> k \<noteq> None) \<and> db_load db = (if db_current_job db = None then 0 else 1)
     \<and> (\<forall>j \<in> set (db_job_destruct_queue db) \<union> set (db_jobs_to_free db). j_state j = PAST)
     \<and> db_num_stored_jobs db =
         int (length (db_jobs db) + length (db_job_destruct_queue db) + length (db_jobs_to_free db))
     \<and> oset fst (db_schedulers db) \<and> (\<forall>p \<in> set (db_schedulers db). ls_inv (snd p))
     \<and> \<not> pa_useDormantChildren (db_params db) \<and> 0 \<le> db_job_cache_size db \<and> 0 \<le> now"

lemma placed_demand [simp]: "placed (j\<lparr>j_last_demand := d\<rparr>) \<longleftrightarrow> placed j"
  by (simp add: placed_def)

lemma jobs_inv_D:
  assumes "jobs_inv now L cur k" "L i = Some j"
  shows "job_ok now i j" "j_state j = ACTIVE \<longleftrightarrow> cur = Some i" "j_commitment j \<noteq> None \<longleftrightarrow> k = Some i"
  using assms unfolding jobs_inv_def by blast+

lemma jobs_inv_put:
  assumes "jobs_inv now L cur k" "job_ok now i j'" "j_state j' = ACTIVE \<longleftrightarrow> cur' = Some i" "j_commitment j' \<noteq> None \<longleftrightarrow> k' = Some i"
    and "cur' = Some i \<or> cur' = cur \<or> cur' = None \<and> cur = Some i" "cur' = Some i \<Longrightarrow> cur = None \<or> cur = Some i"
    and "k' = Some i \<or> k' = k \<or> k' = None \<and> k = Some i" "k' = Some i \<Longrightarrow> k = None \<or> k = Some i"
    and "cur' = None \<or> k' = None"
  shows "jobs_inv now (L(i \<mapsto> j')) cur' k'"
proof -
  have old: "job_ok now m j" "j_state j = ACTIVE \<longleftrightarrow> cur' = Some m" "j_commitment j \<noteq> None \<longleftrightarrow> k' = Some m"
    if "L m = Some j" "m \<noteq> i" for m j
    using jobs_inv_D [OF assms(1) that(1)] assms(5-8) that(2) by auto
  have "L c \<noteq> None" if "cur' = Some c" "c \<noteq> i" for c
    using assms(1,5) that by (auto simp: jobs_inv_def)
  moreover have "L c \<noteq> None \<and> cur' \<noteq> Some c" if "k' = Some c" "c \<noteq> i" for c
    using assms(1,5,7) that by (auto simp: jobs_inv_def)
  ultimately show ?thesis
    using old assms(2-4,9) unfolding jobs_inv_def by (auto split: if_splits)
qed

lemma jobs_inv_remove:
  assumes "jobs_inv now L cur k"
  shows "jobs_inv now (L(i := None)) (if cur = Some i then None else cur) (if k = Some i then None else k)"
  using assms unfolding jobs_inv_def by (auto split: if_splits)

lemma lookup_put: "oset fst (db_jobs db) \<Longrightarrow> lookup_job m (put_job i j db) = (if m = i then Some j else lookup_job m db)"
  by (simp add: lookup_job_def put_job_def oset_find_put)

lemma lookup_put_fun: "oset fst (db_jobs db) \<Longrightarrow> (\<lambda>m. lookup_job m (put_job i j db)) = (\<lambda>m. lookup_job m db)(i \<mapsto> j)"
  by (auto simp: lookup_put)

lemma lookup_present: "lookup_job i db = Some j \<longleftrightarrow> oset_find fst i (db_jobs db) = Some (i, j)"
  using oset_find_key [of fst i "db_jobs db"] by (auto simp: lookup_job_def)

lemma lookup_key: "lookup_job i db \<noteq> None \<longleftrightarrow> i \<in> fst ` set (db_jobs db)"
  by (metis lookup_job_def map_option_is_None oset_find_None)

lemma db_at_D:
  assumes "db_at now k db" "lookup_job i db = Some j"
  shows "job_ok now i j" "j_state j = ACTIVE \<longleftrightarrow> db_current_job db = Some i" "j_commitment j \<noteq> None \<longleftrightarrow> k = Some i"
proof -
  have inv: "jobs_inv now (\<lambda>i. lookup_job i db) (db_current_job db) k" using assms(1) by (simp add: db_at_def)
  show "job_ok now i j" "j_state j = ACTIVE \<longleftrightarrow> db_current_job db = Some i" "j_commitment j \<noteq> None \<longleftrightarrow> k = Some i"
    by (rule jobs_inv_D [OF inv assms(2)])+
qed

lemma db_at_put:
  assumes at: "db_at now k db" and "lookup_job i db = Some j" and ok: "job_ok now i j'"
    and jobs: "j_state j' = ACTIVE \<longleftrightarrow> cur' = Some i" "j_commitment j' \<noteq> None \<longleftrightarrow> k' = Some i"
    and cur: "cur' = Some i \<or> cur' = db_current_job db \<or> cur' = None \<and> db_current_job db = Some i"
      "cur' = Some i \<Longrightarrow> db_current_job db = None \<or> db_current_job db = Some i"
    and k: "k' = Some i \<or> k' = k \<or> k' = None \<and> k = Some i" "k' = Some i \<Longrightarrow> k = None \<or> k = Some i"
      "cur' = None \<or> k' = None"
    and db': "db_jobs db' = oset_put fst (i, j') (db_jobs db)" "db_current_job db' = cur'"
      "db_load db' = (if cur' = None then 0 else 1)" "db_has_commitment db' = (k' \<noteq> None)"
      "db_job_destruct_queue db' = db_job_destruct_queue db" "db_jobs_to_free db' = db_jobs_to_free db"
      "db_num_stored_jobs db' = db_num_stored_jobs db"
      "oset fst (db_schedulers db')" "\<forall>p \<in> set (db_schedulers db'). ls_inv (snd p)"
      "db_params db' = db_params db" "db_job_cache_size db' = db_job_cache_size db"
  shows "db_at now k' db'"
proof -
  have sorted: "oset fst (db_jobs db)" using at by (simp add: db_at_def)
  have "(\<lambda>m. lookup_job m db') = (\<lambda>m. lookup_job m db)(i \<mapsto> j')"
    using lookup_put_fun [OF sorted, of i j'] db'(1) by (simp add: lookup_job_def put_job_def)
  moreover have "jobs_inv now ((\<lambda>m. lookup_job m db)(i \<mapsto> j')) cur' k'"
    by (rule jobs_inv_put [OF _ ok jobs cur k]) (use at in \<open>simp add: db_at_def\<close>)
  moreover have "length (db_jobs db') = length (db_jobs db)"
    using length_oset_put [OF sorted, of "(i, j')"] lookup_key [of i db] assms(2) db'(1) by simp
  ultimately show ?thesis using at db' sorted by (simp add: db_at_def oset_sorted_put)
qed

lemma setLoad_1:
  assumes "db_load db = 0" "db_current_job db = None" "lookup_job i db \<noteq> None"
  shows "setLoad now 1 i db =
    Inr (db\<lparr>db_load := 1, db_current_job := Some i, db_time_of_last_adoption := now\<rparr>, dirty db)"
  using assms by (simp add: setLoad_def db_has_def dirty_def)

lemma setLoad_0:
  assumes "db_load db = 1" "db_current_job db \<noteq> None" "lookup_job i db \<noteq> None"
  obtains busy where "setLoad now 0 i db =
    Inr (db\<lparr>db_load := 0, db_current_job := None, db_total_busy_time := busy\<rparr>, dirty db)"
  by (rule that [of "round24 (db_total_busy_time db + round24 (now - db_time_of_last_adoption db))"])
    (use assms in \<open>simp add: setLoad_def db_has_def dirty_def\<close>)

lemma start_or_resume:
  assumes "job_ok now i j" "j_state j \<noteq> ACTIVE" "0 \<le> jt_index (j_job_tree j)"
  obtains j' out where "(if j_state j = INACTIVE then start now j else resume now j) = Inr (j', out)"
    "job_ok now i j'" "j_state j' = ACTIVE" "j_commitment j' = j_commitment j"
proof -
  consider "j_state j = INACTIVE" | "j_state j = SUSPENDED"
    using assms by (cases "j_state j") (auto simp: job_ok_def)
  then show ?thesis
    by cases (use assms that in \<open>auto simp: start_def resume_def job_ok_def placed_def\<close>)
qed

lemma activate_ok:
  assumes "job_ok now i j'" "pow2_ok pow"
  obtains d out' where "activate pow now i (Inr (j', out)) db = Inr (put_job i (j'\<lparr>j_last_demand := d\<rparr>) db, out')"
proof -
  obtain d where "getDemand pow now j' = Inr d"
    using getDemand_total [of j' pow now] assms by (auto simp: job_ok_def)
  then show ?thesis using that by (simp add: activate_def)
qed

lemma execute_ok:
  assumes at: "db_at now None db" and i: "lookup_job i db = Some j" and idle: "db_current_job db = None"
    and index: "0 \<le> jt_index (j_job_tree j)" and p: "pow2_ok pow"
  shows "\<exists>db' out. execute pow now i db = Inr (db', out) \<and> db_at now None db' \<and> db_current_job db' = Some i"
proof -
  note D = db_at_D [OF at i]
  have na: "j_state j \<noteq> ACTIVE" using D(2) idle by simp
  obtain j' out where j': "(if j_state j = INACTIVE then start now j else resume now j) = Inr (j', out)"
    "job_ok now i j'" "j_state j' = ACTIVE" "j_commitment j' = j_commitment j"
    using start_or_resume [OF D(1) na index] by metis
  let ?db = "db\<lparr>db_load := 1, db_current_job := Some i, db_time_of_last_adoption := now\<rparr>"
  obtain d out' where act: "activate pow now i (Inr (j', out)) ?db = Inr (put_job i (j'\<lparr>j_last_demand := d\<rparr>) ?db, out')"
    using activate_ok [OF j'(2) p] by metis
  have load: "setLoad now 1 i db = Inr (?db, dirty db)"
    by (rule setLoad_1) (use at i idle in \<open>auto simp: db_at_def\<close>)
  have "execute pow now i db = Inr (put_job i (j'\<lparr>j_last_demand := d\<rparr>) ?db, dirty db @ out')"
    by (simp add: execute_def i load j'(1) act)
  moreover have "db_at now None (put_job i (j'\<lparr>j_last_demand := d\<rparr>) ?db)"
    by (rule db_at_put [OF at i, of "j'\<lparr>j_last_demand := d\<rparr>" "Some i" None])
      (use j' at D(3) idle in \<open>auto simp: put_job_def job_ok_def placed_def db_at_def\<close>)
  ultimately show ?thesis by (auto simp: put_job_def)
qed

definition scheds_ok :: "((int \<times> int) \<times> local_scheduler) list \<Rightarrow> bool" where
  "scheds_ok S \<longleftrightarrow> oset fst S \<and> (\<forall>p \<in> set S. ls_inv (snd p))"

lemma scheds_ok_put: "scheds_ok S \<Longrightarrow> ls_inv s \<Longrightarrow> scheds_ok (oset_put fst (key, s) S)"
  by (auto simp: scheds_ok_def oset_sorted_put oset_put_set)

lemma scheds_ok_erase: "scheds_ok S \<Longrightarrow> scheds_ok (oset_erase fst key S)"
  by (auto simp: scheds_ok_def oset_sorted_erase oset_erase_set)

lemma scheds_ok_lookup: "scheds_ok (db_schedulers db) \<Longrightarrow> lookup_scheduler i n db = Some s \<Longrightarrow> ls_inv s"
  unfolding scheds_ok_def lookup_scheduler_def using oset_find_Some [of fst "db_schedulers db" "(i, n)"] by auto

lemma db_at_scheds: "db_at now k db \<Longrightarrow> scheds_ok (db_schedulers db)"
  by (simp add: db_at_def scheds_ok_def)

lemma suspendScheduler_ok:
  assumes "scheds_ok (db_schedulers db)"
  obtains S N out where "suspendScheduler j db = Inr (db\<lparr>db_schedulers := S, db_num_schedulers_per_job := N\<rparr>, out)" "scheds_ok S"
proof (cases "lookup_scheduler (j_id j) (jt_index (j_job_tree j)) db")
  case None
  then show ?thesis using assms
    by (intro that [where S = "db_schedulers db" and N = "db_num_schedulers_per_job db" and out = "[]"])
      (simp_all add: suspendScheduler_def Let_def)
next
  case (Some s)
  let ?key = "(j_id j, jt_index (j_job_tree j))"
  have inv: "ls_inv s" by (rule scheds_ok_lookup [OF assms Some])
  have "good (if isActive s then beginSuspension (-1) s else Inr (s, []))"
    using suspension_good [OF inv, of "-1"] inv by simp
  then obtain s' out where s': "(if isActive s then beginSuspension (-1) s else Inr (s, [])) = Inr (s', out)" "ls_inv s'"
    by (rule goodE)
  let ?S = "oset_put fst (?key, s') (db_schedulers db)"
  have S: "scheds_ok ?S" by (rule scheds_ok_put [OF assms s'(2)])
  show ?thesis
  proof (cases "jt_index (j_job_tree j) > 0 \<and> canCommit s'")
    case True
    then show ?thesis
      by (intro that [OF _ scheds_ok_erase [OF S, of ?key]])
        (simp add: suspendScheduler_def Let_def Some s'(1) put_scheduler_def erase_scheduler_def)
  next
    case False
    then show ?thesis
      by (intro that [OF _ S, where N = "db_num_schedulers_per_job db"])
        (auto simp: suspendScheduler_def Let_def Some s'(1) put_scheduler_def)
  qed
qed

lemma db_suspend_ok:
  assumes at: "db_at now k db" and i: "lookup_job i db = Some j" and act: "j_state j = ACTIVE"
  shows "\<exists>db' out. db_suspend now i db = Inr (db', out) \<and> db_at now k db' \<and> db_current_job db' = None
    \<and> db_has_commitment db' = db_has_commitment db
    \<and> (\<forall>m. m \<noteq> i \<longrightarrow> lookup_job m db' = lookup_job m db)
    \<and> (\<exists>j'. lookup_job i db' = Some j' \<and> j_state j' = SUSPENDED \<and> jt_index (j_job_tree j') = jt_index (j_job_tree j))"
proof -
  note D = db_at_D [OF at i]
  obtain S N out1 where s: "suspendScheduler j db = Inr (db\<lparr>db_schedulers := S, db_num_schedulers_per_job := N\<rparr>, out1)" "scheds_ok S"
    using suspendScheduler_ok [OF db_at_scheds [OF at]] by metis
  obtain t out2 where j: "suspend now j = Inr (j\<lparr>j_state := SUSPENDED, j_job_tree := t\<rparr>, out2)" "tree_ok t"
    "same_place (j_job_tree j) t"
    using suspend_ok [of j now] D(1) act by (metis job_ok_def)
  let ?j = "j\<lparr>j_state := SUSPENDED, j_job_tree := t\<rparr>"
  let ?db = "put_job i ?j (db\<lparr>db_schedulers := S, db_num_schedulers_per_job := N\<rparr>)"
  have sorted: "oset fst (db_jobs db)" using at by (simp add: db_at_def)
  have look: "lookup_job m ?db = (if m = i then Some ?j else lookup_job m db)" for m
    using lookup_put [of "db\<lparr>db_schedulers := S, db_num_schedulers_per_job := N\<rparr>" m i ?j] sorted
    by (simp add: lookup_job_def)
  have cur: "db_current_job db = Some i" using D(2) act by simp
  obtain busy where l: "setLoad now 0 i ?db = Inr (?db\<lparr>db_load := 0, db_current_job := None, db_total_busy_time := busy\<rparr>, dirty ?db)"
    by (rule setLoad_0 [of ?db i now]) (use at cur look in \<open>auto simp: put_job_def db_at_def\<close>)
  let ?db' = "?db\<lparr>db_load := 0, db_current_job := None, db_total_busy_time := busy\<rparr>"
  have "db_at now k ?db'"
    by (rule db_at_put [OF at i, of ?j None k])
      (use at D cur act s(2) j(2,3) in \<open>auto simp: put_job_def job_ok_def placed_def db_at_def scheds_ok_def same_place_def isRoot_def\<close>)
  moreover have "lookup_job m ?db' = (if m = i then Some ?j else lookup_job m db)" for m
    using look [of m] by (simp add: lookup_job_def)
  moreover have "\<exists>out. db_suspend now i db = Inr (?db', out)"
    by (simp add: db_suspend_def i act s(1) j(1) l)
  ultimately show ?thesis using j(3)
    by (intro exI [of _ ?db']) (auto simp: put_job_def same_place_def)
qed

lemma reactivate_ok:
  assumes at: "db_at now None db" and i: "lookup_job (req_jobId req) db = Some j" and idle: "db_current_job db = None"
    and st: "j_state j = SUSPENDED" and index: "0 \<le> req_requestedNodeIndex req" and p: "pow2_ok pow"
  shows "\<exists>db' out. reactivate pow now req db = Inr (db', out) \<and> db_at now None db' \<and> db_current_job db' = Some (req_jobId req)"
proof -
  let ?i = "req_jobId req"
  note D = db_at_D [OF at i]
  obtain t where t: "updateJobTree (req_requestedNodeIndex req) (req_rootRank req) (req_requestingNodeRank req) j
      = Inr (j\<lparr>j_job_tree := t\<rparr>)" "tree_ok t" "jt_comm_size t = jt_comm_size (j_job_tree j)"
    "jt_index t = req_requestedNodeIndex req" "isRoot t \<longrightarrow> jt_client_rank t \<noteq> None"
    using updateJobTree_ok [of j] D(1) by (metis job_ok_def)
  let ?j = "j\<lparr>j_job_tree := t\<rparr>"
  have ok: "job_ok now ?i ?j" using D(1) t index by (auto simp: job_ok_def placed_def)
  obtain j' out where j': "resume now ?j = Inr (j', out)" "job_ok now ?i j'" "j_state j' = ACTIVE"
    "j_commitment j' = None"
    using start_or_resume [OF ok] st D(3) t(4) index by auto
  have sorted: "oset fst (db_jobs db)" using at by (simp add: db_at_def)
  define db0 where "db0 = put_job ?i ?j db"
  have at0: "db_at now None db0" unfolding db0_def
    by (rule db_at_put [OF at i ok, of "db_current_job db" None])
      (use at D idle in \<open>auto simp: put_job_def db_at_def\<close>)
  have i0: "lookup_job ?i db0 = Some ?j" using lookup_put [OF sorted] by (simp add: db0_def)
  have idle0: "db_current_job db0 = None" using idle by (simp add: db0_def put_job_def)
  define db1 where "db1 = db0\<lparr>db_load := 1, db_current_job := Some ?i, db_time_of_last_adoption := now\<rparr>"
  have l: "setLoad now 1 ?i db0 = Inr (db1, dirty db0)" unfolding db1_def
    by (rule setLoad_1) (use at0 i0 idle0 in \<open>auto simp: db_at_def\<close>)
  obtain d out' where act: "activate pow now ?i (Inr (j', out)) db1 = Inr (put_job ?i (j'\<lparr>j_last_demand := d\<rparr>) db1, out')"
    using activate_ok [OF j'(2) p] by metis
  have "reactivate pow now req db = Inr (put_job ?i (j'\<lparr>j_last_demand := d\<rparr>) db1, dirty db0 @ out')"
    using l D(3) by (simp add: reactivate_def db_get_def i t(1) st j'(1) act db0_def)
  moreover have "db_at now None (put_job ?i (j'\<lparr>j_last_demand := d\<rparr>) db1)"
    by (rule db_at_put [OF at0 i0, of "j'\<lparr>j_last_demand := d\<rparr>" "Some ?i" None])
      (use j' at0 db_at_D(3) [OF at0 i0] st idle0 in \<open>auto simp: put_job_def job_ok_def db_at_def db1_def\<close>)
  ultimately show ?thesis by (auto simp: put_job_def db1_def)
qed

lemma db_at_remove:
  assumes at: "db_at now k db" and "lookup_job i db \<noteq> None" and q: "j_state q = PAST"
    and db': "db_jobs db' = oset_erase fst i (db_jobs db)"
      "db_current_job db' = (if db_current_job db = Some i then None else db_current_job db)"
      "db_load db' = (if db_current_job db' = None then 0 else 1)"
      "db_has_commitment db' = (db_has_commitment db \<and> k \<noteq> Some i)"
      "db_job_destruct_queue db' = db_job_destruct_queue db @ [q]" "db_jobs_to_free db' = db_jobs_to_free db"
      "db_num_stored_jobs db' = db_num_stored_jobs db" "db_schedulers db' = db_schedulers db"
      "db_params db' = db_params db" "db_job_cache_size db' = db_job_cache_size db"
  shows "db_at now (if k = Some i then None else k) db'"
proof -
  have sorted: "oset fst (db_jobs db)" using at by (simp add: db_at_def)
  have "(\<lambda>m. lookup_job m db') = (\<lambda>m. lookup_job m db)(i := None)"
    using db'(1) sorted by (auto simp: lookup_job_def oset_find_erase)
  moreover have "jobs_inv now ((\<lambda>m. lookup_job m db)(i := None)) (db_current_job db') (if k = Some i then None else k)"
    unfolding db'(2) by (rule jobs_inv_remove) (use at in \<open>simp add: db_at_def\<close>)
  moreover have "Suc (length (db_jobs db')) = length (db_jobs db)"
    using length_oset_erase [OF sorted] lookup_key [of i db] assms(2) db'(1) by simp
  ultimately show ?thesis using at db' sorted q
    by (auto simp: db_at_def oset_sorted_erase)
qed

lemma forget_eq:
  assumes "lookup_job i db = Some j" "tree_ok (j_job_tree j) \<or> j_state j = PAST"
  obtains q L out where "forget now i db =
      Inr (db\<lparr>db_job_destruct_queue := db_job_destruct_queue db @ [q], db_desire_latencies := L,
              db_jobs := oset_erase fst i (db_jobs db)\<rparr>, out)" "j_state q = PAST"
proof -
  have "\<exists>j' out. (if j_state j \<noteq> PAST then terminate now j else Inr (j, [])) = Inr (j', out) \<and> j_state j' = PAST"
  proof (cases "j_state j = PAST")
    case False
    then obtain j1 t out where "terminate now j = Inr (j1\<lparr>j_state := PAST, j_job_tree := t, j_time_of_abort := now\<rparr>, out)"
      using terminate_ok [of j now] assms(2) by metis
    with False show ?thesis by simp
  qed simp
  then obtain j' out where j': "(if j_state j \<noteq> PAST then terminate now j else Inr (j, [])) = Inr (j', out)" "j_state j' = PAST"
    by blast
  let ?q = "if jt_desire_latencies (j_job_tree j') = [] then j'
            else j'\<lparr>j_job_tree := (j_job_tree j')\<lparr>jt_desire_latencies := []\<rparr>\<rparr>"
  have "j_state ?q = PAST" using j'(2) by simp
  with assms(1) j' show ?thesis by (intro that [where q = ?q]) (simp add: forget_def db_get_def Let_def)
qed

lemma db_at_forget:
  assumes at: "db_at now k db" and i: "lookup_job i db \<noteq> None" "db_current_job db \<noteq> Some i" "k \<noteq> Some i"
  shows "\<exists>db' out. forget now i db = Inr (db', out) \<and> db_at now k db' \<and> db_current_job db' = db_current_job db
    \<and> db_jobs db' = oset_erase fst i (db_jobs db) \<and> cached db' = cached db \<and> db_job_cache_size db' = db_job_cache_size db"
proof -
  obtain j where j: "lookup_job i db = Some j" using i by auto
  obtain q L out where f: "forget now i db =
      Inr (db\<lparr>db_job_destruct_queue := db_job_destruct_queue db @ [q], db_desire_latencies := L,
              db_jobs := oset_erase fst i (db_jobs db)\<rparr>, out)" and q: "j_state q = PAST"
    using forget_eq [OF j] db_at_D(1) [OF at j] by (metis job_ok_def)
  let ?db = "db\<lparr>db_job_destruct_queue := db_job_destruct_queue db @ [q], db_desire_latencies := L,
              db_jobs := oset_erase fst i (db_jobs db)\<rparr>"
  have "db_at now (if k = Some i then None else k) ?db"
    by (rule db_at_remove [OF at i(1) q]) (use at i in \<open>auto simp: db_at_def\<close>)
  moreover have "cached ?db = cached db" by (auto simp: cached_def)
  ultimately show ?thesis using f i(3) by auto
qed

text \<open>The job is no longer current, its statistics are sorted, it is terminated and not committed.\<close>

lemma terminated_job:
  assumes "tree_ok (j_job_tree j)"
  obtains j' out where "terminate now (if was then j else sort_latencies j) = Inr (j', out)" "j_state j' = PAST"
    "j_commitment j' = j_commitment j"
proof -
  let ?j = "if was then j else sort_latencies j"
  have "tree_ok (j_job_tree ?j)"
    using assms by (simp add: tree_ok_def sort_latencies_def jt_inv_def pending_def)
  then obtain t out where "terminate now ?j = Inr ((if j_state ?j = ACTIVE then updateVolumeAndUsedCpu now (j_volume ?j) ?j else ?j)
             \<lparr>j_state := PAST, j_job_tree := t, j_time_of_abort := now\<rparr>, Appl_Terminate # map Cancel_Send out)"
    using terminate_ok by metis
  then show ?thesis by (rule that) (auto simp: sort_latencies_def updateVolumeAndUsedCpu_def)
qed

definition without_current :: "int \<Rightarrow> rat \<Rightarrow> job_database \<Rightarrow> job_database" where
  "without_current i busy db =
     db\<lparr>db_load := (if db_current_job db = Some i then 0 else db_load db),
        db_current_job := (if db_current_job db = Some i then None else db_current_job db), db_total_busy_time := busy\<rparr>"

lemma stop_current:
  assumes at: "db_at now k db" and i: "lookup_job i db = Some j"
  obtains busy out where "(if hasActiveJob db
      then res_bind (getActive db) (\<lambda>a. if j_id a = i then setLoad now 0 i db else Inr (db, [])) else Inr (db, []))
    = Inr (without_current i busy db, out)"
proof (cases "db_current_job db")
  case None
  then have "\<not> hasActiveJob db" using at by (simp add: hasActiveJob_def db_at_def)
  with None show ?thesis by (intro that [of "db_total_busy_time db"]) (simp add: without_current_def)
next
  case (Some c)
  then obtain a where a: "lookup_job c db = Some a" using at by (auto simp: db_at_def jobs_inv_def)
  have *: "getActive db = Inr a" "j_id a = c" "hasActiveJob db"
    using Some a db_at_D(1) [OF at a] at by (auto simp: getActive_def job_ok_def hasActiveJob_def db_at_def)
  obtain busy where l: "setLoad now 0 i db = Inr (db\<lparr>db_load := 0, db_current_job := None, db_total_busy_time := busy\<rparr>, dirty db)"
    by (rule setLoad_0 [of db i now]) (use at Some i in \<open>auto simp: db_at_def\<close>)
  show ?thesis
  proof (cases "c = i")
    case True
    then show ?thesis using * Some l by (intro that [of busy]) (simp add: without_current_def)
  next
    case False
    then show ?thesis using * Some by (intro that [of "db_total_busy_time db"]) (simp add: without_current_def)
  qed
qed

lemma db_terminate_ok:
  assumes at: "db_at now k db" and i: "lookup_job i db = Some j"
  shows "\<exists>db' out. db_terminate now i db = Inr (db', out) \<and> db_at now (if k = Some i then None else k) db'
    \<and> db_current_job db' = (if db_current_job db = Some i then None else db_current_job db)
    \<and> lookup_job i db' = None"
proof -
  note D = db_at_D [OF at i]
  have sorted: "oset fst (db_jobs db)" using at by (simp add: db_at_def)
  obtain busy out1 where l: "(if hasActiveJob db
      then res_bind (getActive db) (\<lambda>a. if j_id a = i then setLoad now 0 i db else Inr (db, [])) else Inr (db, []))
    = Inr (without_current i busy db, out1)" by (rule stop_current [OF at i])
  obtain j1 out2 where j1: "terminate now (if j_state j = PAST then j else sort_latencies j) = Inr (j1, out2)" "j_state j1 = PAST"
    "j_commitment j1 = j_commitment j" using terminated_job [of j now "j_state j = PAST"] D(1) by (metis job_ok_def)
  define j2 where "j2 = j1\<lparr>j_commitment := None\<rparr>"
  define db2 where "db2 = (if j_commitment j \<noteq> None
    then (put_job i j2 (put_job i j1 (without_current i busy db)))\<lparr>db_has_commitment := False\<rparr>
    else put_job i j1 (without_current i busy db))"
  have wc: "db_jobs (without_current i busy db) = db_jobs db" by (simp add: without_current_def)
  have look: "lookup_job i db2 = Some (if j_commitment j \<noteq> None then j2 else j1)"
    using sorted by (simp add: db2_def lookup_job_def put_job_def wc oset_find_put oset_sorted_put)
  have u: "(if j_commitment j1 \<noteq> None then db_uncommit i (put_job i j1 (without_current i busy db))
      else Inr (put_job i j1 (without_current i busy db), []))
    = Inr (db2, if j_commitment j \<noteq> None then dirty (put_job i j1 (without_current i busy db)) else [])"
    using sorted j1 by (simp add: db2_def db_uncommit_def uncommit_def lookup_put wc j2_def)
  obtain q L out4 where f: "forget now i db2 =
      Inr (db2\<lparr>db_job_destruct_queue := db_job_destruct_queue db2 @ [q], db_desire_latencies := L,
              db_jobs := oset_erase fst i (db_jobs db2)\<rparr>, out4)" and q: "j_state q = PAST"
    by (rule forget_eq [OF look, of now]) (use j1(2) in \<open>simp add: j2_def\<close>)
  let ?db = "db2\<lparr>db_job_destruct_queue := db_job_destruct_queue db2 @ [q], db_desire_latencies := L,
              db_jobs := oset_erase fst i (db_jobs db2)\<rparr>"
  have erased: "oset_erase fst i (db_jobs db2) = oset_erase fst i (db_jobs db)"
    using sorted by (simp add: db2_def put_job_def wc oset_sorted_put oset_erase_put)
  have "db_at now (if k = Some i then None else k) ?db"
    by (rule db_at_remove [OF at _ q])
      (use at i D(3) erased in \<open>auto simp: db2_def put_job_def without_current_def db_at_def\<close>)
  moreover have "lookup_job i ?db = None"
    using sorted erased by (simp add: lookup_job_def oset_find_erase)
  moreover have "\<exists>out. db_terminate now i db = Inr (?db, out)"
    using u f by (simp add: db_terminate_def db_get_def i Let_def l j1(1))
  moreover have "db_current_job ?db = (if db_current_job db = Some i then None else db_current_job db)"
    by (simp add: db2_def put_job_def without_current_def)
  ultimately show ?thesis by blast
qed

text \<open>Anything that leaves the state and the commitment of a job alone.\<close>

lemma db_at_update:
  assumes at: "db_at now k db" and i: "lookup_job i db = Some j"
    and j': "job_ok now i j'" "j_state j' = j_state j" "j_commitment j' = j_commitment j"
  shows "db_at now k (put_job i j' db)"
  by (rule db_at_put [OF at i j'(1), of "db_current_job db" k])
    (use at db_at_D [OF at i] j' in \<open>auto simp: put_job_def db_at_def jobs_inv_def\<close>)

lemma db_at_schedulers:
  "db_at now k db \<Longrightarrow> scheds_ok S \<Longrightarrow> db_at now k (db\<lparr>db_schedulers := S, db_num_schedulers_per_job := N\<rparr>)"
  by (simp add: db_at_def scheds_ok_def lookup_job_def)

lemma createJob_ok:
  assumes at: "db_at now k db" and new: "lookup_job i db = None"
    and "0 < commSize" "\<And>s f xs. mset (shuffle s f xs) = mset xs"
  shows "db_at now k (createJob now shuffle commSize worldRank i appl db)"
proof -
  let ?j = "Job now shuffle (db_params db) commSize worldRank i appl"
  have sorted: "oset fst (db_jobs db)" using at by (simp add: db_at_def)
  have ok: "job_ok now i ?j" "j_state ?j = INACTIVE" "j_commitment ?j = None"
    using Job_tree_ok [OF assms(3,4)] assms(3) at by (auto simp: job_ok_def placed_def Job_def JobTree_def db_at_def isRoot_def)
  have c: "db_current_job db \<noteq> Some i" "k \<noteq> Some i" using at new by (auto simp: db_at_def jobs_inv_def)
  have "jobs_inv now ((\<lambda>m. lookup_job m db)(i \<mapsto> ?j)) (db_current_job db) k"
    by (rule jobs_inv_put) (use at ok c in \<open>auto simp: db_at_def jobs_inv_def\<close>)
  moreover have "length (oset_put fst (i, ?j) (db_jobs db)) = Suc (length (db_jobs db))"
    using length_oset_put [OF sorted, of "(i, ?j)"] lookup_key [of i db] new by simp
  ultimately show ?thesis
    using at lookup_put_fun [OF sorted, of i ?j] sorted
    by (simp add: createJob_def db_at_def put_job_def lookup_job_def oset_sorted_put)
qed

lemma db_commit_ok:
  assumes at: "db_at now None db" and idle: "db_current_job db = None" and i: "lookup_job (req_jobId req) db = Some j"
    and index: "0 \<le> req_requestedNodeIndex req"
  shows "\<exists>db' out j'. db_commit pow now req db = Inr (db', out) \<and> db_at now (Some (req_jobId req)) db'
    \<and> db_current_job db' = None \<and> lookup_job (req_jobId req) db' = Some j' \<and> j_commitment j' = Some req
    \<and> jt_index (j_job_tree j') = req_requestedNodeIndex req \<and> db_schedulers db' = db_schedulers db"
proof -
  let ?i = "req_jobId req"
  note D = db_at_D [OF at i]
  have sorted: "oset fst (db_jobs db)" using at by (simp add: db_at_def)
  have st: "j_state j = INACTIVE \<or> j_state j = SUSPENDED"
    using D(1,2) idle by (cases "j_state j") (auto simp: job_ok_def)
  obtain t where t: "commit req j = Inr (j\<lparr>j_commitment := Some req,
      j_balancing_epoch_of_last_commitment := req_balancingEpoch req, j_job_tree := t\<rparr>)" "tree_ok t"
    "jt_index t = req_requestedNodeIndex req" "jt_comm_size t = jt_comm_size (j_job_tree j)"
    "isRoot t \<longrightarrow> jt_client_rank t \<noteq> None"
    using commit_ok [OF _ st, of req] D(1) by (metis job_ok_def)
  define j1 where "j1 = j\<lparr>j_commitment := Some req, j_balancing_epoch_of_last_commitment := req_balancingEpoch req, j_job_tree := t\<rparr>"
  define db1 where "db1 = (put_job ?i j1 db)\<lparr>db_has_commitment := True\<rparr>"
  have ok: "job_ok now ?i (j1\<lparr>j_last_demand := d\<rparr>)" for d using D(1) t index by (auto simp: job_ok_def placed_def j1_def)
  have i1: "lookup_job ?i db1 = Some j1" using sorted by (simp add: db1_def put_job_def lookup_job_def oset_find_put)
  have d: "getDemand pow now j1 = Inr 1" using st by (auto simp: getDemand_def j1_def)
  define j2 where "j2 = (if isRoot t then j1\<lparr>j_last_demand := 1\<rparr> else j1)"
  define db2 where "db2 = (if isRoot t then put_job ?i j2 db1 else db1)"
  have pre: "preregisterJobInBalancer pow now ?i db1 = Inr (db2, [On_Activate ?i 1])"
    using d by (auto simp: preregisterJobInBalancer_def db_get_def i1 Let_def db2_def j2_def j1_def)
  have jobs2: "db_jobs db2 = oset_put fst (?i, j2) (db_jobs db)"
    using sorted by (simp add: db2_def db1_def put_job_def j2_def oset_put_put)
  have "db_at now (Some ?i) db2"
    by (rule db_at_put [OF at i, of j2 None])
      (use jobs2 st idle at D ok [of 1] ok [of "j_last_demand j1"] in \<open>auto simp: db2_def db1_def put_job_def j2_def j1_def db_at_def job_ok_def placed_def\<close>)
  moreover have "lookup_job ?i db2 = Some j2"
    using sorted jobs2 by (simp add: lookup_job_def oset_find_put)
  ultimately show ?thesis using t pre idle
    by (intro exI [of _ db2] exI [of _ "On_Activate ?i 1 # dirty db2"] exI [of _ j2])
      (auto simp: db_commit_def i db1_def j1_def db2_def put_job_def j2_def)
qed

lemma db_uncommit_ok:
  assumes at: "db_at now (Some i) db" and i: "lookup_job i db = Some j"
  shows "db_uncommit i db = Inr ((put_job i (j\<lparr>j_commitment := None\<rparr>) db)\<lparr>db_has_commitment := False\<rparr>, dirty db)
    \<and> db_at now None ((put_job i (j\<lparr>j_commitment := None\<rparr>) db)\<lparr>db_has_commitment := False\<rparr>)"
proof -
  note D = db_at_D [OF at i]
  have none: "db_current_job db = None" using at by (auto simp: db_at_def jobs_inv_def)
  then have "j_state j \<noteq> ACTIVE" using D(2) by simp
  moreover have "db_at now None ((put_job i (j\<lparr>j_commitment := None\<rparr>) db)\<lparr>db_has_commitment := False\<rparr>)"
    by (rule db_at_put [OF at i, of "j\<lparr>j_commitment := None\<rparr>" None])
      (use at D none in \<open>auto simp: put_job_def db_at_def job_ok_def placed_def\<close>)
  ultimately show ?thesis by (simp add: db_uncommit_def i uncommit_def)
qed

lemma initialize_inv:
  assumes "ls_inv s" "nodes_ok (su_inactiveJobNodes u)" "su_epoch u \<le> INT_MAX" "initializeScheduling u p s = Inr (s', out)"
  shows "ls_inv s'"
proof (cases "ls_index s > 0 \<and> su_epoch u \<le> ls_epoch_of_last_suspension s")
  case True
  then have "s' = s\<lparr>ls_parent_rank := p\<rparr>" using assms(4) by (simp add: initializeScheduling_def)
  then show ?thesis using assms(1) by (auto simp: ls_inv_def)
next
  case False
  then have none: "ls_left s = None"
    using assms(4) by (auto simp: initializeScheduling_def Let_def res_bind_eq_Inr_iff check_def split: if_splits)
  with assms(1) have "ls_suspended s" "ls_right s = None" by (auto simp: ls_inv_def)
  then have "good (initializeScheduling u p s)"
    by (intro init_good) (use assms(1-3) none False in \<open>auto simp: ls_inv_def\<close>)
  then show ?thesis using assms(4) by simp
qed

lemma begin_resumption_inv:
  assumes "ls_inv s" "beginResumptionAsRoot s = Inr (s', out)"
  shows "ls_inv s'"
proof -
  have "ls_index s = 0" "ls_suspending s" using assms(2) by (auto simp: beginResumptionAsRoot_def check_def split: if_splits)
  from resumption_good [OF assms(1) this] assms(2) show ?thesis by simp
qed

lemma init_role_inv:
  assumes "ls_inv s" "req_balancingEpoch req \<le> INT_MAX" "init_role req t s = Inr (s', out)"
  shows "ls_inv s'"
proof -
  have "nodes_ok (su_inactiveJobNodes (JobSchedulingUpdate_init\<lparr>su_epoch := e\<rparr>))" for e
    by (simp add: JobSchedulingUpdate_init_def nodes_ok_def)
  then show ?thesis
    using assms initialize_inv [OF assms(1), of "JobSchedulingUpdate_init\<lparr>su_epoch := max 0 (req_balancingEpoch req)\<rparr>"]
      begin_resumption_inv [OF assms(1)] reset_good [OF assms(1)]
    by (auto simp: init_role_def res_bind_eq_Inr_iff split: if_splits)
qed

lemma ensure_scheduler_inv:
  assumes "scheds_ok (db_schedulers db)" "0 \<le> jt_index (j_job_tree j)" "ensure_scheduler myRank req j db = Inr (s, db')"
  obtains S N where "db' = db\<lparr>db_schedulers := S, db_num_schedulers_per_job := N\<rparr>" "scheds_ok S" "ls_inv s"
proof (cases "lookup_scheduler (req_jobId req) (req_requestedNodeIndex req) db")
  case None
  then have s: "constructScheduler myRank j = Inr s" and db': "db' = (put_scheduler (req_jobId req) (req_requestedNodeIndex req) s db)
      \<lparr>db_num_schedulers_per_job := (db_num_schedulers_per_job db)(req_jobId req := db_num_schedulers_per_job db (req_jobId req) + 1)\<rparr>"
    using assms(3) by (auto simp: ensure_scheduler_def Let_def res_bind_eq_Inr_iff)
  have "ls_inv s" using s created_inv assms(2) by (simp add: constructScheduler_def)
  then show ?thesis using that db' scheds_ok_put [OF assms(1)] by (simp add: put_scheduler_def)
next
  case (Some s')
  then show ?thesis
    using assms that [where S = "db_schedulers db" and N = "db_num_schedulers_per_job db"] scheds_ok_lookup [OF assms(1) Some]
    by (simp add: ensure_scheduler_def Let_def)
qed

lemma initScheduler_inv:
  assumes at: "db_at now k db" and i: "lookup_job (req_jobId req) db = Some j" "0 \<le> jt_index (j_job_tree j)"
    and epoch: "req_balancingEpoch req \<le> INT_MAX" and run: "initScheduler myRank req db = Inr (db', out)"
  obtains S N where "db' = db\<lparr>db_schedulers := S, db_num_schedulers_per_job := N\<rparr>" "db_at now k db'"
proof -
  obtain s db1 s' out' where r: "ensure_scheduler myRank req j db = Inr (s, db1)" "init_role req (j_job_tree j) s = Inr (s', out')"
    "db' = put_scheduler (req_jobId req) (req_requestedNodeIndex req) s' db1"
    using run i by (auto simp: initScheduler_def Let_def db_get_def res_bind_eq_Inr_iff)
  obtain S N where SN: "db1 = db\<lparr>db_schedulers := S, db_num_schedulers_per_job := N\<rparr>" "scheds_ok S" "ls_inv s"
    by (rule ensure_scheduler_inv [OF db_at_scheds [OF at] i(2) r(1)])
  have "ls_inv s'" by (rule init_role_inv [OF SN(3) epoch r(2)])
  then have ok: "scheds_ok (oset_put fst ((req_jobId req, req_requestedNodeIndex req), s') S)" by (rule scheds_ok_put [OF SN(2)])
  have "db' = db\<lparr>db_schedulers := oset_put fst ((req_jobId req, req_requestedNodeIndex req), s') S, db_num_schedulers_per_job := N\<rparr>"
    by (rule job_database.equality) (simp_all add: r(3) SN(1) put_scheduler_def)
  then show ?thesis using that db_at_schedulers [OF at ok] by blast
qed

section \<open>Clean-up keeps the invariant\<close>

lemma erase_all:
  assumes "scheds_ok (db_schedulers db)"
  shows "\<exists>S N. fold (\<lambda>((jobId, index), _). erase_scheduler jobId index) xs db
      = db\<lparr>db_schedulers := S, db_num_schedulers_per_job := N\<rparr> \<and> scheds_ok S"
  using assms
proof (induction xs arbitrary: db)
  case Nil
  then show ?case by (intro exI [of _ "db_schedulers db"] exI [of _ "db_num_schedulers_per_job db"]) simp
next
  case (Cons x xs)
  obtain i n s where x: "x = ((i, n), s)" by (cases x) auto
  have "scheds_ok (db_schedulers (erase_scheduler i n db))"
    using Cons.prems by (simp add: erase_scheduler_def scheds_ok_erase)
  from Cons.IH [OF this] obtain S N where "fold (\<lambda>((jobId, index), _). erase_scheduler jobId index) xs (erase_scheduler i n db)
      = (erase_scheduler i n db)\<lparr>db_schedulers := S, db_num_schedulers_per_job := N\<rparr>" "scheds_ok S" by blast
  moreover have "(erase_scheduler i n db)\<lparr>db_schedulers := S, db_num_schedulers_per_job := N\<rparr>
      = db\<lparr>db_schedulers := S, db_num_schedulers_per_job := N\<rparr>" by (simp add: erase_scheduler_def)
  ultimately show ?case by (intro exI [of _ S] exI [of _ N]) (simp add: x)
qed

lemma orderDeletions_ok:
  assumes at: "db_at now k db"
  shows "\<exists>Q F. orderDeletions destructible db = Inr (db\<lparr>db_jobs_to_free := F, db_job_destruct_queue := Q\<rparr>)
    \<and> db_at now k (db\<lparr>db_jobs_to_free := F, db_job_destruct_queue := Q\<rparr>)"
proof -
  let ?q = "db_job_destruct_queue db"
  let ?db = "db\<lparr>db_jobs_to_free := db_jobs_to_free db @ filter destructible ?q, db_job_destruct_queue := filter (\<lambda>j. \<not> destructible j) ?q\<rparr>"
  have "length (filter destructible ?q) + length (filter (\<lambda>j. \<not> destructible j) ?q) = length ?q"
    by (rule sum_length_filter_compl)
  then have "db_at now k ?db" using at by (auto simp: db_at_def lookup_job_def)
  moreover have "orderDeletions destructible db = Inr ?db" using at by (simp add: orderDeletions_def db_at_def)
  ultimately show ?thesis by blast
qed

lemma forget_all_ok:
  assumes "db_at now k db" "distinct ids" "\<forall>i \<in> set ids. lookup_job i db \<noteq> None \<and> db_current_job db \<noteq> Some i \<and> k \<noteq> Some i"
  shows "\<exists>db' out. forget_all now ids db = Inr (db', out) \<and> db_at now k db' \<and> db_current_job db' = db_current_job db
    \<and> db_jobs db' = filter (\<lambda>p. fst p \<notin> set ids) (db_jobs db) \<and> cached db' = cached db \<and> db_job_cache_size db' = db_job_cache_size db"
  using assms
proof (induction ids arbitrary: db)
  case (Cons i ids)
  obtain db1 out1 where 1: "forget now i db = Inr (db1, out1)" "db_at now k db1" "db_current_job db1 = db_current_job db"
    "db_jobs db1 = oset_erase fst i (db_jobs db)" "cached db1 = cached db" "db_job_cache_size db1 = db_job_cache_size db"
    using db_at_forget [OF Cons.prems(1), of i] Cons.prems(3) by auto
  have look: "lookup_job m db1 = (if m = i then None else lookup_job m db)" for m
    using 1(4) by (simp add: lookup_job_def oset_find_erase)
  have "\<forall>m \<in> set ids. lookup_job m db1 \<noteq> None \<and> db_current_job db1 \<noteq> Some m \<and> k \<noteq> Some m"
    using Cons.prems(2,3) 1(3) by (auto simp: look)
  then obtain db2 out2 where 2: "forget_all now ids db1 = Inr (db2, out2)" "db_at now k db2" "db_current_job db2 = db_current_job db1"
    "db_jobs db2 = filter (\<lambda>p. fst p \<notin> set ids) (db_jobs db1)" "cached db2 = cached db1" "db_job_cache_size db2 = db_job_cache_size db1"
    using Cons.IH [OF 1(2)] Cons.prems(2) by auto
  have "db_jobs db2 = filter (\<lambda>p. fst p \<notin> set (i # ids)) (db_jobs db)"
    using 2(4) 1(4) by (auto simp: oset_erase_def intro: filter_cong)
  then show ?case using 1 2 by simp
qed auto

definition age :: "rat \<Rightarrow> job \<Rightarrow> rat" where
  "age now j = round24 (now - j_time_of_activation j)"

definition eviction_order :: "rat \<Rightarrow> job_database \<Rightarrow> (rat \<times> int) list" where
  "eviction_order now db = sort_key (\<lambda>(a, _). - a) (map (\<lambda>(i, j). (age now j, i)) (filter (cached db) (db_jobs db)))"

lemma jobsToForget_eq:
  "0 \<le> db_job_cache_size db \<Longrightarrow> jobsToForget now db =
     Inr (map fst (filter (\<lambda>(_, j). expired now j) (db_jobs db))
        @ take (length (eviction_order now db) - nat (db_job_cache_size db)) (map snd (eviction_order now db)))"
  by (simp add: jobsToForget_def eviction_order_def Let_def age_def)

lemma eviction_order_set:
  "set (eviction_order now db) = (\<lambda>(i, j). (age now j, i)) ` {p \<in> set (db_jobs db). cached db p}"
  by (simp add: eviction_order_def)

lemma eviction_order_distinct:
  assumes "oset fst (db_jobs db)"
  shows "distinct (map snd (eviction_order now db))"
proof -
  have "distinct (map fst (filter (cached db) (db_jobs db)))"
    using assms by (simp add: distinct_map_filter strict_sorted_iff)
  moreover have "map fst (filter (cached db) (db_jobs db)) = map snd (map (\<lambda>(i, j). (age now j, i)) (filter (cached db) (db_jobs db)))"
    by (simp add: comp_def case_prod_beta)
  moreover have "mset (map snd (eviction_order now db)) = mset (map snd (map (\<lambda>(i, j). (age now j, i)) (filter (cached db) (db_jobs db))))"
    by (simp add: eviction_order_def multiset.map_comp)
  ultimately show ?thesis by (metis mset_eq_imp_distinct_iff)
qed

lemma jobs_lookup: "db_at now k db \<Longrightarrow> (i, j) \<in> set (db_jobs db) \<longleftrightarrow> lookup_job i db = Some j"
  using oset_find_Some [of fst "db_jobs db" i "(i, j)"] by (simp add: lookup_present db_at_def)

lemma evicted_ids:
  assumes at: "db_at now k db" and m: "m = length (eviction_order now db) - nat (db_job_cache_size db)"
  defines "ids \<equiv> map fst (filter (\<lambda>(_, j). expired now j) (db_jobs db)) @ take m (map snd (eviction_order now db))"
  shows "distinct ids" "\<forall>i \<in> set ids. lookup_job i db \<noteq> None \<and> db_current_job db \<noteq> Some i \<and> k \<noteq> Some i"
    and "(i, j) \<in> set (db_jobs db) \<Longrightarrow> i \<in> set ids \<longleftrightarrow> expired now j \<or> cached db (i, j) \<and> (age now j, i) \<in> set (take m (eviction_order now db))"
proof -
  have sorted: "oset fst (db_jobs db)" using at by (simp add: db_at_def)
  have evicted: "\<exists>j. (i, j) \<in> set (db_jobs db) \<and> cached db (i, j) \<and> (age now j, i) \<in> set (take m (eviction_order now db))"
    if i: "i \<in> set (take m (map snd (eviction_order now db)))" for i
  proof -
    obtain a where a: "(a, i) \<in> set (take m (eviction_order now db))" using i by (auto simp: take_map)
    then have "(a, i) \<in> set (eviction_order now db)" by (rule in_set_takeD)
    with a show ?thesis by (auto simp: eviction_order_set)
  qed
  have forgettable: "\<exists>j. (i, j) \<in> set (db_jobs db) \<and> (expired now j \<or> cached db (i, j))" if "i \<in> set ids" for i
    using that evicted [of i] by (auto simp: ids_def)
  show "\<forall>i \<in> set ids. lookup_job i db \<noteq> None \<and> db_current_job db \<noteq> Some i \<and> k \<noteq> Some i"
  proof
    fix i assume "i \<in> set ids"
    then obtain j where j: "lookup_job i db = Some j" "expired now j \<or> cached db (i, j)"
      using forgettable jobs_lookup [OF at] by blast
    then show "lookup_job i db \<noteq> None \<and> db_current_job db \<noteq> Some i \<and> k \<noteq> Some i"
      using db_at_D(2,3) [OF at j(1)] by (auto simp: expired_def cached_def)
  qed
  have unique: "j = j'" if "(i, j) \<in> set (db_jobs db)" "(i, j') \<in> set (db_jobs db)" for i j j'
    using oset_key_inj [OF sorted that] by simp
  have "distinct (take m (map snd (eviction_order now db)))"
    using eviction_order_distinct [OF sorted] by simp
  moreover have "distinct (map fst (filter (\<lambda>(_, j). expired now j) (db_jobs db)))"
    using sorted by (simp add: distinct_map_filter strict_sorted_iff)
  moreover have "False" if "i \<in> set (take m (map snd (eviction_order now db)))" "(i, j) \<in> set (db_jobs db)" "expired now j" for i j
    using evicted [OF that(1)] unique [OF that(2)] that(3) by (auto simp: cached_def expired_def)
  ultimately show "distinct ids" by (auto simp: ids_def)
  show "i \<in> set ids \<longleftrightarrow> expired now j \<or> cached db (i, j) \<and> (age now j, i) \<in> set (take m (eviction_order now db))"
    if ij: "(i, j) \<in> set (db_jobs db)"
  proof -
    have "i \<in> set (take m (map snd (eviction_order now db))) \<longleftrightarrow> cached db (i, j) \<and> (age now j, i) \<in> set (take m (eviction_order now db))"
    proof
      assume "i \<in> set (take m (map snd (eviction_order now db)))"
      from evicted [OF this] unique [OF ij] show "cached db (i, j) \<and> (age now j, i) \<in> set (take m (eviction_order now db))"
        by blast
    next
      assume "cached db (i, j) \<and> (age now j, i) \<in> set (take m (eviction_order now db))"
      then show "i \<in> set (take m (map snd (eviction_order now db)))" by (auto simp: take_map image_iff intro: bexI [rotated])
    qed
    moreover have "i \<in> set (map fst (filter (\<lambda>(_, j). expired now j) (db_jobs db))) \<longleftrightarrow> expired now j"
    proof
      assume "i \<in> set (map fst (filter (\<lambda>(_, j). expired now j) (db_jobs db)))"
      then obtain j' where j': "(i, j') \<in> set (db_jobs db)" "expired now j'" by auto
      from unique [OF ij j'(1)] j'(2) show "expired now j" by simp
    qed (use ij in force)
    ultimately show ?thesis by (auto simp: ids_def)
  qed
qed

lemma eviction_sorted:
  assumes "x \<in> set (take m (eviction_order now db))" "y \<in> set (drop m (eviction_order now db))"
  shows "fst y \<le> fst x"
proof -
  have "sorted_wrt (\<le>) (map (\<lambda>(a, _). - a) (eviction_order now db))" by (simp add: eviction_order_def)
  then have "sorted_wrt (\<lambda>x y. - fst x \<le> - fst y) (take m (eviction_order now db) @ drop m (eviction_order now db))"
    by (simp add: sorted_wrt_map case_prod_beta)
  then show ?thesis using assms unfolding sorted_wrt_append by auto
qed

lemma kept_cached:
  assumes at: "db_at now k db" and m: "m = length (eviction_order now db) - nat (db_job_cache_size db)"
    and ids: "\<And>i j. (i, j) \<in> set (db_jobs db) \<Longrightarrow> i \<in> I \<longleftrightarrow> expired now j \<or> cached db (i, j) \<and> (age now j, i) \<in> set (take m (eviction_order now db))"
  shows "length (filter (cached db) (filter (\<lambda>p. fst p \<notin> I) (db_jobs db))) = length (eviction_order now db) - m"
    and "\<lbrakk>(i, j) \<in> set (db_jobs db); cached db (i, j); i \<notin> I\<rbrakk> \<Longrightarrow> (age now j, i) \<in> set (drop m (eviction_order now db))"
proof -
  let ?E = "eviction_order now db" and ?kept = "filter (cached db) (filter (\<lambda>p. fst p \<notin> I) (db_jobs db))"
  have sorted: "oset fst (db_jobs db)" using at by (simp add: db_at_def)
  have dist: "distinct ?E" using eviction_order_distinct [OF sorted, of now] by (simp add: distinct_map)
  have E: "set ?E = set (take m ?E) \<union> set (drop m ?E)" "set (take m ?E) \<inter> set (drop m ?E) = {}"
    using dist set_append [of "take m ?E" "drop m ?E"] distinct_append [of "take m ?E" "drop m ?E"]
    by (simp_all only: append_take_drop_id simp_thms)
  have in_drop: "cached db (i, j) \<and> i \<notin> I \<longleftrightarrow> cached db (i, j) \<and> (age now j, i) \<in> set (drop m ?E)"
    if "(i, j) \<in> set (db_jobs db)" for i j
  proof -
    have "(age now j, i) \<in> set ?E" if "cached db (i, j)"
      using that \<open>(i, j) \<in> set (db_jobs db)\<close> by (force simp: eviction_order_set)
    moreover have "\<not> expired now j" if "cached db (i, j)" using that by (simp add: cached_def expired_def)
    ultimately show ?thesis using ids [OF \<open>(i, j) \<in> set (db_jobs db)\<close>] E by blast
  qed
  then show "\<lbrakk>(i, j) \<in> set (db_jobs db); cached db (i, j); i \<notin> I\<rbrakk> \<Longrightarrow> (age now j, i) \<in> set (drop m ?E)" by blast
  have "set (map (\<lambda>(i, j). (age now j, i)) ?kept) = set (drop m ?E)"
  proof (intro set_eqI iffI)
    fix x assume "x \<in> set (map (\<lambda>(i, j). (age now j, i)) ?kept)"
    then obtain i j where "(i, j) \<in> set (db_jobs db)" "cached db (i, j)" "i \<notin> I" "x = (age now j, i)" by auto
    with in_drop [of i j] show "x \<in> set (drop m ?E)" by blast
  next
    fix x assume x: "x \<in> set (drop m ?E)"
    then have "x \<in> set ?E" by (rule in_set_dropD)
    then obtain i j where ij: "(i, j) \<in> set (db_jobs db)" "cached db (i, j)" "x = (age now j, i)"
      by (auto simp: eviction_order_set)
    with x in_drop [OF ij(1)] show "x \<in> set (map (\<lambda>(i, j). (age now j, i)) ?kept)" by force
  qed
  moreover have "distinct (map (\<lambda>(i, j). (age now j, i)) ?kept)"
  proof -
    have "distinct (map snd (map (\<lambda>(i, j). (age now j, i)) ?kept))"
      using sorted by (simp add: comp_def case_prod_beta distinct_map_filter strict_sorted_iff)
    then show ?thesis by (simp only: distinct_map)
  qed
  moreover have "distinct (drop m ?E)" using dist by simp
  ultimately have "length (map (\<lambda>(i, j). (age now j, i)) ?kept) = length (drop m ?E)"
    by (metis distinct_card)
  then show "length ?kept = length ?E - m" by simp
qed

lemma forgetOldJobs_ok:
  assumes at: "db_at now k db"
  obtains db' out where "forgetOldJobs now destructible db = Inr (db', out)" "db_at now k db'"
    "db_current_job db' = db_current_job db" "set (db_jobs db') \<subseteq> set (db_jobs db)"
    "0 < db_job_cache_size db \<Longrightarrow> length (filter (cached db') (db_jobs db')) \<le> nat (db_job_cache_size db)"
    "\<And>i j. (i, j) \<in> set (db_jobs db') \<Longrightarrow> \<not> expired now j"
    "\<And>i j. \<lbrakk>(i, j) \<in> set (db_jobs db); (i, j) \<notin> set (db_jobs db')\<rbrakk> \<Longrightarrow> expired now j \<or>
       cached db' (i, j) \<and> length (filter (cached db') (db_jobs db')) = nat (db_job_cache_size db)
       \<and> (\<forall>i' j'. (i', j') \<in> set (db_jobs db') \<and> cached db' (i', j') \<longrightarrow> age now j' \<le> age now j)"
proof -
  obtain S N where e: "eraseOldSchedulers db = db\<lparr>db_schedulers := S, db_num_schedulers_per_job := N\<rparr>" "scheds_ok S"
    unfolding eraseOldSchedulers_def using erase_all [OF db_at_scheds [OF at]] by blast
  let ?db1 = "db\<lparr>db_schedulers := S, db_num_schedulers_per_job := N\<rparr>"
  obtain Q F where o: "orderDeletions destructible ?db1 = Inr (?db1\<lparr>db_jobs_to_free := F, db_job_destruct_queue := Q\<rparr>)"
    "db_at now k (?db1\<lparr>db_jobs_to_free := F, db_job_destruct_queue := Q\<rparr>)"
    using orderDeletions_ok [OF db_at_schedulers [OF at e(2)]] by blast
  define db2 where "db2 = ?db1\<lparr>db_jobs_to_free := F, db_job_destruct_queue := Q\<rparr>"
  have at2: "db_at now k db2" using o(2) by (simp only: db2_def)
  have frame: "db_jobs db2 = db_jobs db" "db_current_job db2 = db_current_job db" "db_job_cache_size db2 = db_job_cache_size db"
    by (simp_all add: db2_def)
  let ?E = "eviction_order now db2"
  define m where "m = length ?E - nat (db_job_cache_size db2)"
  define ids where "ids = map fst (filter (\<lambda>(_, j). expired now j) (db_jobs db2)) @ take m (map snd ?E)"
  note ev = evicted_ids [OF at2 m_def, folded ids_def]
  obtain db' out where f: "forget_all now ids db2 = Inr (db', out)" "db_at now k db'" "db_current_job db' = db_current_job db2"
    "db_jobs db' = filter (\<lambda>p. fst p \<notin> set ids) (db_jobs db2)" "cached db' = cached db2"
    using forget_all_ok [OF at2 ev(1,2)] by blast
  note kept = kept_cached [OF at2 m_def, of "set ids", OF ev(3)]
  show ?thesis
  proof (rule that [of db' out])
    show "forgetOldJobs now destructible db = Inr (db', out)"
      using jobsToForget_eq [of db2 now] at2 o(1) f(1)
      by (simp add: forgetOldJobs_def e(1) db2_def [symmetric] m_def ids_def db_at_def)
    show "length (filter (cached db') (db_jobs db')) \<le> nat (db_job_cache_size db)"
      using kept(1) f(4,5) frame(3) m_def by simp
    show "\<not> expired now j" if "(i, j) \<in> set (db_jobs db')" for i j
      using that f(4) ev(3) [of i j] by auto
    show "expired now j \<or> cached db' (i, j) \<and> length (filter (cached db') (db_jobs db')) = nat (db_job_cache_size db)
       \<and> (\<forall>i' j'. (i', j') \<in> set (db_jobs db') \<and> cached db' (i', j') \<longrightarrow> age now j' \<le> age now j)"
      if ij: "(i, j) \<in> set (db_jobs db)" "(i, j) \<notin> set (db_jobs db')" for i j
    proof (cases "expired now j")
      case False
      then have c: "cached db2 (i, j)" "(age now j, i) \<in> set (take m ?E)" using ij f(4) ev(3) [of i j] frame(1) by auto
      then have "m \<noteq> 0" by (cases m) auto
      then have "length ?E - m = nat (db_job_cache_size db2)" by (simp add: m_def)
      moreover have "age now j' \<le> age now j" if "(i', j') \<in> set (db_jobs db')" "cached db2 (i', j')" for i' j'
        using eviction_sorted [OF c(2) kept(2) [of i' j']] that f(4) by simp
      ultimately show ?thesis using c(1) kept(1) f(4,5) frame(3) by auto
    qed simp
  qed (use f frame in auto)
qed

section \<open>Adoption keeps the invariant\<close>

definition leaf_worker :: "job \<Rightarrow> bool" where
  "leaf_worker j \<longleftrightarrow> j_state j = ACTIVE \<and> \<not> isRoot (j_job_tree j) \<and> isLeaf (j_job_tree j)"

text \<open>What a decision means for the database.\<close>

definition decision_ok :: "rat \<Rightarrow> job_request \<Rightarrow> int \<Rightarrow> job_database \<Rightarrow> adoption_result \<Rightarrow> int \<Rightarrow> job_database \<Rightarrow> bool" where
  "decision_ok now req sender db r removed db' \<longleftrightarrow>
     (case r of
        REJECT \<Rightarrow> removed = -1 \<and> db' = db
      | DEFER \<Rightarrow> removed = -1 \<and> db' = db\<lparr>db_deferred_requests := db_deferred_requests db @ [(now, sender, req)]\<rparr>
          \<and> req_requestedNodeIndex req = 0 \<and> 0 < req_numHops req
      | ADOPT_FROM_IDLE \<Rightarrow> removed = -1 \<and> db' = db \<and> \<not> isBusyOrCommitted db
      | ADOPT_REPLACE_CURRENT \<Rightarrow>
          (\<exists>j. db_current_job db = Some removed \<and> lookup_job removed db = Some j \<and> leaf_worker j)
          \<and> req_requestedNodeIndex req = 0 \<and> \<not> isBusyOrCommitted db' \<and> hasDormantJob removed db'
          \<and> (\<forall>m. m \<noteq> removed \<longrightarrow> lookup_job m db' = lookup_job m db)
      | DISCARD \<Rightarrow> False)"

lemma current_job_lookup:
  assumes "db_at now k db" "db_current_job db = Some c"
  obtains j where "lookup_job c db = Some j" "j_id j = c" "j_state j = ACTIVE" "k = None"
proof -
  obtain j where "lookup_job c db = Some j" "k = None" using assms by (auto simp: db_at_def jobs_inv_def)
  then show ?thesis using that db_at_D [OF assms(1)] assms(2) by (auto simp: job_ok_def)
qed

lemma db_at_deferred: "db_at now k db \<Longrightarrow> db_at now k (db\<lparr>db_deferred_requests := x\<rparr>)"
  by (simp add: db_at_def lookup_job_def)

lemma adopt_busy_ok:
  assumes at: "db_at now None db" and cur: "db_current_job db = Some c"
  shows "\<exists>r removed db' out. adopt_busy now req sender db = Inr (r, removed, db', out)
    \<and> db_at now None db' \<and> decision_ok now req sender db r removed db'"
proof -
  obtain j where j: "lookup_job c db = Some j" "j_id j = c" "j_state j = ACTIVE" by (rule current_job_lookup [OF at cur])
  have active: "getActive db = Inr j" using cur j(1) by (simp add: getActive_def)
  let ?replace = "req_requestedNodeIndex req = 0 \<and> \<not> db_reactivation_scheduling db
    \<and> (case lookup_job (req_jobId req) db of None \<Rightarrow> True | Some j \<Rightarrow> j_state j \<noteq> ACTIVE) \<and> leaf_worker j"
  show ?thesis
  proof (cases ?replace)
    case True
    obtain db' out j' where s: "db_suspend now c db = Inr (db', out)" "db_at now None db'" "db_current_job db' = None"
      "db_has_commitment db' = db_has_commitment db"
      "\<forall>m. m \<noteq> c \<longrightarrow> lookup_job m db' = lookup_job m db"
      "lookup_job c db' = Some j'" "j_state j' = SUSPENDED"
      using db_suspend_ok [OF at j(1,3)] by blast
    have "adopt_busy now req sender db = Inr (ADOPT_REPLACE_CURRENT, c, db', out)"
      using True active s(1) j(2) by (auto simp: adopt_busy_def leaf_worker_def)
    moreover have "decision_ok now req sender db ADOPT_REPLACE_CURRENT c db'"
      using True cur j s at by (auto simp: decision_ok_def isBusyOrCommitted_def hasActiveJob_def hasDormantJob_def db_at_def)
    ultimately show ?thesis using s(2) by blast
  next
    case False
    have "adopt_busy now req sender db = reject db \<or> adopt_busy now req sender db =
        Inr (DEFER, -1, db\<lparr>db_deferred_requests := db_deferred_requests db @ [(now, sender, req)]\<rparr>, [])
        \<and> req_requestedNodeIndex req = 0 \<and> 0 < req_numHops req"
      using False active by (auto simp: adopt_busy_def leaf_worker_def split: option.splits)
    then show ?thesis
    proof
      assume "adopt_busy now req sender db = reject db"
      then show ?thesis using at by (simp add: reject_def decision_ok_def)
    qed (use db_at_deferred [OF at] in \<open>simp add: decision_ok_def\<close>)
  qed
qed

text \<open>What else is known when a request is adopted: there is no scheduler of the node that is still in use,
  the request does not turn a root into another node, and no other root sleeps here.\<close>

definition adoptable :: "job_request \<Rightarrow> job_database \<Rightarrow> bool" where
  "adoptable req db \<longleftrightarrow>
     (case lookup_scheduler (req_jobId req) (req_requestedNodeIndex req) db of None \<Rightarrow> True | Some s \<Rightarrow> canCommit s)
     \<and> (case lookup_job (req_jobId req) db of
          None \<Rightarrow> \<not> hasDormantRoot db
        | Some j \<Rightarrow> if isRoot (j_job_tree j) then req_requestedNodeIndex req \<le> 0 \<and> (hasDormantRoot db \<longrightarrow> j_state j = SUSPENDED)
                    else \<not> hasDormantRoot db)"

lemma tryAdopt_ok:
  assumes at: "db_at now k db"
  shows "\<exists>r removed db' out. tryAdopt now req mode sender db = Inr (r, removed, db', out) \<and> db_at now k db'
    \<and> decision_ok now req sender db r removed db' \<and> (r \<in> {ADOPT_FROM_IDLE, ADOPT_REPLACE_CURRENT} \<longrightarrow> k = None \<and> adoptable req db)"
proof (cases "k \<noteq> None \<or> \<not> adoptable req db")
  case True
  then have "tryAdopt now req mode sender db = reject db \<or> tryAdopt now req mode sender db = Inr (REJECT, -1, db, [])"
    using at by (auto simp: tryAdopt_def adoptable_def db_at_def dormant_root_of_request_def split: option.splits if_splits)
  then show ?thesis using at by (auto simp: reject_def decision_ok_def)
next
  case False
  have idle: "isBusyOrCommitted db \<longleftrightarrow> db_current_job db \<noteq> None" using at False
    by (auto simp: isBusyOrCommitted_def hasActiveJob_def db_at_def)
  have "\<exists>r out. tryAdopt now req mode sender db = Inr (r, -1, db, out) \<and> (r = REJECT \<or> r = ADOPT_FROM_IDLE)"
    if "db_current_job db = None"
    using False that idle at
    by (auto simp: tryAdopt_def adoptable_def reject_def db_at_def dormant_root_of_request_def split: option.splits if_splits)
  moreover have "tryAdopt now req mode sender db = adopt_busy now req sender db \<or> (\<exists>out. tryAdopt now req mode sender db = Inr (REJECT, -1, db, out))"
    if "db_current_job db \<noteq> None"
    using that idle by (auto simp: tryAdopt_def reject_def Let_def)
  ultimately show ?thesis
    using adopt_busy_ok [of now db] at False idle by (cases "db_current_job db") (auto simp: decision_ok_def)
qed

section \<open>Calls and reachable databases\<close>

text \<open>The calls that a worker makes, those on a job of the database included. \<open>db_permitted\<close> lists the guards
  under which src/src/worker.cpp makes them: a job is created when it is unknown, a request is committed to
  and a job is executed or resumed while the process is neither busy nor committed, a commitment is revoked
  where there is one, a scheduler is initialized for the request just committed to, and the job that is
  suspended is the current one.\<close>

datatype db_call =
    Create_Job int int int application
  | Append_Revision int "byte list"
  | Execute_Job int | Reactivate_Job job_request | Suspend_Job int | Terminate_Job int
  | Check_Limits int
  | Commit_To job_request | Uncommit_From int
  | Init_Scheduler int job_request | Suspend_Scheduler int
  | Try_Adopt job_request job_request_mode int
  | Forget_Old_Jobs "job \<Rightarrow> bool" | Run_Janitor
  | On_Job int job_call

definition quiet :: "job_call \<Rightarrow> bool" where
  "quiet c \<longleftrightarrow>
     (case c of Start _ \<Rightarrow> False | Suspend _ \<Rightarrow> False | Resume _ \<Rightarrow> False | Terminate _ \<Rightarrow> False
      | Commit _ \<Rightarrow> False | Uncommit \<Rightarrow> False | _ \<Rightarrow> True)"

fun db_perform :: "(rat \<Rightarrow> rat \<Rightarrow> rat) \<Rightarrow> shuffler \<Rightarrow> rat \<Rightarrow> db_call \<Rightarrow> job_database \<Rightarrow> db_result" where
  "db_perform pow shuffle now (Create_Job commSize worldRank jobId appl) db =
     Inr (createJob now shuffle commSize worldRank jobId appl db, [])"
| "db_perform pow shuffle now (Append_Revision jobId description) db =
     res_bind (appendRevision jobId description db) (\<lambda>(_, db). Inr (db, []))"
| "db_perform pow shuffle now (Execute_Job jobId) db = execute pow now jobId db"
| "db_perform pow shuffle now (Reactivate_Job req) db = reactivate pow now req db"
| "db_perform pow shuffle now (Suspend_Job jobId) db = db_suspend now jobId db"
| "db_perform pow shuffle now (Terminate_Job jobId) db = db_terminate now jobId db"
| "db_perform pow shuffle now (Check_Limits jobId) db =
     res_bind (checkComputationLimits now jobId db) (\<lambda>(_, db). Inr (db, []))"
| "db_perform pow shuffle now (Commit_To req) db = db_commit pow now req db"
| "db_perform pow shuffle now (Uncommit_From jobId) db = db_uncommit jobId db"
| "db_perform pow shuffle now (Init_Scheduler myRank req) db = initScheduler myRank req db"
| "db_perform pow shuffle now (Suspend_Scheduler jobId) db =
     res_bind (db_get jobId db) (\<lambda>j. suspendScheduler j db)"
| "db_perform pow shuffle now (Try_Adopt req mode sender) db =
     res_bind (tryAdopt now req mode sender db) (\<lambda>(_, _, db, out). Inr (db, out))"
| "db_perform pow shuffle now (Forget_Old_Jobs destructible) db = forgetOldJobs now destructible db"
| "db_perform pow shuffle now Run_Janitor db = Inr (runJanitor db, [])"
| "db_perform pow shuffle now (On_Job jobId c) db =
     res_bind (db_get jobId db) (\<lambda>j. res_bind (perform_call c j) (\<lambda>(j, out).
       Inr (put_job jobId j db, map (Job_Event jobId) out)))"

fun db_permitted :: "db_call \<Rightarrow> job_database \<Rightarrow> bool" where
  "db_permitted (Create_Job commSize worldRank jobId appl) db \<longleftrightarrow> \<not> db_has jobId db \<and> 0 < commSize"
| "db_permitted (Execute_Job jobId) db \<longleftrightarrow> \<not> isBusyOrCommitted db
     \<and> (case lookup_job jobId db of None \<Rightarrow> True | Some j \<Rightarrow> 0 \<le> jt_index (j_job_tree j))"
| "db_permitted (Reactivate_Job req) db \<longleftrightarrow> \<not> isBusyOrCommitted db \<and> hasDormantJob (req_jobId req) db
     \<and> 0 \<le> req_requestedNodeIndex req"
| "db_permitted (Suspend_Job jobId) db \<longleftrightarrow> db_current_job db = Some jobId"
| "db_permitted (Commit_To req) db \<longleftrightarrow> \<not> isBusyOrCommitted db \<and> 0 \<le> req_requestedNodeIndex req"
| "db_permitted (Uncommit_From jobId) db \<longleftrightarrow> db_hasCommitment jobId db"
| "db_permitted (Init_Scheduler myRank req) db \<longleftrightarrow>
     (case lookup_job (req_jobId req) db of None \<Rightarrow> False
      | Some j \<Rightarrow> j_commitment j = Some req \<and> req_balancingEpoch req \<le> INT_MAX)"
| "db_permitted (Terminate_Job jobId) db \<longleftrightarrow> db_has jobId db"
| "db_permitted (Check_Limits jobId) db \<longleftrightarrow> db_has jobId db"
| "db_permitted (Suspend_Scheduler jobId) db \<longleftrightarrow> db_has jobId db"
| "db_permitted (On_Job jobId c) db \<longleftrightarrow> db_has jobId db \<and> quiet c"
| "db_permitted _ db \<longleftrightarrow> True"

text \<open>Calls whose success depends on received data or on the state of a scheduler.\<close>

fun db_data_call :: "db_call \<Rightarrow> bool" where
  "db_data_call (Append_Revision _ _) \<longleftrightarrow> True"
| "db_data_call (Init_Scheduler _ _) \<longleftrightarrow> True"
| "db_data_call (On_Job _ c) \<longleftrightarrow> data_call c"
| "db_data_call _ \<longleftrightarrow> False"

inductive db_reachable :: "(rat \<Rightarrow> rat \<Rightarrow> rat) \<Rightarrow> shuffler \<Rightarrow> rat \<Rightarrow> job_database \<Rightarrow> bool"
  for pow :: "rat \<Rightarrow> rat \<Rightarrow> rat" and shuffle :: shuffler where
  created: "JobDatabase params reactivation cacheSize wcLimit cpuLimit loadFactor commSize collAssign = Inr db \<Longrightarrow>
    \<not> pa_useDormantChildren params \<Longrightarrow> 0 \<le> cacheSize \<Longrightarrow> db_reachable pow shuffle 0 db"
| called: "db_reachable pow shuffle t db \<Longrightarrow> t \<le> now \<Longrightarrow> db_permitted c db \<Longrightarrow>
    db_perform pow shuffle now c db = Inr (db', out) \<Longrightarrow> db_reachable pow shuffle now db'"

lemma job_ok_mono: "job_ok t i j \<Longrightarrow> t \<le> now \<Longrightarrow> job_ok now i j"
  by (simp add: job_ok_def)

lemma jobs_inv_mono:
  assumes "jobs_inv t L cur k" "t \<le> now"
  shows "jobs_inv now L cur k"
  using assms(1) job_ok_mono [OF _ assms(2)] unfolding jobs_inv_def by blast

lemma db_at_mono:
  assumes at: "db_at t k db" and t: "t \<le> now"
  shows "db_at now k db"
proof -
  have "jobs_inv now (\<lambda>i. lookup_job i db) (db_current_job db) k"
    by (rule jobs_inv_mono [OF _ t]) (use at in \<open>simp add: db_at_def\<close>)
  then show ?thesis using at t by (simp add: db_at_def)
qed

definition unmoved :: "job \<Rightarrow> job \<Rightarrow> bool" where
  "unmoved j j' \<longleftrightarrow> j_id j' = j_id j \<and> j_state j' = j_state j \<and> j_commitment j' = j_commitment j
     \<and> j_time_of_activation j' = j_time_of_activation j \<and> same_place (j_job_tree j) (j_job_tree j')"

lemma unmoved_update: "unmoved j (updateVolumeAndUsedCpu now v j)"
  by (simp add: unmoved_def same_place_def updateVolumeAndUsedCpu_def)

lemma unmoved_push: "pushRevision params data j = Inr j' \<Longrightarrow> unmoved j j'"
  by (auto simp: pushRevision_def Let_def res_bind_eq_Inr_iff unmoved_def same_place_def)

lemma unmoved_limit: "unmoved j (snd (checkResourceLimit now wc cpu j))"
  by (simp add: checkResourceLimit_def Let_def unmoved_update)

lemma unmoved_call:
  assumes "tree_ok (j_job_tree j)" "quiet c" "perform_call c j = Inr (j', out)"
  shows "unmoved j j'"
proof (cases c)
  case (Push_Revision params data)
  then show ?thesis using assms(3) unmoved_push by (auto simp: res_bind_eq_Inr_iff)
next
  case (Update_Volume now v)
  then show ?thesis using assms(3) unmoved_update by auto
next
  case (Check_Limit now wc cpu)
  then show ?thesis using assms(3) unmoved_limit by auto
next
  case (Set_Child now rank index)
  obtain rel t where "setChild now rank index (j_job_tree j) = Inr (rel, t)" "same_place (j_job_tree j) t"
    using setChild_ok [OF assms(1), of now rank index] by metis
  then show ?thesis using assms(3) Set_Child by (auto simp: res_bind_eq_Inr_iff unmoved_def)
next
  case (Wants_To_Communicate now w)
  then show ?thesis using assms(3) by (auto simp: wantsToCommunicate_def unmoved_def same_place_def split: prod.splits if_splits)
next
  case (Begin_Communication now revision)
  then show ?thesis using assms(3) by (auto simp: begin_communication_def res_bind_eq_Inr_iff unmoved_def same_place_def split: if_splits)
next
  case (Communicate source msg)
  then show ?thesis using assms(3) by (auto simp: communicate_def Let_def res_bind_eq_Inr_iff unmoved_def same_place_def)
qed (use assms(2) in \<open>simp_all add: quiet_def\<close>)

lemma quiet_call:
  assumes "job_ok now i j" "quiet c" "perform_call c j = Inr (j', out)"
  shows "job_ok now i j' \<and> j_state j' = j_state j \<and> j_commitment j' = j_commitment j"
proof -
  have "tree_ok (j_job_tree j)" using assms(1) by (simp add: job_ok_def)
  then show ?thesis
    using call_preservation [of j c j' out] unmoved_call [of j c j' out] assms
    by (auto simp: job_ok_def placed_def unmoved_def same_place_def isRoot_def)
qed

lemma busy_iff:
  assumes "db_at now k db"
  shows "isBusyOrCommitted db \<longleftrightarrow> db_current_job db \<noteq> None \<or> k \<noteq> None"
  using assms by (auto simp: isBusyOrCommitted_def hasActiveJob_def db_at_def)

definition kept :: "rat \<Rightarrow> db_result \<Rightarrow> bool" where
  "kept now r \<longleftrightarrow> (case r of Inl _ \<Rightarrow> False | Inr (db, _) \<Rightarrow> \<exists>k. db_at now k db)"

lemma kept_Inr [simp]: "kept now (Inr (db, out)) \<longleftrightarrow> (\<exists>k. db_at now k db)"
  by (simp add: kept_def)

lemma update_kept:
  assumes "db_at now k db" "lookup_job i db = Some j" "job_ok now i j'" "j_state j' = j_state j" "j_commitment j' = j_commitment j"
  shows "kept now (Inr (put_job i j' db, out))"
  using db_at_update [OF assms] by auto

lemma lifecycle_kept:
  assumes at: "db_at now k db" and pow: "pow2_ok pow" and p: "db_permitted c db"
    and c: "(\<exists>i. c = Execute_Job i) \<or> (\<exists>req. c = Reactivate_Job req) \<or> (\<exists>i. c = Suspend_Job i) \<or> (\<exists>i. c = Terminate_Job i)"
  shows "kept now (db_perform pow shuffle now c db)"
proof -
  have idle: "\<not> isBusyOrCommitted db \<Longrightarrow> k = None \<and> db_current_job db = None" using busy_iff [OF at] by blast
  from c show ?thesis
  proof (elim disjE exE)
    fix i assume c: "c = Execute_Job i"
    show ?thesis
    proof (cases "lookup_job i db")
      case None
      then show ?thesis using c at by (auto simp: execute_def)
    next
      case (Some j)
      then show ?thesis using c p idle at execute_ok [of now db i j pow] pow Some by fastforce
    qed
  next
    fix req assume c: "c = Reactivate_Job req"
    then obtain j where "lookup_job (req_jobId req) db = Some j" "j_state j = SUSPENDED"
      using p by (auto simp: hasDormantJob_def split: option.splits)
    then show ?thesis using c p idle at reactivate_ok [of now db req j pow] pow by fastforce
  next
    fix i assume c: "c = Suspend_Job i"
    then obtain j where "lookup_job i db = Some j" "j_state j = ACTIVE"
      using p current_job_lookup [OF at, of i] by auto
    then show ?thesis using c db_suspend_ok [OF at] by fastforce
  next
    fix i assume c: "c = Terminate_Job i"
    then obtain j where "lookup_job i db = Some j" using p by (auto simp: db_has_def)
    then show ?thesis using c db_terminate_ok [OF at] by fastforce
  qed
qed

lemma step_kept:
  assumes at: "db_at now k db" and pow: "pow2_ok pow" and sh: "\<And>s f xs. mset (shuffle s f xs) = mset xs"
    and p: "db_permitted c db" "\<not> db_data_call c"
  shows "kept now (db_perform pow shuffle now c db)"
proof (cases c)
  case (Create_Job commSize worldRank jobId appl)
  then show ?thesis using p createJob_ok [OF at, of jobId commSize shuffle worldRank appl] sh by (auto simp: db_has_def)
next
  case (Check_Limits i)
  then obtain j where j: "lookup_job i db = Some j" using p by (auto simp: db_has_def)
  let ?j = "snd (checkResourceLimit now (db_wcsecs_per_instance db) (db_cpusecs_per_instance db) j)"
  have "job_ok now i ?j \<and> j_state ?j = j_state j \<and> j_commitment ?j = j_commitment j"
    by (rule quiet_call [OF db_at_D(1) [OF at j], of "Check_Limit now (db_wcsecs_per_instance db) (db_cpusecs_per_instance db)" _ "[]"])
      (simp_all add: quiet_def)
  with db_at_update [OF at j, of ?j] show ?thesis using Check_Limits at j
    by (auto simp: checkComputationLimits_def db_get_def split: prod.splits)
next
  case (Commit_To req)
  then have "k = None" "db_current_job db = None" using p busy_iff [OF at] by auto
  then show ?thesis using Commit_To at db_commit_ok [of now db req _ pow]
p by (cases "lookup_job (req_jobId req) db") (fastforce simp: db_commit_def)+
next
  case (Uncommit_From i)
  then obtain j where j: "lookup_job i db = Some j" "j_commitment j \<noteq> None"
    using p by (auto simp: db_hasCommitment_def split: option.splits)
  then have "k = Some i" using db_at_D(3) [OF at j(1)] by simp
  then show ?thesis using Uncommit_From db_uncommit_ok [of now i db j] at j by auto
next
  case (Suspend_Scheduler i)
  then obtain j where j: "lookup_job i db = Some j" using p by (auto simp: db_has_def)
  obtain S N out where "suspendScheduler j db = Inr (db\<lparr>db_schedulers := S, db_num_schedulers_per_job := N\<rparr>, out)" "scheds_ok S"
    using suspendScheduler_ok [OF db_at_scheds [OF at]] by metis
  then show ?thesis using Suspend_Scheduler j db_at_schedulers [OF at] by (auto simp: db_get_def)
next
  case (Try_Adopt req mode sender)
  then show ?thesis using tryAdopt_ok [OF at, of req mode sender] by fastforce
next
  case (Forget_Old_Jobs destructible)
  then show ?thesis using forgetOldJobs_ok [OF at, of destructible] by (metis db_perform.simps(13) kept_Inr)
next
  case Run_Janitor
  have "db_at now k (runJanitor db)" using at by (simp add: runJanitor_def db_at_def lookup_job_def)
  with Run_Janitor show ?thesis by auto
next
  case (On_Job i c')
  then obtain j where j: "lookup_job i db = Some j" using p by (auto simp: db_has_def)
  have "\<exists>j' out. perform_call c' j = Inr (j', out)"
    using call_progress [of j c'] p On_Job db_at_D(1) [OF at j]
    by (cases c') (auto simp: quiet_def call_allowed_def job_ok_def)
  then obtain j' out where c': "perform_call c' j = Inr (j', out)" by blast
  have "job_ok now i j' \<and> j_state j' = j_state j \<and> j_commitment j' = j_commitment j"
    using quiet_call [OF db_at_D(1) [OF at j] _ c'] p On_Job by simp
  with update_kept [OF at j] show ?thesis using On_Job j c' by (auto simp: db_get_def)
qed (use p lifecycle_kept [OF at pow p(1)] in auto)

lemma data_kept:
  assumes at: "db_at now k db" and p: "db_permitted c db" "db_data_call c"
    and run: "db_perform pow shuffle now c db = Inr (db', out)"
  shows "\<exists>k. db_at now k db'"
proof (cases c)
  case (Append_Revision i description)
  then have "db' = db \<or> (\<exists>j j'. lookup_job i db = Some j \<and> pushRevision (db_params db) description j = Inr j' \<and> db' = put_job i j' db)"
    using run by (auto simp: appendRevision_def res_bind_eq_Inr_iff split: option.splits if_splits)
  then show ?thesis
  proof (elim disjE exE conjE)
    fix j j' assume j: "lookup_job i db = Some j" "pushRevision (db_params db) description j = Inr j'" "db' = put_job i j' db"
    have "job_ok now i j' \<and> j_state j' = j_state j \<and> j_commitment j' = j_commitment j"
      by (rule quiet_call [OF db_at_D(1) [OF at j(1)], of "Push_Revision (db_params db) description" _ "[]"])
        (use j(2) in \<open>simp_all add: quiet_def\<close>)
    with db_at_update [OF at j(1)] j(3) show ?thesis by blast
  qed (use at in blast)
next
  case (Init_Scheduler myRank req)
  then obtain j where l: "lookup_job (req_jobId req) db = Some j" "j_commitment j = Some req" "req_balancingEpoch req \<le> INT_MAX"
    using p by (auto split: option.splits)
  then have j: "lookup_job (req_jobId req) db = Some j" "0 \<le> jt_index (j_job_tree j)" "req_balancingEpoch req \<le> INT_MAX"
    using db_at_D(1) [OF at l(1)] by (auto simp: job_ok_def placed_def)
  from initScheduler_inv [OF at j] run Init_Scheduler show ?thesis by (metis db_perform.simps(10))
next
  case (On_Job i c')
  then obtain j j' out' where j: "lookup_job i db = Some j" "perform_call c' j = Inr (j', out')" "db' = put_job i j' db"
    using run by (auto simp: db_get_def res_bind_eq_Inr_iff split: option.splits)
  from quiet_call [OF db_at_D(1) [OF at j(1)] _ j(2)] p On_Job db_at_update [OF at j(1)] j(3) show ?thesis by auto
qed (use p in auto)

lemma created_at:
  assumes "JobDatabase params reactivation cacheSize wcLimit cpuLimit loadFactor commSize collAssign = Inr db"
    "\<not> pa_useDormantChildren params" "0 \<le> cacheSize"
  shows "db_at 0 None db"
  using assms by (auto simp: JobDatabase_def check_def db_at_def jobs_inv_def lookup_job_def split: if_splits)

lemma reachable_at:
  assumes "db_reachable pow shuffle t db" "pow2_ok pow" "\<And>s f xs. mset (shuffle s f xs) = mset xs"
  shows "\<exists>k. db_at t k db"
  using assms(1)
proof induction
  case (called t db now c db' out)
  then obtain k where at: "db_at now k db" using db_at_mono by blast
  show ?case
  proof (cases "db_data_call c")
    case True
    then show ?thesis using data_kept [OF at] called by blast
  next
    case False
    then show ?thesis using step_kept [where shuffle = shuffle, OF at assms(2,3) _ False] called by fastforce
  qed
qed (use created_at in blast)

section \<open>Properties\<close>


definition sample_request :: job_request where
  "sample_request = JobRequest 7 DUMMY 0 1 2 f32_zero 3 0"

definition sample_db :: job_database where
  "sample_db = (case JobDatabase sample_params False 2 0 0 1 16 True of Inr db \<Rightarrow> db)"

definition sample_busy_db :: job_database where
  "sample_busy_db = createJob 1 (\<lambda>_ _ xs. xs) 16 3 7 DUMMY sample_db"

lemma sample_pow: "pow2_ok (\<lambda>_ _. 2)"
  by (simp add: pow2_ok_def)

lemma sample_busy_reachable: "db_reachable (\<lambda>_ _. 2) (\<lambda>_ _ xs. xs) 1 sample_busy_db"
proof (rule called [where t = 0 and c = "Create_Job 16 3 7 DUMMY"])
  show "db_reachable (\<lambda>_ _. 2) (\<lambda>_ _ xs. xs) 0 sample_db"
    by (rule created [of sample_params False 2 0 0 1 16 True])
      (simp_all add: sample_db_def JobDatabase_def sample_params_def)
  show "db_permitted (Create_Job 16 3 7 DUMMY) sample_db"
    by (simp add: sample_db_def JobDatabase_def db_has_def lookup_job_def)
qed (simp_all add: sample_busy_db_def)

lemma sample_busy_idle: "\<not> isBusyOrCommitted sample_busy_db" "db_has 7 sample_busy_db" "db_jobs sample_busy_db =
    [(7, Job 1 (\<lambda>_ _ xs. xs) sample_params 16 3 7 DUMMY)]"
  by (simp_all add: sample_busy_db_def sample_db_def JobDatabase_def createJob_def put_job_def isBusyOrCommitted_def
      hasActiveJob_def db_has_def lookup_job_def oset_find_def)


text \<open>
  Property (C16): the decision on a request. In every reachable database, \<open>tryAdopt\<close> returns. A rejection
  leaves the database as it was, a deferral only queues the request, which then asks for a root and has made
  hops. A job is adopted only by a process without commitment whose scheduler of the requested node can be
  reused, that has no dormant root of another job, and that does not have the root of the same job if
  another node is asked for. It is adopted from idle, or by replacing the current job: then the request asks
  for a root, the current job was a leaf of its tree and not its root, it is suspended afterwards, and the
  other jobs are untouched. Either way the process is neither busy nor committed afterwards, as the
  assertion in \<open>Worker::tryAdoptRequest\<close> demands. \<open>DISCARD\<close> is never returned.
\<close>

theorem adoption_decision:
  assumes "db_reachable pow shuffle t db" "pow2_ok pow" "\<And>s f xs. mset (shuffle s f xs) = mset xs" "t \<le> now"
  shows "\<exists>r removed db' out. tryAdopt now req mode sender db = Inr (r, removed, db', out)
    \<and> decision_ok now req sender db r removed db'
    \<and> (r \<in> {ADOPT_FROM_IDLE, ADOPT_REPLACE_CURRENT} \<longrightarrow> \<not> db_has_commitment db \<and> adoptable req db \<and> \<not> isBusyOrCommitted db')"
proof -
  obtain k where at: "db_at now k db" using reachable_at [OF assms(1-3)] db_at_mono [OF _ assms(4)] by blast
  obtain r removed db' out where r: "tryAdopt now req mode sender db = Inr (r, removed, db', out)"
    "decision_ok now req sender db r removed db'"
    "r \<in> {ADOPT_FROM_IDLE, ADOPT_REPLACE_CURRENT} \<longrightarrow> k = None \<and> adoptable req db"
    using tryAdopt_ok [OF at] by blast
  moreover have "\<not> db_has_commitment db" if "k = None" using at that by (simp add: db_at_def)
  moreover have "\<not> isBusyOrCommitted db'" if "r \<in> {ADOPT_FROM_IDLE, ADOPT_REPLACE_CURRENT}"
    using r(2) that by (auto simp: decision_ok_def)
  ultimately show ?thesis by blast
qed

theorem adoption_decision_witness:
  "\<exists>out. tryAdopt 2 sample_request NORMAL 1 sample_busy_db = Inr (ADOPT_FROM_IDLE, -1, sample_busy_db, out)
    \<and> adoptable sample_request sample_busy_db"
proof -
  have "\<exists>r removed db' out. tryAdopt 2 sample_request NORMAL 1 sample_busy_db = Inr (r, removed, db', out)
    \<and> decision_ok 2 sample_request 1 sample_busy_db r removed db'
    \<and> (r \<in> {ADOPT_FROM_IDLE, ADOPT_REPLACE_CURRENT} \<longrightarrow> \<not> db_has_commitment sample_busy_db
        \<and> adoptable sample_request sample_busy_db \<and> \<not> isBusyOrCommitted db')"
    by (rule adoption_decision [OF sample_busy_reachable sample_pow refl]) simp
  moreover have "tryAdopt 2 sample_request NORMAL 1 sample_busy_db = Inr (ADOPT_FROM_IDLE, -1, sample_busy_db, [])"
    by (simp add: tryAdopt_def sample_busy_idle hasDormantRoot_def Job_def JobTree_def isRoot_def lookup_job_def oset_find_def
        lookup_scheduler_def)
      (simp add: sample_busy_db_def sample_db_def JobDatabase_def createJob_def put_job_def sample_request_def JobRequest_def)
  ultimately show ?thesis by auto
qed



end
