(* ===== verification/Sat_Reader.thy ===== *)
theory Sat_Reader
  imports Job_Description
begin

text \<open>
  The reader of formulas (class \<open>SatReader\<close> in src/src/util/sat_reader.hpp and .cpp): a character automaton
  for DIMACS text and an integer automaton for raw formulas, which add what they meet to a job description,
  and the loops that feed them from a mapped file, a named pipe or a decompressing process. What the
  operating system delivers is an argument.
\<close>

section \<open>State\<close>

datatype content_mode = ASCII | RAW

record sat_reader =
  sr_content_mode :: content_mode
  sr_sign :: int
  sr_comment :: bool
  sr_began_num :: bool
  sr_assumption :: bool
  sr_num :: int
  sr_max_var :: int
  sr_traversing_clauses :: bool
  sr_traversing_assumptions :: bool
  sr_empty_clause :: bool
  sr_valid_input :: bool

type_synonym reading = "sat_reader \<times> job_description"

definition SatReader :: "content_mode \<Rightarrow> sat_reader" where
  "SatReader contentMode =
     \<lparr>sr_content_mode = contentMode, sr_sign = 1, sr_comment = False, sr_began_num = False, sr_assumption = False,
      sr_num = 0, sr_max_var = 0, sr_traversing_clauses = True, sr_traversing_assumptions = False,
      sr_empty_clause = True, sr_valid_input = False\<rparr>"

definition isValidInput :: "sat_reader \<Rightarrow> bool" where
  "isValidInput r \<longleftrightarrow> sr_content_mode r \<noteq> RAW \<or> sr_valid_input r"

section \<open>Raw formulas\<close>

text \<open>\<open>std::abs\<close> is undefined for the smallest integer.\<close>

definition processInt :: "int \<Rightarrow> reading \<Rightarrow> reading res" where
  "processInt x = (\<lambda>(r, d).
     if sr_valid_input r then Inr (r\<lparr>sr_valid_input := False\<rparr>, d)
     else if sr_empty_clause r \<and> x = 0
     then Inr (if sr_traversing_clauses r
               then r\<lparr>sr_traversing_clauses := False, sr_traversing_assumptions := True\<rparr>
               else if sr_traversing_assumptions r then r\<lparr>sr_valid_input := True\<rparr> else r, d)
     else res_bind (if sr_traversing_clauses r then addLiteral x d else addAssumption x d) (\<lambda>d.
            if x = - (2 ^ 31) then Inl Undefined_behaviour
            else Inr (r\<lparr>sr_max_var := max (sr_max_var r) \<bar>x\<bar>,
                        sr_empty_clause := sr_traversing_assumptions r \<or> x = 0\<rparr>, d)))"

fun process_ints :: "int list \<Rightarrow> reading \<Rightarrow> reading res" where
  "process_ints [] st = Inr st"
| "process_ints (x # xs) st = res_bind (processInt x st) (process_ints xs)"

section \<open>DIMACS text\<close>

text \<open>Characters are signed; \<open>EOF\<close> is \<open>-1\<close>. Arithmetic on \<open>int\<close> must not overflow.\<close>

definition char_newline :: int where "char_newline = 10"
definition char_return :: int where "char_return = 13"
definition char_space :: int where "char_space = 32"
definition char_minus :: int where "char_minus = 45"
definition char_0 :: int where "char_0 = 48"
definition char_a :: int where "char_a = 97"
definition char_c :: int where "char_c = 99"
definition char_p :: int where "char_p = 112"
definition eof :: int where "eof = -1"

lemmas char_defs = char_newline_def char_return_def char_space_def char_minus_def char_0_def char_a_def
  char_c_def char_p_def eof_def

definition end_line :: "reading \<Rightarrow> reading res" where
  "end_line = (\<lambda>(r, d).
     let r = r\<lparr>sr_comment := False\<rparr> in
     res_bind
       (if sr_began_num r
        then check (sr_num r = 0)
               (res_bind (if \<not> sr_assumption r then addLiteral 0 d else Inr d) (\<lambda>d. Inr (r\<lparr>sr_began_num := False\<rparr>, d)))
        else Inr (r, d))
       (\<lambda>(r, d). Inr (r\<lparr>sr_assumption := False\<rparr>, d)))"

definition end_number :: "reading \<Rightarrow> reading res" where
  "end_number = (\<lambda>(r, d).
     res_bind
       (if sr_began_num r
        then let lit = sr_sign r * sr_num r in
             res_bind (if \<not> sr_assumption r then if int32 lit then addLiteral lit d else Inl Undefined_behaviour
                       else if sr_num r \<noteq> 0 then if int32 lit then addAssumption lit d else Inl Undefined_behaviour
                       else Inr d) (\<lambda>d.
               Inr (r\<lparr>sr_max_var := max (sr_max_var r) (sr_num r), sr_num := 0, sr_began_num := False\<rparr>, d))
        else Inr (r, d))
       (\<lambda>(r, d). Inr (r\<lparr>sr_sign := 1\<rparr>, d)))"

definition process :: "int \<Rightarrow> reading \<Rightarrow> reading res" where
  "process c = (\<lambda>(r, d).
     if sr_comment r \<and> c \<noteq> char_newline then Inr (r, d)
     else if c = char_newline \<or> c = char_return \<or> c = eof then end_line (r, d)
     else if c = char_p \<or> c = char_c then Inr (r\<lparr>sr_comment := True\<rparr>, d)
     else if c = char_a then Inr (r\<lparr>sr_assumption := True\<rparr>, d)
     else if c = char_space then end_number (r, d)
     else if c = char_minus then Inr (r\<lparr>sr_sign := -1, sr_began_num := True\<rparr>, d)
     else let num = sr_num r * 10 + (c - char_0)
          in if int32 (sr_num r * 10) \<and> int32 num then Inr (r\<lparr>sr_num := num, sr_began_num := True\<rparr>, d)
             else Inl Undefined_behaviour)"

fun process_chars :: "int list \<Rightarrow> reading \<Rightarrow> reading res" where
  "process_chars [] st = Inr st"
| "process_chars (c # cs) st = res_bind (process c st) (process_chars cs)"

section \<open>Sources\<close>

text \<open>What opening a file, a named pipe or the decompressing process delivers (\<open>None\<close> for a failure): the
  bytes of a mapped file, and the bytes of the successive reads from a pipe (an empty one for the end);
  \<open>fs_terminating\<close> is what the n-th query of \<open>Terminator::isTerminating\<close> would return.\<close>

record file_system =
  fs_file :: "byte list option"
  fs_named_pipe :: "byte list list option"
  fs_decompressed :: "byte list list option"
  fs_terminating :: "nat \<Rightarrow> bool"

datatype source_kind = Compressed | Named_Pipe | Plain

definition ends_in :: "string \<Rightarrow> string \<Rightarrow> bool" where
  "ends_in suffix filename \<longleftrightarrow> length filename > length suffix
     \<and> drop (length filename - length suffix) filename = suffix"

definition file_kind :: "string \<Rightarrow> source_kind" where
  "file_kind filename =
     (if ends_in ''.xz'' filename \<or> ends_in ''.lzma'' filename then Compressed
      else if ends_in ''.pipe'' filename then Named_Pipe else Plain)"

fun ints_of :: "byte list \<Rightarrow> int list" where
  "ints_of (b0 # b1 # b2 # b3 # bs) = (case get_int [b0, b1, b2, b3] of None \<Rightarrow> [] | Some x \<Rightarrow> x # ints_of bs)"
| "ints_of _ = []"

text \<open>The loop over a mapped file reads \<open>f[i]\<close> for every \<open>i\<close> below the number of bytes.\<close>

fun mapped_loop :: "(int \<Rightarrow> reading \<Rightarrow> reading res) \<Rightarrow> int list \<Rightarrow> nat \<Rightarrow> reading \<Rightarrow> reading res" where
  "mapped_loop f xs 0 st = Inr st"
| "mapped_loop f [] (Suc n) st = Inl Undefined_behaviour"
| "mapped_loop f (x # xs) (Suc n) st = res_bind (f x st) (mapped_loop f xs n)"

text \<open>\<open>iteration ^ 511 != 0\<close> is \<open>iteration ^ (511 != 0)\<close>: it is false for the iteration one only.\<close>

fun pipe_loop :: "(byte list \<Rightarrow> 'a \<Rightarrow> 'a res) \<Rightarrow> (nat \<Rightarrow> bool) \<Rightarrow> nat \<Rightarrow> byte list list \<Rightarrow> 'a \<Rightarrow> 'a res" where
  "pipe_loop f terminating iteration [] st = Inr st"
| "pipe_loop f terminating iteration (piece # pieces) st =
     (if iteration \<noteq> 1 \<or> \<not> terminating iteration
      then if piece = [] then Inr st
           else res_bind (f piece st) (pipe_loop f terminating (iteration + 1) pieces)
      else Inr st)"

fun line_loop :: "(nat \<Rightarrow> bool) \<Rightarrow> nat \<Rightarrow> byte list list \<Rightarrow> reading \<Rightarrow> reading res" where
  "line_loop terminating i [] st = Inr st"
| "line_loop terminating i (piece # pieces) st =
     (if terminating i then Inr st
      else res_bind (process_chars (map sint (takeWhile (\<lambda>b. b \<noteq> 0) piece)) st) (line_loop terminating (i + 1) pieces))"

text \<open>The raw formula from a decompressing process: the number of bytes read is taken for a number of
  integers, so that the loop runs over what earlier reads left in the buffer of 1024 integers, or past it.\<close>

definition raw_buffer_step :: "byte list \<Rightarrow> byte list \<times> reading \<Rightarrow> (byte list \<times> reading) res" where
  "raw_buffer_step piece = (\<lambda>(buffer, st).
     let buffer = piece @ drop (length piece) buffer
     in res_bind (mapped_loop processInt (ints_of buffer) (length piece) st) (\<lambda>st. Inr (buffer, st)))"

definition read_mapped :: "byte list \<Rightarrow> reading \<Rightarrow> reading res" where
  "read_mapped bytes = (\<lambda>(r, d).
     if sr_content_mode r = RAW then mapped_loop processInt (ints_of bytes) (length bytes) (r, d)
     else res_bind (mapped_loop process (map sint bytes) (length bytes) (r, d)) (process eof))"

definition read_named_pipe :: "(nat \<Rightarrow> bool) \<Rightarrow> byte list list \<Rightarrow> reading \<Rightarrow> reading res" where
  "read_named_pipe terminating pieces = (\<lambda>(r, d).
     if sr_content_mode r = RAW
     then pipe_loop (\<lambda>piece. process_ints (ints_of piece)) terminating 0 pieces (r, d)
     else res_bind (pipe_loop (\<lambda>piece. process_chars (map sint piece)) terminating 0 pieces (r, d)) (process eof))"

definition read_decompressed :: "(nat \<Rightarrow> bool) \<Rightarrow> byte list list \<Rightarrow> reading \<Rightarrow> reading res" where
  "read_decompressed terminating pieces = (\<lambda>(r, d).
     if sr_content_mode r = RAW
     then res_bind (pipe_loop raw_buffer_step terminating 0 pieces (replicate 4096 0, (r, d))) (\<lambda>(_, st). Inr st)
     else res_bind (line_loop terminating 0 pieces (r, d)) (process eof))"

definition finish_reading :: "reading res \<Rightarrow> (bool \<times> reading) res" where
  "finish_reading result =
     res_bind result (\<lambda>(r, d). res_bind (endInitialization d) (\<lambda>d. Inr (isValidInput r, r, d)))"

definition sat_read :: "file_system \<Rightarrow> string \<Rightarrow> sat_reader \<Rightarrow> job_description \<Rightarrow> (bool \<times> reading) res" where
  "sat_read fs filename r d =
     (if file_kind filename = Compressed \<and> fs_decompressed fs = None then Inr (False, r, d)
      else
        res_bind (beginInitialization (jd_revision d) d) (\<lambda>d.
        case (file_kind filename, fs_decompressed fs, fs_named_pipe fs, fs_file fs) of
          (Compressed, Some pieces, _, _) \<Rightarrow> finish_reading (read_decompressed (fs_terminating fs) pieces (r, d))
        | (Named_Pipe, _, Some pieces, _) \<Rightarrow> finish_reading (read_named_pipe (fs_terminating fs) pieces (r, d))
        | (_, _, _, Some bytes) \<Rightarrow> finish_reading (read_mapped bytes (r, d))
        | (_, _, _, None) \<Rightarrow> Inr (False, r, d)))"

section \<open>Printed formulas\<close>

fun print_nat :: "nat \<Rightarrow> int list" where
  "print_nat n = (if n < 10 then [char_0 + int n] else print_nat (n div 10) @ [char_0 + int (n mod 10)])"

declare print_nat.simps [simp del]

definition print_lit :: "int \<Rightarrow> int list" where
  "print_lit l = (if l < 0 then [char_minus] else []) @ print_nat (nat \<bar>l\<bar>) @ [char_space]"

definition comment_ok :: "int list \<Rightarrow> bool" where
  "comment_ok t \<longleftrightarrow> t \<noteq> [] \<and> (hd t = char_c \<or> hd t = char_p) \<and> (\<forall>c \<in> set t. 0 \<le> c \<and> c < 128 \<and> c \<noteq> char_newline)"

definition clause_line :: "int list \<Rightarrow> int list" where
  "clause_line lits = concat (map print_lit lits) @ [char_0, char_newline]"

definition assumption_line :: "int list \<Rightarrow> int list" where
  "assumption_line asms = [char_a, char_space] @ concat (map print_lit asms) @ [char_0, char_newline]"

definition dimacs_text :: "int list list \<Rightarrow> int list list \<Rightarrow> int list \<Rightarrow> int list" where
  "dimacs_text comments clauses asms =
     concat (map (\<lambda>t. t @ [char_newline]) comments) @ concat (map clause_line clauses) @ assumption_line asms"

definition literal_ok :: "int \<Rightarrow> bool" where
  "literal_ok l \<longleftrightarrow> l \<noteq> 0 \<and> \<bar>l\<bar> < 2 ^ 31"

text \<open>The state of the reader between two numbers.\<close>

definition between :: "int \<Rightarrow> bool \<Rightarrow> sat_reader" where
  "between maxVar assumption = (SatReader ASCII)\<lparr>sr_max_var := maxVar, sr_assumption := assumption\<rparr>"

definition max_var :: "int list \<Rightarrow> int \<Rightarrow> int" where
  "max_var lits = fold (\<lambda>l m. max m \<bar>l\<bar>) lits"

lemma add_all_append: "add_all f (xs @ ys) d = res_bind (add_all f xs d) (add_all f ys)"
proof (induction xs arbitrary: d)
  case (Cons x xs)
  then show ?case by (cases "f x d") simp_all
qed simp

lemma process_chars_append: "process_chars (cs @ cs') st = res_bind (process_chars cs st) (process_chars cs')"
proof (induction cs arbitrary: st)
  case (Cons c cs)
  then show ?case by (cases "process c st") simp_all
qed simp

lemma process_digits:
  assumes "\<not> sr_comment r" "int n < 2 ^ 31"
  shows "process_chars (print_nat n) (r\<lparr>sr_num := 0\<rparr>, d) = Inr (r\<lparr>sr_num := int n, sr_began_num := True\<rparr>, d)"
  using assms(2)
proof (induction n rule: print_nat.induct)
  case (1 n)
  show ?case
  proof (cases "n < 10")
    case True
    then show ?thesis using assms(1) by (simp add: print_nat.simps process_def char_defs int32_def)
  next
    case False
    have "int (n div 10) < 2 ^ 31" using "1.prems" by linarith
    with False "1.IH" have "process_chars (print_nat (n div 10)) (r\<lparr>sr_num := 0\<rparr>, d) = Inr (r\<lparr>sr_num := int (n div 10), sr_began_num := True\<rparr>, d)"
      by simp
    moreover have "int (n div 10) * 10 + int (n mod 10) = int n"
      by (metis div_mult_mod_eq of_nat_add of_nat_mult of_nat_numeral)
    moreover have "0 \<le> int (n mod 10)" "int (n mod 10) < 10" "0 \<le> int (n div 10)" by simp_all
    ultimately show ?thesis using False assms(1) "1.prems"
      by (subst print_nat.simps) (simp add: process_chars_append process_def char_defs int32_def)
  qed
qed

lemma process_lit:
  assumes "literal_ok l"
  shows "process_chars (print_lit l) (between m a, d) =
    res_bind (if a then addAssumption l d else addLiteral l d) (\<lambda>d. Inr (between (max m \<bar>l\<bar>) a, d))"
proof -
  let ?r = "(between m a)\<lparr>sr_sign := (if l < 0 then -1 else 1), sr_began_num := l < 0\<rparr>"
  have "process_chars (if l < 0 then [char_minus] else []) (between m a, d) = Inr (?r\<lparr>sr_num := 0\<rparr>, d)"
    by (simp add: process_def char_defs between_def SatReader_def)
  moreover have "process_chars (print_nat (nat \<bar>l\<bar>)) (?r\<lparr>sr_num := 0\<rparr>, d) = Inr (?r\<lparr>sr_num := \<bar>l\<bar>, sr_began_num := True\<rparr>, d)"
    using process_digits [of ?r "nat \<bar>l\<bar>" d] assms by (simp add: between_def SatReader_def literal_ok_def)
  moreover have "process char_space (?r\<lparr>sr_num := \<bar>l\<bar>, sr_began_num := True\<rparr>, d) =
      res_bind (if a then addAssumption l d else addLiteral l d) (\<lambda>d. Inr (between (max m \<bar>l\<bar>) a, d))"
    using assms by (auto simp: process_def char_defs between_def SatReader_def end_number_def literal_ok_def int32_def
        abs_if res_bind_assoc Let_def)
  ultimately show ?thesis by (simp add: print_lit_def process_chars_append res_bind_assoc cong: if_cong)
qed

lemma process_lits:
  assumes "\<forall>l \<in> set lits. literal_ok l"
  shows "process_chars (concat (map print_lit lits)) (between m a, d) =
    res_bind (add_all (if a then addAssumption else addLiteral) lits d) (\<lambda>d. Inr (between (max_var lits m) a, d))"
  using assms
proof (induction lits arbitrary: m d)
  case (Cons l lits)
  then show ?case by (simp add: process_chars_append process_lit res_bind_assoc max_var_def cong: if_cong)
qed (simp add: max_var_def)

lemma process_end:
  "process_chars [char_0, char_newline] (between m a, d) =
    res_bind (if a then Inr d else addLiteral 0 d) (\<lambda>d. Inr (between m False, d))"
  by (simp add: process_def char_defs between_def SatReader_def end_line_def int32_def Let_def res_bind_assoc)

lemma process_clause:
  assumes "\<forall>l \<in> set c. literal_ok l"
  shows "process_chars (clause_line c) (between m False, d) =
    res_bind (add_all addLiteral (c @ [0]) d) (\<lambda>d. Inr (between (max_var c m) False, d))"
  unfolding clause_line_def process_chars_append process_lits [OF assms] add_all_append
  by (simp only: res_bind_assoc res_bind_simps process_end add_all.simps if_False)

lemma process_clauses:
  assumes "\<forall>l \<in> set (concat clauses). literal_ok l"
  shows "process_chars (concat (map clause_line clauses)) (between m False, d) =
    res_bind (add_all addLiteral (concat (map (\<lambda>c. c @ [0]) clauses)) d) (\<lambda>d. Inr (between (max_var (concat clauses) m) False, d))"
  using assms
proof (induction clauses arbitrary: m d)
  case (Cons c clauses)
  have "max_var (concat clauses) (max_var c m) = max_var (concat (c # clauses)) m" by (simp add: max_var_def)
  moreover have "process_chars (concat (map clause_line (c # clauses))) (between m False, d) =
      res_bind (process_chars (clause_line c) (between m False, d)) (process_chars (concat (map clause_line clauses)))"
    by (simp add: process_chars_append)
  ultimately show ?case using Cons process_clause [of c m d]
    by (simp add: add_all_append res_bind_assoc)
qed (simp add: max_var_def)

lemma process_comment:
  assumes "comment_ok t"
  shows "process_chars (t @ [char_newline]) (between m False, d) = Inr (between m False, d)"
proof -
  have skip: "process_chars cs (r\<lparr>sr_comment := True\<rparr>, d) = Inr (r\<lparr>sr_comment := True\<rparr>, d)"
    if "\<forall>c \<in> set cs. c \<noteq> char_newline" for cs r
    using that by (induction cs) (simp_all add: process_def)
  obtain c cs where t: "t = c # cs" "c = char_c \<or> c = char_p" "\<forall>c \<in> set cs. c \<noteq> char_newline"
    using assms by (cases t) (auto simp: comment_ok_def)
  have "process c (between m False, d) = Inr ((between m False)\<lparr>sr_comment := True\<rparr>, d)"
    using t(2) by (auto simp: process_def char_defs between_def SatReader_def)
  moreover have "process char_newline ((between m False)\<lparr>sr_comment := True\<rparr>, d) = Inr (between m False, d)"
    by (simp add: process_def char_defs between_def SatReader_def end_line_def Let_def)
  ultimately show ?thesis using skip [OF t(3)] by (simp add: t(1) process_chars_append)
qed

lemma process_comments:
  "\<forall>t \<in> set comments. comment_ok t \<Longrightarrow>
     process_chars (concat (map (\<lambda>t. t @ [char_newline]) comments)) (between m False, d) = Inr (between m False, d)"
proof (induction comments)
  case (Cons t comments)
  have "concat (map (\<lambda>t. t @ [char_newline]) (t # comments)) = (t @ [char_newline]) @ concat (map (\<lambda>t. t @ [char_newline]) comments)"
    by simp
  then show ?case using Cons process_comment [of t m d] by (simp only: process_chars_append) simp
qed simp

lemma process_assumptions:
  assumes "\<forall>l \<in> set asms. literal_ok l"
  shows "process_chars (assumption_line asms) (between m False, d) =
    res_bind (add_all addAssumption asms d) (\<lambda>d. Inr (between (max_var asms m) False, d))"
proof -
  have "process_chars [char_a, char_space] (between m False, d) = Inr (between m True, d)"
    by (simp add: process_def char_defs between_def SatReader_def end_number_def Let_def)
  then show ?thesis
    unfolding assumption_line_def process_chars_append
    by (simp only: res_bind_simps process_lits [OF assms] process_end res_bind_assoc if_True)
qed

lemma process_dimacs:
  assumes "\<forall>t \<in> set comments. comment_ok t" "\<forall>l \<in> set (concat clauses @ asms). literal_ok l"
  shows "process_chars (dimacs_text comments clauses asms) (SatReader ASCII, d) =
    res_bind (add_all addLiteral (concat (map (\<lambda>c. c @ [0]) clauses)) d) (\<lambda>d.
    res_bind (add_all addAssumption asms d) (\<lambda>d. Inr (between (max_var (concat clauses @ asms) 0) False, d)))"
proof -
  have init: "SatReader ASCII = between 0 False" by (simp add: between_def SatReader_def)
  have "max_var asms (max_var (concat clauses) 0) = max_var (concat clauses @ asms) 0" by (simp add: max_var_def)
  then show ?thesis unfolding init dimacs_text_def process_chars_append
    using process_comments [OF assms(1)] process_clauses [of clauses] process_assumptions [of asms] assms(2)
    by (simp add: res_bind_assoc)
qed

lemma mapped_loop_chars: "mapped_loop process cs (length cs) st = process_chars cs st"
proof (induction cs arbitrary: st)
  case (Cons c cs)
  then show ?case by (cases "process c st") simp_all
qed simp

lemma sint_char: "0 \<le> c \<Longrightarrow> c < 128 \<Longrightarrow> sint (word_of_int c :: byte) = c"
  by (simp add: sint_sbintrunc' signed_take_bit_int_eq_self)

lemma print_nat_chars: "c \<in> set (print_nat n) \<Longrightarrow> 48 \<le> c \<and> c < 58"
proof (induction n rule: print_nat.induct)
  case (1 n)
  have "0 \<le> int (n mod 10)" "int (n mod 10) < 10" by simp_all
  with 1 show ?case by (subst (asm) (2) print_nat.simps) (auto simp: char_defs split: if_splits)
qed

lemma dimacs_chars:
  assumes "\<forall>t \<in> set comments. comment_ok t" "c \<in> set (dimacs_text comments clauses asms)"
  shows "0 \<le> c \<and> c < 128"
proof -
  have lits: "0 \<le> c \<and> c < 128" if "c \<in> set (concat (map print_lit ls))" for ls
    using that print_nat_chars by (fastforce simp: print_lit_def char_defs split: if_splits)
  have "0 \<le> c \<and> c < 128" if c: "c \<in> set (concat (map clause_line clauses))"
  proof -
    obtain ls where "c \<in> set (clause_line ls)" using c by auto
    then show ?thesis using lits [of ls] by (auto simp: clause_line_def char_defs)
  qed
  moreover have "0 \<le> c \<and> c < 128" if "c \<in> set (assumption_line asms)"
    using that lits [of asms] by (auto simp: assumption_line_def char_defs)
  moreover have "0 \<le> c \<and> c < 128" if "c \<in> set (concat (map (\<lambda>t. t @ [char_newline]) comments))"
    using that assms(1) by (auto simp: comment_ok_def char_defs split: if_splits)
  ultimately show ?thesis using assms(2) by (auto simp: dimacs_text_def)
qed

definition file_of :: "int list \<Rightarrow> byte list" where
  "file_of text = map word_of_int text"

lemma read_dimacs:
  assumes "\<forall>t \<in> set comments. comment_ok t" "\<forall>l \<in> set (concat clauses @ asms). literal_ok l"
  shows "read_mapped (file_of (dimacs_text comments clauses asms)) (SatReader ASCII, d) =
    res_bind (add_all addLiteral (concat (map (\<lambda>c. c @ [0]) clauses)) d) (\<lambda>d.
    res_bind (add_all addAssumption asms d) (\<lambda>d. Inr (between (max_var (concat clauses @ asms) 0) False, d)))"
proof -
  let ?t = "dimacs_text comments clauses asms"
  have "map sint (file_of ?t) = ?t"
    unfolding file_of_def by (auto simp: sint_char dest: dimacs_chars [OF assms(1)] intro!: map_idI)
  moreover have "process eof (between m False, d) = Inr (between m False, d)" for m d
    by (simp add: process_def char_defs between_def SatReader_def end_line_def Let_def)
  ultimately show ?thesis
    using mapped_loop_chars [of ?t "(SatReader ASCII, d)"] process_dimacs [OF assms]
    by (simp add: read_mapped_def SatReader_def res_bind_assoc file_of_def del: map_map)
qed

lemma put_int_nonempty: "put_int x \<noteq> []"
proof
  assume "put_int x = []"
  then have "length (put_int x) = 0" by simp
  then show False by (simp only: length_put)
qed

section \<open>Properties\<close>

text \<open>
  Property (C34): a formula in DIMACS format is read exactly. From a file of comment and header lines, one
  line per clause ending in zero, and a line of assumptions, the reader adds to the description the literals
  of the clauses, each clause ended by a zero, and then the assumptions, in their order and nothing else,
  for all literals that are integers of the machine; it reports success and knows the largest variable.
\<close>

theorem dimacs_is_read_exactly:
  assumes "file_kind filename = Plain" "fs_file fs = Some (file_of (dimacs_text comments clauses asms))"
    and "\<forall>t \<in> set comments. comment_ok t" "\<forall>l \<in> set (concat clauses @ asms). literal_ok l"
  shows "sat_read fs filename (SatReader ASCII) d =
    res_bind (build_revision (jd_revision d) (concat (map (\<lambda>c. c @ [0]) clauses)) asms d) (\<lambda>d'.
      Inr (True, between (max_var (concat clauses @ asms) 0) False, d'))"
proof -
  have valid: "isValidInput (between m False)" for m by (simp add: isValidInput_def between_def SatReader_def)
  show ?thesis
    using assms(1,2) read_dimacs [OF assms(3,4)]
    by (simp add: sat_read_def finish_reading_def build_revision_def res_bind_assoc valid)
qed

theorem dimacs_is_read_exactly_witness:
  "sat_read \<lparr>fs_file = Some (file_of (dimacs_text [[112, 32, 51]] [[1, -20], [3]] [-1])), fs_named_pipe = None,
      fs_decompressed = None, fs_terminating = (\<lambda>_. False)\<rparr> ''f.cnf'' (SatReader ASCII) sample_description =
    res_bind (build_revision 0 [1, -20, 0, 3, 0] [-1] sample_description) (\<lambda>d'. Inr (True, between 20 False, d'))"
  using dimacs_is_read_exactly [of "''f.cnf''" "\<lparr>fs_file = Some (file_of (dimacs_text [[112, 32, 51]] [[1, -20], [3]] [-1])),
      fs_named_pipe = None, fs_decompressed = None, fs_terminating = (\<lambda>_. False)\<rparr>" "[[112, 32, 51]]" "[[1, -20], [3]]" "[-1]"
      sample_description]
  by (simp add: file_kind_def ends_in_def comment_ok_def char_defs literal_ok_def max_var_def sample_description_def JobDescription_def)



section \<open>Raw formulas from a pipe\<close>

definition raw_ints :: "int list list \<Rightarrow> int list \<Rightarrow> int list" where
  "raw_ints clauses asms = concat (map (\<lambda>c. c @ [0]) clauses) @ [0] @ asms @ [0]"

lemma process_ints_append: "process_ints (xs @ ys) st = res_bind (process_ints xs st) (process_ints ys)"
proof (induction xs arbitrary: st)
  case (Cons x xs)
  then show ?case by (cases "processInt x st") simp_all
qed simp

definition raw_state :: "int \<Rightarrow> bool \<Rightarrow> bool \<Rightarrow> bool \<Rightarrow> sat_reader" where
  "raw_state m asms emptyClause valid = (SatReader RAW)\<lparr>sr_max_var := m, sr_traversing_clauses := \<not> asms,
     sr_traversing_assumptions := asms, sr_empty_clause := emptyClause, sr_valid_input := valid\<rparr>"

lemma raw_step:
  "literal_ok l \<Longrightarrow> processInt l (raw_state m False e False, d) = res_bind (addLiteral l d) (\<lambda>d. Inr (raw_state (max m \<bar>l\<bar>) False False False, d))"
  "processInt 0 (raw_state m False False False, d) = res_bind (addLiteral 0 d) (\<lambda>d. Inr (raw_state (max m 0) False True False, d))"
  "processInt 0 (raw_state m False True False, d) = Inr (raw_state m True True False, d)"
  "literal_ok l \<Longrightarrow> processInt l (raw_state m True True False, d) = res_bind (addAssumption l d) (\<lambda>d. Inr (raw_state (max m \<bar>l\<bar>) True True False, d))"
  "processInt 0 (raw_state m True True False, d) = Inr (raw_state m True True True, d)"
  by (auto simp: processInt_def raw_state_def SatReader_def literal_ok_def abs_if intro!: arg_cong2 [of _ _ _ _ res_bind] ext)

lemma raw_lits:
  assumes "\<forall>l \<in> set ls. literal_ok l"
  shows "process_ints ls (raw_state m False e False, d) =
    res_bind (add_all addLiteral ls d) (\<lambda>d. Inr (raw_state (max_var ls m) False (ls = [] \<and> e) False, d))"
  using assms
proof (induction ls arbitrary: m e d)
  case (Cons l ls)
  then show ?case by (simp add: raw_step res_bind_assoc max_var_def)
qed (simp add: max_var_def)

lemma raw_asms:
  assumes "\<forall>l \<in> set ls. literal_ok l"
  shows "process_ints ls (raw_state m True True False, d) =
    res_bind (add_all addAssumption ls d) (\<lambda>d. Inr (raw_state (max_var ls m) True True False, d))"
  using assms
proof (induction ls arbitrary: m d)
  case (Cons l ls)
  then show ?case by (simp add: raw_step res_bind_assoc max_var_def)
qed (simp add: max_var_def)

lemma max_var_ge: "m \<le> max_var ls m"
proof (induction ls arbitrary: m)
  case (Cons l ls)
  have "m \<le> max m \<bar>l\<bar>" by simp
  also have "\<dots> \<le> max_var ls (max m \<bar>l\<bar>)" by (rule Cons.IH)
  finally show ?case by (simp add: max_var_def)
qed (simp add: max_var_def)

lemma raw_clauses:
  assumes "\<forall>c \<in> set clauses. c \<noteq> [] \<and> (\<forall>l \<in> set c. literal_ok l)" "0 \<le> m"
  shows "process_ints (concat (map (\<lambda>c. c @ [0]) clauses)) (raw_state m False True False, d) =
    res_bind (add_all addLiteral (concat (map (\<lambda>c. c @ [0]) clauses)) d) (\<lambda>d.
      Inr (raw_state (max_var (concat clauses) m) False True False, d))"
  using assms
proof (induction clauses arbitrary: m d)
  case (Cons c clauses)
  have c: "c \<noteq> []" "\<forall>l \<in> set c. literal_ok l" using Cons.prems by auto
  have m: "0 \<le> max_var c m" using max_var_ge [of m c] Cons.prems(2) by linarith
  have "process_ints (c @ [0]) (raw_state m False True False, d) =
      res_bind (add_all addLiteral (c @ [0]) d) (\<lambda>d. Inr (raw_state (max_var c m) False True False, d))"
    using c m by (simp add: process_ints_append raw_lits add_all_append res_bind_assoc raw_step max_absorb1)
  moreover have "max_var (concat clauses) (max_var c m) = max_var (concat (c # clauses)) m" by (simp add: max_var_def)
  moreover have "concat (map (\<lambda>c. c @ [0]) (c # clauses)) = (c @ [0]) @ concat (map (\<lambda>c. c @ [0]) clauses)" by simp
  ultimately show ?case using Cons.IH [OF _ m] Cons.prems(1)
    by (simp only: process_ints_append add_all_append res_bind_assoc) simp
qed (simp add: max_var_def)

lemma ints_of_put: "\<forall>x \<in> set xs. int32 x \<Longrightarrow> ints_of (concat (map put_int xs)) = xs"
proof (induction xs)
  case (Cons x xs)
  obtain b0 b1 b2 b3 where b: "put_int x = [b0, b1, b2, b3]"
  proof -
    have "length (put_int x) = Suc (Suc (Suc (Suc 0)))" by simp
    then show ?thesis using that by (auto simp only: length_Suc_conv length_0_conv)
  qed
  then show ?case using Cons get_put_int [of x] by simp
qed simp

lemma raw_pipe:
  assumes "\<forall>xs \<in> set pieces. xs \<noteq> [] \<and> (\<forall>x \<in> set xs. int32 x)" "\<not> terminating 1"
  shows "pipe_loop (\<lambda>piece. process_ints (ints_of piece)) terminating n (map (\<lambda>xs. concat (map put_int xs)) pieces) st
    = process_ints (concat pieces) st"
  using assms(1)
proof (induction pieces arbitrary: n st)
  case (Cons xs pieces)
  have "concat (map put_int xs) \<noteq> []" using Cons.prems put_int_nonempty by (cases xs) auto
  then show ?case using Cons assms(2) ints_of_put [of xs]
    by (cases "process_ints xs st") (auto simp: process_ints_append)
qed simp

text \<open>
  Property (C35): a raw formula is read exactly from a named pipe whose reads return whole integers. The
  integers are the clauses, each ended by zero, a zero, the assumptions and a zero; however the reads cut
  them, the reader adds the literals and the assumptions to the description as above and accepts the input.
\<close>

theorem raw_pipe_is_read_exactly:
  assumes "file_kind filename = Named_Pipe" "fs_named_pipe fs = Some (map (\<lambda>xs. concat (map put_int xs)) pieces)"
    and "concat pieces = raw_ints clauses asms" "\<forall>xs \<in> set pieces. xs \<noteq> []" "\<not> fs_terminating fs 1"
    and "\<forall>c \<in> set clauses. c \<noteq> []" "\<forall>l \<in> set (concat clauses @ asms). literal_ok l"
  shows "sat_read fs filename (SatReader RAW) d =
    res_bind (build_revision (jd_revision d) (concat (map (\<lambda>c. c @ [0]) clauses)) asms d) (\<lambda>d'.
      Inr (True, raw_state (max_var (concat clauses @ asms) 0) True True True, d'))"
proof -
  have range: "int32 x" if "x \<in> set (concat pieces)" for x
  proof -
    have "x = 0 \<or> literal_ok x" using that assms(7) unfolding assms(3) by (auto simp: raw_ints_def split: if_splits)
    then show ?thesis by (auto simp: literal_ok_def int32_def)
  qed
  have init: "SatReader RAW = raw_state 0 False True False" by (simp add: raw_state_def SatReader_def)
  have "max_var asms (max_var (concat clauses) 0) = max_var (concat clauses @ asms) 0" by (simp add: max_var_def)
  moreover have "\<forall>c \<in> set clauses. c \<noteq> [] \<and> (\<forall>l \<in> set c. literal_ok l)" "\<forall>l \<in> set asms. literal_ok l"
    using assms(6,7) by auto
  ultimately have ints: "process_ints (raw_ints clauses asms) (SatReader RAW, d) =
      res_bind (add_all addLiteral (concat (map (\<lambda>c. c @ [0]) clauses)) d) (\<lambda>d.
      res_bind (add_all addAssumption asms d) (\<lambda>d. Inr (raw_state (max_var (concat clauses @ asms) 0) True True True, d)))" for d
    using raw_clauses [of clauses 0] raw_asms [of asms]
    by (simp add: raw_ints_def process_ints_append init res_bind_assoc raw_step)
  have pieces: "\<forall>xs \<in> set pieces. xs \<noteq> [] \<and> (\<forall>x \<in> set xs. int32 x)" using range assms(4) by auto
  have "read_named_pipe (fs_terminating fs) (map (\<lambda>xs. concat (map put_int xs)) pieces) (SatReader RAW, d)
      = process_ints (raw_ints clauses asms) (SatReader RAW, d)" for d
    using raw_pipe [of pieces "fs_terminating fs" 0 "(SatReader RAW, d)"] pieces assms(3,5)
    by (simp add: read_named_pipe_def SatReader_def)
  moreover have "isValidInput (raw_state m True True True)" for m by (simp add: isValidInput_def raw_state_def)
  ultimately show ?thesis using assms(1,2)
    by (simp add: sat_read_def finish_reading_def build_revision_def res_bind_assoc ints split: option.splits)
qed

theorem raw_pipe_is_read_exactly_witness:
  "sat_read \<lparr>fs_file = None, fs_named_pipe = Some [concat (map put_int [1, -20]), concat (map put_int [0, 0, 7, 0])],
      fs_decompressed = None, fs_terminating = (\<lambda>_. False)\<rparr> ''f.pipe'' (SatReader RAW) sample_description =
    res_bind (build_revision 0 [1, -20, 0] [7] sample_description) (\<lambda>d'. Inr (True, raw_state 20 True True True, d'))"
  using raw_pipe_is_read_exactly [of "''f.pipe''" "\<lparr>fs_file = None, fs_named_pipe = Some [concat (map put_int [1, -20]),
      concat (map put_int [0, 0, 7, 0])], fs_decompressed = None, fs_terminating = (\<lambda>_. False)\<rparr>"
      "[[1, -20], [0, 0, 7, 0]]" "[[1, -20]]" "[7]" sample_description]
  by (simp add: file_kind_def ends_in_def raw_ints_def literal_ok_def max_var_def sample_description_def JobDescription_def)

end
