(* ===== verification/Event_Map.thy ===== *)
theory Event_Map
  imports Floats Hashing
begin

text \<open>
  \<open>Event\<close> and \<open>EventMap\<close> (src/src/balancing/event_map.hpp): the set of newest known events, one per job,
  that the balancer reduces and broadcasts. The \<open>std::map<int, Event>\<close> is a list of pairs that is
  strictly sorted by key. The members \<open>assignment\<close> and \<open>volume\<close> of \<open>Event\<close>, which nothing reads or
  serializes, are left out.
\<close>

section \<open>Events and event maps\<close>

record event =
  ev_jobId :: int
  ev_epoch :: int
  ev_demand :: int
  ev_priority :: float32

definition Event_eq :: "event \<Rightarrow> event \<Rightarrow> bool" where
  "Event_eq e f \<longleftrightarrow>
     ev_jobId e = ev_jobId f \<and> ev_epoch e = ev_epoch f
     \<and> ev_demand e = ev_demand f \<and> f32_eq (ev_priority e) (ev_priority f)"

definition dominates :: "event \<Rightarrow> event \<Rightarrow> bool" where
  "dominates e other \<longleftrightarrow> ev_epoch e > ev_epoch other"

record event_map =
  em_global_epoch :: "64 word"
  em_map :: "(int \<times> event) list"

definition em_get :: "event_map \<Rightarrow> int \<Rightarrow> event option" where
  "em_get m j = map_option snd (oset_find fst j (em_map m))"

definition EventMap_empty :: event_map where
  "EventMap_empty = \<lparr>em_global_epoch = 0, em_map = []\<rparr>"

definition put_event :: "event \<Rightarrow> byte list" where
  "put_event e =
     put_int (ev_jobId e) @ put_int (ev_epoch e) @ put_int (ev_demand e) @
     put_float (ev_priority e)"

definition get_event :: "byte list \<Rightarrow> event option" where
  "get_event bs =
     do {
       (jobId, bs) \<leftarrow> rd_int bs;
       (epoch, bs) \<leftarrow> rd_int bs;
       (demand, bs) \<leftarrow> rd_int bs;
       (priority, bs) \<leftarrow> rd_float bs;
       Some \<lparr>ev_jobId = jobId, ev_epoch = epoch, ev_demand = demand, ev_priority = priority\<rparr>
     }"

abbreviation "rd_event \<equiv> rd 16 get_event"

definition EventMap_serialize :: "event_map \<Rightarrow> byte list" where
  "EventMap_serialize m =
     put_size_t (em_global_epoch m) @ concat (map (put_event \<circ> snd) (em_map m))"

fun deserialize_events ::
    "nat \<Rightarrow> byte list \<Rightarrow> (int \<times> event) list \<Rightarrow> (int \<times> event) list option" where
  "deserialize_events 0 bs mp = Some mp"
| "deserialize_events (Suc n) bs mp =
     (case rd_event bs of None \<Rightarrow> None
      | Some (e, bs) \<Rightarrow> deserialize_events n bs (oset_put fst (ev_jobId e, e) mp))"

definition EventMap_deserialize :: "byte list \<Rightarrow> event_map option" where
  "EventMap_deserialize packed =
     do {
       (epoch, bs) \<leftarrow> rd_size_t packed;
       (let numEvents = (length packed - 8) div 16
        in if length packed \<le> 12 then Some \<lparr>em_global_epoch = epoch, em_map = []\<rparr>
           else do {
             mp \<leftarrow> deserialize_events numEvents bs [];
             Some \<lparr>em_global_epoch = epoch, em_map = mp\<rparr>
           })
     }"

text \<open>The simultaneous iteration over two sorted maps.\<close>

fun merge_loop ::
    "(int \<times> event) list \<Rightarrow> (int \<times> event) list \<Rightarrow> (int \<times> event) list \<Rightarrow> (int \<times> event) list" where
  "merge_loop ((i, ev) # xs) ((j, other) # ys) newMap =
     (if i = j
      then merge_loop xs ys (oset_put fst (i, if dominates ev other then ev else other) newMap)
      else if i < j then merge_loop xs ((j, other) # ys) (oset_put fst (i, ev) newMap)
      else merge_loop ((i, ev) # xs) ys (oset_put fst (j, other) newMap))"
| "merge_loop ((i, ev) # xs) [] newMap = merge_loop xs [] (oset_put fst (i, ev) newMap)"
| "merge_loop [] ((j, other) # ys) newMap = merge_loop [] ys (oset_put fst (j, other) newMap)"
| "merge_loop [] [] newMap = newMap"

definition EventMap_merge :: "event_map \<Rightarrow> event_map \<Rightarrow> event_map" where
  "EventMap_merge m other =
     \<lparr>em_global_epoch = max (em_global_epoch m) (em_global_epoch other),
      em_map = merge_loop (em_map m) (em_map other) []\<rparr>"

definition EventMap_isEmpty :: "event_map \<Rightarrow> bool" where
  "EventMap_isEmpty m \<longleftrightarrow> em_map m = []"

text \<open>The parameter of \<open>setGlobalEpoch\<close> is an \<open>int\<close> that is converted to \<open>size_t\<close>.\<close>

definition setGlobalEpoch :: "int \<Rightarrow> event_map \<Rightarrow> event_map" where
  "setGlobalEpoch epoch m = m\<lparr>em_global_epoch := word_of_int epoch\<rparr>"

definition insertIfNovel :: "event \<Rightarrow> event_map \<Rightarrow> bool \<times> event_map" where
  "insertIfNovel ev m =
     (if ev_epoch ev < 0 then (False, m)
      else if (case em_get m (ev_jobId ev) of None \<Rightarrow> True | Some old \<Rightarrow> dominates ev old)
      then (True, m\<lparr>em_map := oset_put fst (ev_jobId ev, ev) (em_map m)\<rparr>)
      else (False, m))"

text \<open>
  \<open>filterBy\<close> aborts when both maps hold an event of the same job and epoch with different demand or
  priority; it erases every entry that the other map supersedes.
\<close>

definition filter_conflict :: "event_map \<Rightarrow> int \<times> event \<Rightarrow> bool" where
  "filter_conflict other = (\<lambda>(jobId, ev).
     (case em_get other jobId of None \<Rightarrow> False
      | Some otherEv \<Rightarrow>
          ev_epoch otherEv = ev_epoch ev
          \<and> (\<not> f32_eq (ev_priority otherEv) (ev_priority ev) \<or> ev_demand otherEv \<noteq> ev_demand ev)))"

definition filter_erased :: "event_map \<Rightarrow> int \<times> event \<Rightarrow> bool" where
  "filter_erased other = (\<lambda>(jobId, ev).
     (case em_get other jobId of None \<Rightarrow> False
      | Some otherEv \<Rightarrow> ev_epoch otherEv \<ge> ev_epoch ev))"

definition filterBy :: "event_map \<Rightarrow> event_map \<Rightarrow> event_map res" where
  "filterBy m other =
     (if list_ex (filter_conflict other) (em_map m) then Inl Aborted
      else Inr \<lparr>em_global_epoch = max (em_global_epoch m) (em_global_epoch other),
                em_map = filter (\<lambda>p. \<not> filter_erased other p) (em_map m)\<rparr>)"

fun update_loop :: "(int \<times> event) list \<Rightarrow> bool \<Rightarrow> event_map \<Rightarrow> bool \<times> event_map" where
  "update_loop [] change m = (change, m)"
| "update_loop ((j, ev) # es) change m =
     (let (inserted, m') = insertIfNovel ev m in update_loop es (change \<or> inserted) m')"

definition updateBy :: "event_map \<Rightarrow> event_map \<Rightarrow> bool \<times> event_map" where
  "updateBy m other =
     (let (change, m') = update_loop (em_map other) False m
      in (change \<or> em_global_epoch other > em_global_epoch m',
          m'\<lparr>em_global_epoch := max (em_global_epoch m') (em_global_epoch other)\<rparr>))"

definition old_zero :: "int \<times> event \<Rightarrow> bool" where
  "old_zero = (\<lambda>(j, ev). ev_demand ev = 0 \<and> f32_le (ev_priority ev) f32_zero)"

definition removeOldZeros :: "event_map \<Rightarrow> int list \<times> event_map" where
  "removeOldZeros m =
     (map fst (filter old_zero (em_map m)),
      m\<lparr>em_map := filter (\<lambda>p. \<not> old_zero p) (em_map m)\<rparr>)"

definition EventMap_remove :: "int \<Rightarrow> event_map \<Rightarrow> event_map" where
  "EventMap_remove key m = m\<lparr>em_map := oset_erase fst key (em_map m)\<rparr>"

definition EventMap_clear :: "event_map \<Rightarrow> event_map" where
  "EventMap_clear m = m\<lparr>em_map := []\<rparr>"

section \<open>Invariant\<close>

text \<open>A map is sorted by job, files every event under its own job and holds no negative epoch.\<close>

definition em_inv :: "event_map \<Rightarrow> bool" where
  "em_inv m \<longleftrightarrow> oset fst (em_map m) \<and> (\<forall>(j, e) \<in> set (em_map m). ev_jobId e = j \<and> 0 \<le> ev_epoch e)"

definition event_ok :: "event \<Rightarrow> bool" where
  "event_ok e \<longleftrightarrow> int32 (ev_jobId e) \<and> int32 (ev_epoch e) \<and> int32 (ev_demand e)"

lemma em_get_inv: "em_inv m \<Longrightarrow> em_get m j = Some e \<Longrightarrow> ev_jobId e = j \<and> 0 \<le> ev_epoch e"
  by (auto simp: em_get_def em_inv_def oset_find_Some)

lemma em_get_iff: "em_inv m \<Longrightarrow> em_get m j = Some e \<longleftrightarrow> (j, e) \<in> set (em_map m)"
  by (force simp: em_get_def em_inv_def oset_find_Some)

lemma em_inv_sorted: "em_inv m \<Longrightarrow> oset fst (em_map m)"
  by (simp add: em_inv_def)

lemma em_eqI:
  assumes "em_inv m" "em_inv n" "em_global_epoch m = em_global_epoch n"
    and "\<And>j. em_get m j = em_get n j"
  shows "m = n"
proof -
  have "oset_find fst j (em_map m) = oset_find fst j (em_map n)" for j
    using assms(4) [of j]
    by (cases "oset_find fst j (em_map m)"; cases "oset_find fst j (em_map n)")
      (auto simp: em_get_def dest!: oset_find_key)
  then have "em_map m = em_map n"
    using assms(1,2) by (intro oset_eq_findI) (auto simp: em_inv_def)
  with assms(3) show ?thesis by (cases m; cases n) simp
qed

section \<open>Newest event wins\<close>

text \<open>The abstract meaning of all updates: per job, the event with the larger epoch.\<close>

definition newer :: "event option \<Rightarrow> event option \<Rightarrow> event option" where
  "newer old new =
     (case new of None \<Rightarrow> old
      | Some e \<Rightarrow> if ev_epoch e < 0 then old
                 else (case old of None \<Rightarrow> Some e
                       | Some f \<Rightarrow> if dominates e f then Some e else Some f))"

lemma newer_None [simp]: "newer old None = old"
  by (simp add: newer_def)

lemma newer_assoc:
  "newer (newer a b) c = newer a (newer b c)"
  by (auto simp: newer_def dominates_def split: option.splits)

lemma newer_idem [simp]: "newer a a = a"
  by (auto simp: newer_def dominates_def split: option.splits)

lemma newer_absorb: "newer (newer a b) b = newer a b"
  by (simp add: newer_assoc)

lemma insertIfNovel_spec:
  assumes "em_inv m" "insertIfNovel ev m = (ins, m')"
  shows "em_inv m'" "em_global_epoch m' = em_global_epoch m"
    and "em_get m' j = (if j = ev_jobId ev then newer (em_get m j) (Some ev) else em_get m j)"
    and "ins \<longleftrightarrow> em_get m' (ev_jobId ev) \<noteq> em_get m (ev_jobId ev)"
proof -
  let ?new = "m\<lparr>em_map := oset_put fst (ev_jobId ev, ev) (em_map m)\<rparr>"
  have srt: "oset fst (em_map m)" by (rule em_inv_sorted [OF assms(1)])
  have get_new: "em_get ?new j = (if j = ev_jobId ev then Some ev else em_get m j)" for j
    using oset_find_put [OF srt, of j "(ev_jobId ev, ev)"] by (simp add: em_get_def)
  have inv_new: "0 \<le> ev_epoch ev \<Longrightarrow> em_inv ?new"
    using assms(1) oset_put_set [OF srt] oset_sorted_put [OF srt] by (auto simp: em_inv_def)
  consider (skip) "m' = m" "\<not> ins" "newer (em_get m (ev_jobId ev)) (Some ev) = em_get m (ev_jobId ev)"
    | (put) "m' = ?new" ins "0 \<le> ev_epoch ev" "em_get m (ev_jobId ev) \<noteq> Some ev"
        "newer (em_get m (ev_jobId ev)) (Some ev) = Some ev"
    using assms(2) by (cases "em_get m (ev_jobId ev)")
      (auto simp: insertIfNovel_def newer_def dominates_def split: if_splits)
  note cases = this
  from cases show "em_inv m'" by cases (use assms(1) inv_new in auto)
  from cases show "em_global_epoch m' = em_global_epoch m" by cases auto
  from cases show
    "em_get m' j = (if j = ev_jobId ev then newer (em_get m j) (Some ev) else em_get m j)"
    by cases (use get_new in auto)
  from cases show "ins \<longleftrightarrow> em_get m' (ev_jobId ev) \<noteq> em_get m (ev_jobId ev)"
    by cases (use get_new in metis)+
qed

lemma update_loop_spec:
  assumes "em_inv m" "oset fst es" "\<forall>(j, e) \<in> set es. ev_jobId e = j"
    and "update_loop es ch m = (ch', m')"
  shows "em_inv m' \<and> em_global_epoch m' = em_global_epoch m
    \<and> (\<forall>j. em_get m' j = newer (em_get m j) (map_option snd (oset_find fst j es)))
    \<and> (ch' \<longleftrightarrow> ch \<or> (\<exists>j. em_get m' j \<noteq> em_get m j))"
  using assms
proof (induction es ch m rule: update_loop.induct)
  case (2 j ev es change m)
  obtain ins m1 where m1: "insertIfNovel ev m = (ins, m1)" by force
  note spec = insertIfNovel_spec [OF "2.prems"(1) m1]
  have j: "ev_jobId ev = j" using "2.prems"(3) by auto
  have fresh: "oset_find fst j es = None" using "2.prems"(2) by (auto simp: oset_find_None)
  from 2 m1 have IH: "em_inv m' \<and> em_global_epoch m' = em_global_epoch m1
      \<and> (\<forall>j. em_get m' j = newer (em_get m1 j) (map_option snd (oset_find fst j es)))
      \<and> (ch' \<longleftrightarrow> (change \<or> ins) \<or> (\<exists>j. em_get m' j \<noteq> em_get m1 j))"
    using spec(1) by simp
  have get: "em_get m' i = newer (em_get m i) (map_option snd (oset_find fst i ((j, ev) # es)))" for i
    using IH spec(3) [of i] j fresh by (cases "i = j") (auto simp: oset_find_def)
  have "em_get m' j = em_get m1 j" using IH fresh by simp
  then have "(\<exists>i. em_get m' i \<noteq> em_get m i) \<longleftrightarrow> ins \<or> (\<exists>i. em_get m' i \<noteq> em_get m1 i)"
    using spec(3,4) j by (metis (no_types, lifting))
  with IH spec(2) get show ?case by auto
qed simp

lemma updateBy_spec:
  assumes "em_inv m" "em_inv d" "updateBy m d = (ch, m')"
  shows "em_inv m'" "em_global_epoch m' = max (em_global_epoch m) (em_global_epoch d)"
    and "em_get m' j = newer (em_get m j) (em_get d j)"
    and "ch \<longleftrightarrow> (\<exists>j. em_get m' j \<noteq> em_get m j) \<or> em_global_epoch m < em_global_epoch d"
proof -
  obtain c1 m1 where m1: "update_loop (em_map d) False m = (c1, m1)" by force
  have "oset fst (em_map d)" "\<forall>(j, e) \<in> set (em_map d). ev_jobId e = j"
    using assms(2) by (auto simp: em_inv_def)
  note spec = update_loop_spec [OF assms(1) this m1]
  have m': "m' = m1\<lparr>em_global_epoch := max (em_global_epoch m1) (em_global_epoch d)\<rparr>"
    and ch: "ch \<longleftrightarrow> c1 \<or> em_global_epoch m1 < em_global_epoch d"
    using assms(3) m1 by (auto simp: updateBy_def)
  show "em_inv m'" using spec m' by (simp add: em_inv_def)
  show "em_global_epoch m' = max (em_global_epoch m) (em_global_epoch d)"
    using spec m' by (simp add: em_get_def)
  show "em_get m' j = newer (em_get m j) (em_get d j)" using spec m' by (simp add: em_get_def)
  show "ch \<longleftrightarrow> (\<exists>j. em_get m' j \<noteq> em_get m j) \<or> em_global_epoch m < em_global_epoch d"
    using spec m' ch by (simp add: em_get_def)
qed


section \<open>Contract of a newest-event-wins store\<close>

text \<open>
  What the balancer relies on when it pushes sets of events through the reduction tree: an update
  keeps, per job, the event of the larger epoch. Everything that follows from it (idempotence,
  insensitivity to order and repetition) is proved once here.
\<close>

definition consistent :: "event set \<Rightarrow> bool" where
  "consistent E \<longleftrightarrow>
     (\<forall>e \<in> E. \<forall>f \<in> E. ev_jobId e = ev_jobId f \<and> ev_epoch e = ev_epoch f \<longrightarrow> e = f)"

definition events_of :: "event_map \<Rightarrow> event set" where
  "events_of m = snd ` set (em_map m)"

lemma em_get_events: "em_inv m \<Longrightarrow> em_get m j = Some e \<Longrightarrow> e \<in> events_of m"
  unfolding events_of_def using em_get_iff by (metis imageI snd_conv)

lemma foldl_newer:
  assumes "\<forall>e \<in> set_option a. 0 \<le> ev_epoch e"
    and "\<forall>x \<in> set xs. \<forall>e \<in> set_option x. 0 \<le> ev_epoch e"
    and "S = set_option a \<union> (\<Union>x \<in> set xs. set_option x)"
  shows "case foldl newer a xs of None \<Rightarrow> S = {}
    | Some e \<Rightarrow> e \<in> S \<and> (\<forall>f \<in> S. ev_epoch f \<le> ev_epoch e)"
  using assms
proof (induction xs arbitrary: a S)
  case Nil
  then show ?case by (auto split: option.splits)
next
  case (Cons x xs)
  let ?S = "set_option (newer a x) \<union> (\<Union>x \<in> set xs. set_option x)"
  have sub: "?S \<subseteq> S" and dom: "\<forall>f \<in> S. \<exists>g \<in> ?S. ev_epoch f \<le> ev_epoch g"
    and nn: "\<forall>e \<in> set_option (newer a x). 0 \<le> ev_epoch e"
    using Cons.prems by (force simp: newer_def dominates_def split: option.splits if_splits)+
  from Cons.IH [OF nn _ refl] Cons.prems(2)
  have "case foldl newer (newer a x) xs of None \<Rightarrow> ?S = {}
      | Some e \<Rightarrow> e \<in> ?S \<and> (\<forall>f \<in> ?S. ev_epoch f \<le> ev_epoch e)" by simp
  with sub dom show ?case by (auto split: option.splits) (meson order_trans)+
qed

lemma foldl_newer_cong:
  assumes "\<forall>e \<in> set_option a \<union> (\<Union>x \<in> set xs. set_option x). 0 \<le> ev_epoch e \<and> ev_jobId e = j"
    and "consistent (set_option a \<union> (\<Union>x \<in> set xs. set_option x))"
    and "set xs = set ys"
  shows "foldl newer a xs = foldl newer a ys"
proof -
  let ?S = "set_option a \<union> (\<Union>x \<in> set xs. set_option x)"
  have xs: "case foldl newer a xs of None \<Rightarrow> ?S = {}
      | Some e \<Rightarrow> e \<in> ?S \<and> (\<forall>f \<in> ?S. ev_epoch f \<le> ev_epoch e)"
    using assms(1) by (intro foldl_newer) auto
  have ys: "case foldl newer a ys of None \<Rightarrow> ?S = {}
      | Some e \<Rightarrow> e \<in> ?S \<and> (\<forall>f \<in> ?S. ev_epoch f \<le> ev_epoch e)"
    using assms(1,3) by (intro foldl_newer) auto
  show ?thesis
  proof (cases "foldl newer a xs")
    case None
    with xs have "?S = {}" by simp
    with ys None show ?thesis by (auto split: option.splits)
  next
    case (Some e)
    with xs have e: "e \<in> ?S" "\<forall>f \<in> ?S. ev_epoch f \<le> ev_epoch e" by auto
    with ys obtain f where f: "foldl newer a ys = Some f" "f \<in> ?S"
      "\<forall>g \<in> ?S. ev_epoch g \<le> ev_epoch f" by (auto split: option.splits)
    have "ev_epoch e = ev_epoch f" "ev_jobId e = ev_jobId f"
      using e f assms(1) by (auto intro: order_antisym)
    with assms(2) e(1) f(2) have "e = f" unfolding consistent_def by blast
    with Some f(1) show ?thesis by simp
  qed
qed

locale newest_wins =
  fixes upd :: "event_map \<Rightarrow> event_map \<Rightarrow> event_map"
  assumes upd_inv: "em_inv m \<Longrightarrow> em_inv d \<Longrightarrow> em_inv (upd m d)"
    and upd_get: "em_inv m \<Longrightarrow> em_inv d \<Longrightarrow> em_get (upd m d) j = newer (em_get m j) (em_get d j)"
    and upd_epoch: "em_inv m \<Longrightarrow> em_inv d \<Longrightarrow>
      em_global_epoch (upd m d) = max (em_global_epoch m) (em_global_epoch d)"
begin

lemma upd_idem: "em_inv m \<Longrightarrow> em_inv d \<Longrightarrow> upd (upd m d) d = upd m d"
  by (rule em_eqI) (simp_all add: upd_inv upd_get upd_epoch newer_absorb)

lemma upd_assoc:
  "em_inv a \<Longrightarrow> em_inv b \<Longrightarrow> em_inv c \<Longrightarrow> upd (upd a b) c = upd a (upd b c)"
  by (rule em_eqI) (simp_all add: upd_inv upd_get upd_epoch newer_assoc max.assoc)

lemma foldl_upd:
  assumes "em_inv m" "\<forall>d \<in> set ds. em_inv d"
  shows "em_inv (foldl upd m ds)
    \<and> em_get (foldl upd m ds) j = foldl newer (em_get m j) (map (\<lambda>d. em_get d j) ds)
    \<and> em_global_epoch (foldl upd m ds) = Max (em_global_epoch ` insert m (set ds))"
  using assms
proof (induction ds arbitrary: m)
  case (Cons d ds)
  have "Max (em_global_epoch ` insert (upd m d) (set ds))
      = Max (em_global_epoch ` insert m (insert d (set ds)))"
    using Cons.prems by (cases "ds = []") (simp_all add: upd_epoch max.assoc)
  with Cons show ?case by (simp add: upd_inv upd_get)
qed simp

lemma order_irrelevant:
  assumes "em_inv m" "\<forall>d \<in> set ds. em_inv d" "set ds = set ds'"
    and "consistent (events_of m \<union> (\<Union>d \<in> set ds. events_of d))"
  shows "foldl upd m ds = foldl upd m ds'"
proof (rule em_eqI)
  have inv': "\<forall>d \<in> set ds'. em_inv d" using assms(2,3) by simp
  note foldl_upd = foldl_upd [OF assms(1,2)] foldl_upd [OF assms(1) inv']
  show "em_inv (foldl upd m ds)" "em_inv (foldl upd m ds')"
    and "em_global_epoch (foldl upd m ds) = em_global_epoch (foldl upd m ds')"
    using foldl_upd assms(3) by simp_all
  fix j
  let ?S = "set_option (em_get m j)
    \<union> (\<Union>x \<in> set (map (\<lambda>d. em_get d j) ds). set_option x)"
  have "?S \<subseteq> events_of m \<union> (\<Union>d \<in> set ds. events_of d)"
    using em_get_events [OF assms(1)] em_get_events [OF assms(2) [rule_format]]
    by auto
  then have "consistent ?S" using assms(4) unfolding consistent_def by blast
  moreover have "\<forall>e \<in> ?S. 0 \<le> ev_epoch e \<and> ev_jobId e = j"
    using em_get_inv [OF assms(1)] em_get_inv [OF assms(2) [rule_format]]
    by auto
  moreover have "set (map (\<lambda>d. em_get d j) ds) = set (map (\<lambda>d. em_get d j) ds')"
    using assms(3) by simp
  ultimately have "foldl newer (em_get m j) (map (\<lambda>d. em_get d j) ds)
      = foldl newer (em_get m j) (map (\<lambda>d. em_get d j) ds')"
    by (intro foldl_newer_cong)
  with foldl_upd show "em_get (foldl upd m ds) j = em_get (foldl upd m ds') j" by simp
qed

end

interpretation update_store: newest_wins "\<lambda>m d. snd (updateBy m d)"
proof
  fix m d j
  assume "em_inv m" "em_inv d"
  note spec = updateBy_spec [OF this prod.collapse [symmetric]]
  show "em_inv (snd (updateBy m d))"
    "em_get (snd (updateBy m d)) j = newer (em_get m j) (em_get d j)"
    "em_global_epoch (snd (updateBy m d)) = max (em_global_epoch m) (em_global_epoch d)"
    by (rule spec)+
qed


section \<open>The simultaneous merge\<close>

text \<open>Since both maps are visited in ascending order, every insertion appends; the loop is the
  usual merge of two sorted lists.\<close>

fun merge_ref :: "(int \<times> event) list \<Rightarrow> (int \<times> event) list \<Rightarrow> (int \<times> event) list" where
  "merge_ref ((i, ev) # xs) ((j, other) # ys) =
     (if i = j then (i, if dominates ev other then ev else other) # merge_ref xs ys
      else if i < j then (i, ev) # merge_ref xs ((j, other) # ys)
      else (j, other) # merge_ref ((i, ev) # xs) ys)"
| "merge_ref xs [] = xs"
| "merge_ref [] ys = ys"

lemma merge_loop_ref:
  assumes "oset fst xs" "oset fst ys" "oset fst acc"
    and "\<forall>a \<in> set acc. \<forall>x \<in> set xs \<union> set ys. fst a < fst x"
  shows "merge_loop xs ys acc = acc @ merge_ref xs ys"
  using assms
proof (induction xs ys acc rule: merge_loop.induct)
  case (1 i ev xs k other ys acc)
  have "oset_put fst (i, e) acc = acc @ [(i, e)]" "oset_put fst (k, e) acc = acc @ [(k, e)]" for e
    using "1.prems"(3,4) by (auto intro!: oset_put_last simp: sorted_wrt_append)
  moreover have "i \<le> k \<Longrightarrow> \<forall>x \<in> set ys. i < fst x" "k \<le> i \<Longrightarrow> \<forall>x \<in> set xs. k < fst x"
    using "1.prems"(1,2) by fastforce+
  ultimately show ?case
    using 1 by (cases "i = k"; cases "i < k") (simp_all add: sorted_wrt_append ball_Un)
next
  case (2 i ev xs acc)
  then have "oset_put fst (i, ev) acc = acc @ [(i, ev)]"
    by (auto intro!: oset_put_last simp: sorted_wrt_append)
  with 2 show ?case by (cases xs) (auto simp: sorted_wrt_append)
next
  case (3 k other ys acc)
  then have "oset_put fst (k, other) acc = acc @ [(k, other)]"
    by (auto intro!: oset_put_last simp: sorted_wrt_append)
  with 3 show ?case by (cases ys) (auto simp: sorted_wrt_append)
qed simp

lemma merge_ref_keys: "fst ` set (merge_ref xs ys) = fst ` set xs \<union> fst ` set ys"
  by (induction xs ys rule: merge_ref.induct) auto

lemma merge_ref_subset: "set (merge_ref xs ys) \<subseteq> set xs \<union> set ys"
  by (induction xs ys rule: merge_ref.induct) auto

lemma merge_ref_sorted: "oset fst xs \<Longrightarrow> oset fst ys \<Longrightarrow> oset fst (merge_ref xs ys)"
  by (induction xs ys rule: merge_ref.induct) (use merge_ref_keys in \<open>force simp: neq_iff\<close>)+

lemma merge_ref_find:
  assumes "oset fst xs" "oset fst ys"
  shows "map_option snd (oset_find fst j (merge_ref xs ys)) =
    (case map_option snd (oset_find fst j xs) of None \<Rightarrow> map_option snd (oset_find fst j ys)
     | Some e \<Rightarrow>
        (case map_option snd (oset_find fst j ys) of None \<Rightarrow> Some e
         | Some f \<Rightarrow> Some (if dominates e f then e else f)))"
  using assms
proof (induction xs ys rule: merge_ref.induct)
  case (1 i ev xs k other ys)
  have tl: "i \<le> k \<Longrightarrow> oset_find fst i ys = None" "k \<le> i \<Longrightarrow> oset_find fst k xs = None"
    using "1.prems" by (force simp: oset_find_None)+
  have cons: "oset_find fst j ((a, e) # zs) = (if a = j then Some (a, e) else oset_find fst j zs)"
    for a e zs by (simp add: oset_find_def)
  consider "i = k" | "i < k" | "k < i" by linarith
  then show ?case
    by cases (use 1 tl in \<open>auto simp: cons split: option.splits\<close>)
qed (auto split: option.splits)

lemma merge_spec:
  assumes "em_inv m" "em_inv d"
  shows "em_inv (EventMap_merge m d)"
    and "em_get (EventMap_merge m d) j = newer (em_get d j) (em_get m j)"
proof -
  have srt: "oset fst (em_map m)" "oset fst (em_map d)"
    using assms by (simp_all add: em_inv_sorted)
  then have ref: "em_map (EventMap_merge m d) = merge_ref (em_map m) (em_map d)"
    by (simp add: EventMap_merge_def merge_loop_ref)
  show "em_inv (EventMap_merge m d)"
    using assms merge_ref_sorted [OF srt] merge_ref_subset [of "em_map m" "em_map d"] ref
    unfolding em_inv_def by auto
  have "\<And>e. em_get m j = Some e \<Longrightarrow> 0 \<le> ev_epoch e" using em_get_inv [OF assms(1)] by simp
  then show "em_get (EventMap_merge m d) j = newer (em_get d j) (em_get m j)"
    using merge_ref_find [OF srt, of j] ref
    by (auto simp: em_get_def newer_def split: option.splits)
qed

interpretation merge_store: newest_wins "\<lambda>m d. EventMap_merge d m"
  by unfold_locales (simp_all add: merge_spec, simp add: EventMap_merge_def max.commute)

section \<open>Filtering\<close>

lemma filterBy_spec:
  assumes "em_inv m" "em_inv other" "filterBy m other = Inr m'"
  shows "em_inv m'"
    and "em_get m' j =
      (case em_get m j of None \<Rightarrow> None
       | Some e \<Rightarrow> (case em_get other j of None \<Rightarrow> Some e
                    | Some f \<Rightarrow> if ev_epoch f < ev_epoch e then Some e else None))"
proof -
  have m': "em_map m' = filter (\<lambda>p. \<not> filter_erased other p) (em_map m)"
    using assms(3) by (auto simp: filterBy_def split: if_splits)
  show "em_inv m'" using assms(1) m' by (auto simp: em_inv_def oset_simps)
  have "oset_find fst j (em_map m) = Some (k, e) \<Longrightarrow> k = j" for k e
    using oset_find_key by force
  then show "em_get m' j = (case em_get m j of None \<Rightarrow> None
       | Some e \<Rightarrow> (case em_get other j of None \<Rightarrow> Some e
                    | Some f \<Rightarrow> if ev_epoch f < ev_epoch e then Some e else None))"
    using em_inv_sorted [OF assms(1)] m'
    by (auto simp: em_get_def oset_find_filter filter_erased_def split: option.splits)
qed

lemma filterBy_defined:
  assumes "em_inv m" "em_inv other" "consistent (events_of m \<union> events_of other)"
    and "\<forall>e \<in> events_of m. \<not> f32_nan (ev_priority e)"
  shows "\<exists>m'. filterBy m other = Inr m'"
proof -
  have "\<not> filter_conflict other (j, e)" if "(j, e) \<in> set (em_map m)" for j e
  proof (cases "em_get other j")
    case (Some f)
    have e: "e \<in> events_of m" "ev_jobId e = j"
      using that assms(1) by (force simp: events_of_def em_inv_def)+
    have f: "f \<in> events_of other" "ev_jobId f = j"
      using em_get_events [OF assms(2) Some] em_get_inv [OF assms(2) Some] by auto
    have "ev_epoch f = ev_epoch e \<Longrightarrow> f = e"
      using assms(3) e f unfolding consistent_def by blast
    with Some e(1) assms(4) show ?thesis
      by (auto simp: filter_conflict_def f32_eq_refl)
  qed (simp add: filter_conflict_def)
  then have "\<not> list_ex (filter_conflict other) (em_map m)"
    by (auto simp: list_ex_iff)
  then show ?thesis by (simp add: filterBy_def)
qed

lemma removeOldZeros_spec:
  assumes "em_inv m" "removeOldZeros m = (ks, m')"
  shows "em_inv m'" "em_global_epoch m' = em_global_epoch m"
    and "em_get m' j =
      (case em_get m j of None \<Rightarrow> None
       | Some e \<Rightarrow> if ev_demand e = 0 \<and> f32_le (ev_priority e) f32_zero then None else Some e)"
  using assms em_inv_sorted [OF assms(1)]
  by (auto simp: removeOldZeros_def em_inv_def oset_sorted_filter em_get_def oset_find_filter
      old_zero_def split: option.splits)

section \<open>Serialization\<close>

interpretation event_field: field_codec 16 put_event get_event event_ok
  by unfold_locales (auto simp: put_event_def get_event_def event_ok_def)

lemma deserialize_events_put:
  assumes "oset fst (acc @ mp)" "\<forall>(j, e) \<in> set mp. ev_jobId e = j \<and> event_ok e"
  shows "deserialize_events (length mp) (concat (map (put_event \<circ> snd) mp)) acc = Some (acc @ mp)"
  using assms
proof (induction mp arbitrary: acc)
  case (Cons p mp)
  obtain j e where p: "p = (j, e)" by force
  have "oset_put fst (j, e) acc = acc @ [(j, e)]"
    using Cons.prems(1) p by (intro oset_put_last) (auto simp: sorted_wrt_append)
  moreover have "event_ok e" "ev_jobId e = j" using Cons.prems(2) p by auto
  ultimately show ?case
    using Cons.IH [of "acc @ [(j, e)]"] Cons.prems p by (simp add: event_field.rd_put)
qed simp

lemma length_put_events: "length (concat (map (put_event \<circ> snd) mp)) = 16 * length mp"
  by (induction mp) (auto simp: put_event_def)

lemma EventMap_deserialize_serialize:
  assumes "em_inv m" "\<forall>e \<in> events_of m. event_ok e"
  shows "EventMap_deserialize (EventMap_serialize m) = Some m"
proof -
  let ?bs = "concat (map (put_event \<circ> snd) (em_map m))"
  have des: "deserialize_events (length (em_map m)) ?bs [] = Some ([] @ em_map m)"
    using assms by (intro deserialize_events_put) (force simp: em_inv_def events_of_def)+
  have len: "length (EventMap_serialize m) = 8 + 16 * length (em_map m)"
    by (simp add: EventMap_serialize_def length_put_events del: o_apply)
  show ?thesis
  proof (cases "em_map m = []")
    case True
    then show ?thesis by (simp add: EventMap_deserialize_def EventMap_serialize_def)
  next
    case False
    then have "\<not> length (EventMap_serialize m) \<le> 12" using len by (cases "em_map m") auto
    moreover have "rd_size_t (EventMap_serialize m) = Some (em_global_epoch m, ?bs)"
      by (simp add: EventMap_serialize_def)
    ultimately show ?thesis using des len by (simp add: EventMap_deserialize_def)
  qed
qed

interpretation event_map_msg:
  serializable EventMap_serialize EventMap_deserialize
    "\<lambda>m. em_inv m \<and> (\<forall>e \<in> events_of m. event_ok e)"
  by unfold_locales (simp add: EventMap_deserialize_serialize)

section \<open>Properties\<close>

text \<open>
  (C37) An event map survives serialization: reading back the bytes of a well-formed map gives the
  same map, including the global epoch; only 32-bit values are required of the events.
\<close>

theorem event_map_roundtrip:
  assumes "em_inv m" "\<forall>e \<in> events_of m. event_ok e"
  shows "EventMap_deserialize (EventMap_serialize m) = Some m"
  by (rule event_map_msg.roundtrip) (use assms in simp)

theorem event_map_roundtrip_witness:
  "let m = \<lparr>em_global_epoch = 5, em_map =
     [(1, \<lparr>ev_jobId = 1, ev_epoch = 2, ev_demand = 3, ev_priority = f32_one\<rparr>),
      (7, \<lparr>ev_jobId = 7, ev_epoch = 1, ev_demand = 1, ev_priority = f32_zero\<rparr>)]\<rparr>
   in EventMap_deserialize (EventMap_serialize m) = Some m"
  unfolding Let_def
  by (rule event_map_roundtrip) (simp_all add: em_inv_def events_of_def event_ok_def int32_def)

text \<open>
  (C8) Replicas converge: processes that start from the same event map and apply the same set of
  updates with \<open>updateBy\<close>, in any order and with any repetitions, end up with the same map, provided
  that there is only one event per job and epoch. Applying an update twice changes nothing.
\<close>

theorem event_maps_converge:
  assumes "em_inv m" "\<forall>d \<in> set ds. em_inv d" "set ds = set ds'"
    and "consistent (events_of m \<union> (\<Union>d \<in> set ds. events_of d))"
  shows "foldl (\<lambda>m d. snd (updateBy m d)) m ds = foldl (\<lambda>m d. snd (updateBy m d)) m ds'
    \<and> (\<forall>d \<in> set ds. snd (updateBy (snd (updateBy m d)) d) = snd (updateBy m d))"
  using update_store.order_irrelevant [OF assms] update_store.upd_idem [OF assms(1)] assms(2)
  by simp

theorem event_maps_converge_witness:
  "let e = (\<lambda>ep. \<lparr>ev_jobId = 3, ev_epoch = ep, ev_demand = ep, ev_priority = f32_one\<rparr>);
       d = (\<lambda>ep. \<lparr>em_global_epoch = word_of_int ep, em_map = [(3, e ep)]\<rparr>);
       upd = (\<lambda>m d. snd (updateBy m d))
   in foldl upd EventMap_empty [d 1, d 2, d 1] = foldl upd EventMap_empty [d 2, d 1]"
  unfolding Let_def
  by (rule event_maps_converge [THEN conjunct1])
    (auto simp: em_inv_def EventMap_empty_def events_of_def consistent_def)

text \<open>
  (C22) \<open>updateBy\<close> keeps per job the event with the larger epoch (the present one on a tie) and the
  larger global epoch, preserves well-formedness, and its result tells exactly whether anything
  changed; \<open>merge\<close>, which walks both maps simultaneously, computes the same per-job maximum with
  ties resolved in favour of the other map.
\<close>

theorem update_and_merge_keep_newest:
  assumes "em_inv m" "em_inv d" "updateBy m d = (changed, m')"
  shows "em_inv m' \<and> em_inv (EventMap_merge m d)
    \<and> em_global_epoch m' = max (em_global_epoch m) (em_global_epoch d)
    \<and> (\<forall>j. em_get m' j = newer (em_get m j) (em_get d j))
    \<and> (\<forall>j. em_get (EventMap_merge m d) j = newer (em_get d j) (em_get m j))
    \<and> (changed \<longleftrightarrow> m' \<noteq> m)"
proof -
  note spec = updateBy_spec [OF assms]
  have "changed \<longleftrightarrow> m' \<noteq> m"
  proof
    assume changed
    with spec(2,4) show "m' \<noteq> m" by auto
  next
    assume "m' \<noteq> m"
    then have "em_global_epoch m' \<noteq> em_global_epoch m \<or> (\<exists>j. em_get m' j \<noteq> em_get m j)"
      using em_eqI [OF spec(1) assms(1)] by blast
    with spec(2,4) show changed by (auto simp: max_def split: if_splits)
  qed
  with spec merge_spec [OF assms(1,2)] show ?thesis by simp
qed

theorem update_and_merge_keep_newest_witness:
  "let e = (\<lambda>ep. \<lparr>ev_jobId = 3, ev_epoch = ep, ev_demand = ep, ev_priority = f32_one\<rparr>);
       m = \<lparr>em_global_epoch = 1, em_map = [(3, e 4)]\<rparr>;
       d = \<lparr>em_global_epoch = 2, em_map = [(3, e 6)]\<rparr>
   in em_get (snd (updateBy m d)) 3 = Some (e 6)"
proof -
  let ?e = "\<lambda>ep. \<lparr>ev_jobId = 3, ev_epoch = ep, ev_demand = ep, ev_priority = f32_one\<rparr>"
  let ?m = "\<lparr>em_global_epoch = 1, em_map = [(3, ?e 4)]\<rparr>"
  let ?d = "\<lparr>em_global_epoch = 2, em_map = [(3, ?e 6)]\<rparr>"
  have "em_get (snd (updateBy ?m ?d)) 3 = newer (em_get ?m 3) (em_get ?d 3)"
    using update_and_merge_keep_newest [of ?m ?d "fst (updateBy ?m ?d)" "snd (updateBy ?m ?d)"]
    by (simp add: em_inv_def)
  then show ?thesis by (simp add: em_get_def newer_def dominates_def oset_find_def)
qed

end
