(* ===== verification/Volume_Calculator.thy ===== *)
theory Volume_Calculator
  imports Event_Map "HOL-Library.Multiset" "HOL-Library.Code_Target_Nat"
begin

text \<open>
  The computation of fair volumes (src/src/balancing/volume_calculator.hpp and balancing_entry.hpp):
  given the known events, every job with demand gets a number of workers between one and its demand,
  proportional to its priority, such that all available workers are used if there is enough demand.
  The computation is a root search over a multiplier of the fair shares. All functions take the
  rounding \<open>rnd\<close> of \<open>double\<close> operations and \<open>rndf\<close> of the conversion to \<open>float\<close> as arguments; the
  program is the instance with \<open>round53\<close> and \<open>round24\<close>. Assertions are checked; logging, and the
  variable \<open>best\<close>, which is only logged, are left out.
\<close>

section \<open>Balancing entries\<close>

record balancing_entry =
  be_jobId :: int
  be_demand :: int
  be_originalDemand :: int
  be_priority :: float32
  be_fairShare :: rat
  be_volumeLower :: int
  be_volume :: int
  be_volumeUpper :: int

text \<open>The constructor leaves \<open>fairShare\<close> uninitialized; it is written before it is read.\<close>

definition BalancingEntry :: "int \<Rightarrow> int \<Rightarrow> float32 \<Rightarrow> balancing_entry" where
  "BalancingEntry jobId demand priority =
     \<lparr>be_jobId = jobId, be_demand = demand, be_originalDemand = demand, be_priority = priority,
      be_fairShare = 0, be_volumeLower = 1, be_volume = 1, be_volumeUpper = 1\<rparr>"

definition getVolume :: "(rat \<Rightarrow> rat) \<Rightarrow> balancing_entry \<Rightarrow> rat \<Rightarrow> int res" where
  "getVolume rnd e mul =
     res_bind
       (if mul \<ge> of_int (be_demand e) \<and> be_fairShare e \<ge> 1 then Inr (be_demand e)
        else if mul \<ge> 1 \<and> be_fairShare e \<ge> of_int (be_demand e) then Inr (be_demand e)
        else to_int (rnd (mul * be_fairShare e)))
       (\<lambda>fairVolume. Inr (max 1 (min (be_demand e) fairVolume)))"

definition getFairShareMultiplierLowerBound :: "(rat \<Rightarrow> rat) \<Rightarrow> balancing_entry \<Rightarrow> rat" where
  "getFairShareMultiplierLowerBound rnd e = rnd (1 / be_fairShare e)"

definition getFairShareMultiplierUpperBound :: "(rat \<Rightarrow> rat) \<Rightarrow> balancing_entry \<Rightarrow> rat" where
  "getFairShareMultiplierUpperBound rnd e = rnd (of_int (be_demand e) / be_fairShare e)"

text \<open>\<open>dismissAndSwapWith\<close>: the fields that the dismissed entry and the other one end up with. Neither
  \<open>originalDemand\<close> is touched, and the fair share of the dismissed entry passes through a \<open>float\<close>.\<close>

definition swapped_in :: "balancing_entry \<Rightarrow> balancing_entry \<Rightarrow> balancing_entry" where
  "swapped_in this other =
     this\<lparr>be_jobId := be_jobId other, be_demand := be_demand other, be_priority := be_priority other,
          be_fairShare := be_fairShare other, be_volume := be_volume other,
          be_volumeLower := be_volumeLower other, be_volumeUpper := be_volumeUpper other\<rparr>"

definition dismissed_to :: "(rat \<Rightarrow> rat) \<Rightarrow> balancing_entry \<Rightarrow> balancing_entry \<Rightarrow> balancing_entry" where
  "dismissed_to rndf this other =
     other\<lparr>be_jobId := be_jobId this, be_demand := be_demand this, be_priority := be_priority this,
           be_fairShare := rndf (be_fairShare this), be_volume := be_volume this\<rparr>"

definition dismissAndSwapWith ::
    "(rat \<Rightarrow> rat) \<Rightarrow> balancing_entry list \<Rightarrow> nat \<Rightarrow> nat \<Rightarrow> balancing_entry list" where
  "dismissAndSwapWith rndf es i j =
     es[i := swapped_in (es ! i) (es ! j), j := dismissed_to rndf (es ! i) (es ! j)]"

section \<open>The calculator\<close>

record volume_calculator =
  vc_entries :: "balancing_entry list"
  vc_zero_entries :: "balancing_entry list"
  vc_epoch :: "64 word"
  vc_num_workers :: int
  vc_sum_of_priorities :: rat
  vc_available_volume :: int
  vc_sum_of_demands :: int
  vc_min_multiplier :: rat
  vc_max_multiplier :: rat
  vc_center_of_mass :: rat
  vc_prev_lb :: rat
  vc_prev_ub :: rat
  vc_num_dismissed_jobs :: nat
  vc_base_utilization :: int
  vc_max_volume_diff :: int

fun collect_entries ::
    "(rat \<Rightarrow> rat) \<Rightarrow> (int \<times> event) list \<Rightarrow> volume_calculator \<Rightarrow> volume_calculator res" where
  "collect_entries rnd [] vc = Inr vc"
| "collect_entries rnd ((jobId, ev) # evs) vc =
     check (ev_demand ev \<ge> 0)
       (let e = BalancingEntry (ev_jobId ev) (ev_demand ev) (ev_priority ev) in
        if ev_demand ev = 0
        then collect_entries rnd evs (vc\<lparr>vc_zero_entries := vc_zero_entries vc @ [e]\<rparr>)
        else check (f32_less f32_zero (ev_priority ev))
          (collect_entries rnd evs
             (vc\<lparr>vc_entries := vc_entries vc @ [e],
                 vc_sum_of_priorities := rnd (vc_sum_of_priorities vc + f32_val (ev_priority ev))\<rparr>)))"

text \<open>\<open>_num_workers * loadFactor\<close> is a \<open>float\<close> product that is truncated. The members without
  initializer get the value 0 here; they are written before they are read.\<close>

definition VolumeCalculator ::
    "(rat \<Rightarrow> rat) \<Rightarrow> (rat \<Rightarrow> rat) \<Rightarrow> event_map \<Rightarrow> float32 \<Rightarrow> int \<Rightarrow> volume_calculator res" where
  "VolumeCalculator rnd rndf events loadFactor numWorkers =
     res_bind
       (collect_entries rnd (em_map events)
          \<lparr>vc_entries = [], vc_zero_entries = [], vc_epoch = em_global_epoch events,
           vc_num_workers = numWorkers, vc_sum_of_priorities = 0, vc_available_volume = 0,
           vc_sum_of_demands = 0, vc_min_multiplier = 0, vc_max_multiplier = 0, vc_center_of_mass = 0,
           vc_prev_lb = 0, vc_prev_ub = 0, vc_num_dismissed_jobs = 0, vc_base_utilization = 0,
           vc_max_volume_diff = 0\<rparr>)
       (\<lambda>vc. res_bind (to_int (rndf (rndf (of_int numWorkers) * f32_val loadFactor)))
          (\<lambda>av. Inr (vc\<lparr>vc_available_volume := av\<rparr>)))"

definition EntryComparatorByPriority :: "balancing_entry \<Rightarrow> balancing_entry \<Rightarrow> bool" where
  "EntryComparatorByPriority first second =
     (if \<not> f32_eq (be_priority first) (be_priority second)
      then f32_less (be_priority second) (be_priority first)
      else if be_originalDemand first \<noteq> be_originalDemand second
      then be_originalDemand first > be_originalDemand second
      else let firstHash = robin_hood_hash (be_jobId first); secondHash = robin_hood_hash (be_jobId second)
           in if firstHash \<noteq> secondHash then firstHash < secondHash
              else be_jobId first < be_jobId second)"

fun insort_entry :: "balancing_entry \<Rightarrow> balancing_entry list \<Rightarrow> balancing_entry list" where
  "insort_entry e [] = [e]"
| "insort_entry e (f # fs) =
     (if EntryComparatorByPriority f e then f # insort_entry e fs else e # f # fs)"

definition sort_entries :: "balancing_entry list \<Rightarrow> balancing_entry list" where
  "sort_entries es = foldr insort_entry es []"

definition sortRemainingEntries :: "volume_calculator \<Rightarrow> volume_calculator" where
  "sortRemainingEntries vc =
     vc\<lparr>vc_entries := take (vc_num_dismissed_jobs vc) (vc_entries vc)
          @ sort_entries (drop (vc_num_dismissed_jobs vc) (vc_entries vc))\<rparr>"

section \<open>Fair shares\<close>

definition EPSILON :: "(rat \<Rightarrow> rat) \<Rightarrow> rat" where
  "EPSILON rnd = rnd (1 / 10 ^ 6)"

text \<open>The accumulators are the minimum and maximum multiplier, the sum for the center of mass and the
  sum of demands.\<close>

type_synonym share_acc = "rat \<times> rat \<times> rat \<times> int"

definition with_fair_share ::
    "(rat \<Rightarrow> rat) \<Rightarrow> rat \<Rightarrow> int \<Rightarrow> int \<Rightarrow> balancing_entry \<Rightarrow> balancing_entry" where
  "with_fair_share rnd sumOfPriorities available numEntries job =
     job\<lparr>be_fairShare := rnd (rnd (f32_val (be_priority job) / sumOfPriorities) * of_int available),
         be_demand := min (be_demand job) (available - numEntries + 1)\<rparr>"

fun fair_share_loop ::
    "(rat \<Rightarrow> rat) \<Rightarrow> rat \<Rightarrow> int \<Rightarrow> int \<Rightarrow> balancing_entry list \<Rightarrow> share_acc
       \<Rightarrow> (balancing_entry list \<times> share_acc) res" where
  "fair_share_loop rnd sp av n [] acc = Inr ([], acc)"
| "fair_share_loop rnd sp av n (job # jobs) (mn, mx, cm, sd) =
     (let job = with_fair_share rnd sp av n job;
          lb = getFairShareMultiplierLowerBound rnd job;
          ub = getFairShareMultiplierUpperBound rnd job
      in check (be_demand job > 0)
        (res_bind (getVolume rnd job (rnd (1 / be_fairShare job))) (\<lambda>v. check (1 = v)
        (res_bind (getVolume rnd job (rnd (rnd (of_int (be_demand job) / be_fairShare job) + EPSILON rnd)))
          (\<lambda>v. check (be_demand job = v)
        (res_bind (fair_share_loop rnd sp av n jobs
            (min mn lb, max mx ub, rnd (cm + rnd (rnd (lb + ub) / 2)), sd + be_demand job))
          (\<lambda>(jobs, acc). Inr (job # jobs, acc))))))))"

definition computeFairShares :: "(rat \<Rightarrow> rat) \<Rightarrow> volume_calculator \<Rightarrow> volume_calculator res" where
  "computeFairShares rnd vc =
     res_bind
       (fair_share_loop rnd (vc_sum_of_priorities vc) (vc_available_volume vc)
          (int (length (vc_entries vc))) (vc_entries vc) (of_int INT_MAX, 0, 0, vc_sum_of_demands vc))
       (\<lambda>(jobs, mn, mx, cm, sd).
          Inr (vc\<lparr>vc_entries := jobs, vc_min_multiplier := mn, vc_max_multiplier := rnd (mx + EPSILON rnd),
                  vc_center_of_mass := rnd (cm / of_nat (length (vc_entries vc))),
                  vc_sum_of_demands := sd\<rparr>))"

section \<open>Utilization at a multiplier\<close>

fun bound_volumes ::
    "(rat \<Rightarrow> rat) \<Rightarrow> rat \<Rightarrow> rat \<Rightarrow> balancing_entry list \<Rightarrow> balancing_entry list res" where
  "bound_volumes rnd left right [] = Inr []"
| "bound_volumes rnd left right (job # jobs) =
     res_bind (getVolume rnd job left) (\<lambda>l.
     res_bind (getVolume rnd job right) (\<lambda>u.
     res_bind (bound_volumes rnd left right jobs) (\<lambda>jobs.
       Inr (job\<lparr>be_volumeLower := l, be_volumeUpper := u\<rparr> # jobs))))"

definition reuse_bounds :: "bool \<Rightarrow> bool \<Rightarrow> balancing_entry \<Rightarrow> balancing_entry" where
  "reuse_bounds leftHalf rightHalf job =
     (let job = (if leftHalf then job\<lparr>be_volumeUpper := be_volume job\<rparr> else job)
      in if rightHalf then job\<lparr>be_volumeLower := be_volume job\<rparr> else job)"

text \<open>State of the loop: entries, number of dismissed jobs, utilization, base utilization and largest
  volume difference.\<close>

type_synonym excess_state = "balancing_entry list \<times> nat \<times> int \<times> int \<times> int"

fun excess_loop ::
    "(rat \<Rightarrow> rat) \<Rightarrow> (rat \<Rightarrow> rat) \<Rightarrow> rat \<Rightarrow> int \<Rightarrow> bool \<Rightarrow> bool \<Rightarrow> nat list \<Rightarrow> excess_state \<Rightarrow> excess_state res" where
  "excess_loop rnd rndf mul av leftHalf rightHalf [] st = Inr st"
| "excess_loop rnd rndf mul av leftHalf rightHalf (i # is) (es, nd, util, base, md) =
     (let job = reuse_bounds leftHalf rightHalf (es ! i) in
      if be_volumeLower job = be_volumeUpper job
      then let job = job\<lparr>be_volume := be_volumeLower job\<rparr> in
        excess_loop rnd rndf mul av leftHalf rightHalf is
          (dismissAndSwapWith rndf (es[i := job]) i nd, nd + 1,
           util + be_volumeLower job, base + be_volumeLower job, md)
      else
        res_bind (getVolume rnd job mul) (\<lambda>v.
          excess_loop rnd rndf mul av leftHalf rightHalf is
            (es[i := job\<lparr>be_volume := v\<rparr>], nd, if util \<le> av then util + v else util, base,
             max md (be_volumeUpper job - be_volumeLower job))))"

definition calculateExcessVolumeOrNegative ::
    "(rat \<Rightarrow> rat) \<Rightarrow> (rat \<Rightarrow> rat) \<Rightarrow> rat \<Rightarrow> rat \<Rightarrow> rat \<Rightarrow> volume_calculator \<Rightarrow> (int \<times> volume_calculator) res" where
  "calculateExcessVolumeOrNegative rnd rndf mul left right vc =
     res_bind
       (if vc_prev_lb vc = -1 then bound_volumes rnd left right (vc_entries vc) else Inr (vc_entries vc))
       (\<lambda>es. let leftHalf = (left = vc_prev_lb vc); rightHalf = (right = vc_prev_ub vc) in
         res_bind
           (excess_loop rnd rndf mul (vc_available_volume vc) leftHalf rightHalf
              [vc_num_dismissed_jobs vc..<length es]
              (es, vc_num_dismissed_jobs vc, vc_base_utilization vc, vc_base_utilization vc, 0))
           (\<lambda>(es, nd, util, base, md).
              Inr (vc_available_volume vc - util,
                   vc\<lparr>vc_entries := es, vc_num_dismissed_jobs := nd, vc_base_utilization := base,
                      vc_max_volume_diff := md, vc_prev_lb := left, vc_prev_ub := right\<rparr>)))"

section \<open>Root search\<close>

fun assign_remaining :: "int \<Rightarrow> balancing_entry list \<Rightarrow> balancing_entry list \<times> int" where
  "assign_remaining stillAvailable [] = ([], stillAvailable)"
| "assign_remaining stillAvailable (job # jobs) =
     (let v = be_volumeLower job;
          (v, stillAvailable) = (if stillAvailable > 0 then (v + 1, stillAvailable - 1) else (v, stillAvailable));
          (jobs, stillAvailable) = assign_remaining stillAvailable jobs
      in (job\<lparr>be_volume := v\<rparr> # jobs, stillAvailable))"

definition finalize :: "int \<Rightarrow> volume_calculator \<Rightarrow> volume_calculator res" where
  "finalize excessAtLeft vc =
     check (length (vc_entries vc) - vc_num_dismissed_jobs vc > 0) (check (excessAtLeft > 0)
       (let vc = sortRemainingEntries vc; nd = vc_num_dismissed_jobs vc;
            (jobs, stillAvailable) = assign_remaining excessAtLeft (drop nd (vc_entries vc))
        in check (stillAvailable = 0) (Inr (vc\<lparr>vc_entries := take nd (vc_entries vc) @ jobs\<rparr>))))"

partial_function (option) search ::
    "(rat \<Rightarrow> rat) \<Rightarrow> (rat \<Rightarrow> rat) \<Rightarrow> volume_calculator \<Rightarrow> rat \<Rightarrow> rat \<Rightarrow> rat \<Rightarrow> int \<Rightarrow> int
       \<Rightarrow> volume_calculator res option" where
  "search rnd rndf vc lower upper mid bestExcess excessAtLeft =
     (case calculateExcessVolumeOrNegative rnd rndf mid lower upper vc of
        Inl e \<Rightarrow> Some (Inl e)
      | Inr (excess, vc) \<Rightarrow>
          let better = (bestExcess = -1 \<or> \<bar>excess\<bar> < \<bar>bestExcess\<bar>) in
          if better \<and> excess = 0 then Some (Inr vc)
          else if vc_max_volume_diff vc \<le> 1 then Some (finalize excessAtLeft vc)
          else
            let lower = (if excess > 0 then mid else lower);
                excessAtLeft = (if excess > 0 then excess else excessAtLeft);
                upper = (if excess < 0 then mid else upper);
                cm = vc_center_of_mass vc;
                mid = (if mid = 1 \<and> excess > 0 \<and> cm > mid then cm
                       else if mid = 1 \<and> excess < 0 \<and> cm < mid then cm
                       else rnd (rnd (lower + upper) / 2))
            in search rnd rndf vc lower upper mid (if better then excess else bestExcess) excessAtLeft)"

declare search.simps [code]

definition calculateFunctionOptimizationAssignments ::
    "(rat \<Rightarrow> rat) \<Rightarrow> (rat \<Rightarrow> rat) \<Rightarrow> volume_calculator \<Rightarrow> volume_calculator res option" where
  "calculateFunctionOptimizationAssignments rnd rndf vc =
     search rnd rndf
       (vc\<lparr>vc_prev_lb := -1, vc_prev_ub := -1, vc_num_dismissed_jobs := 0, vc_base_utilization := 0,
           vc_max_volume_diff := 0\<rparr>)
       (vc_min_multiplier vc) (vc_max_multiplier vc) 1 (-1)
       (vc_available_volume vc - int (length (vc_entries vc)))"

definition calculateResult ::
    "(rat \<Rightarrow> rat) \<Rightarrow> (rat \<Rightarrow> rat) \<Rightarrow> volume_calculator \<Rightarrow> volume_calculator res option" where
  "calculateResult rnd rndf vc =
     (if vc_available_volume vc \<le> int (length (vc_entries vc)) then Some (Inr vc)
      else case computeFairShares rnd (sortRemainingEntries vc) of
             Inl e \<Rightarrow> Some (Inl e)
           | Inr vc \<Rightarrow>
               if vc_sum_of_demands vc \<le> vc_available_volume vc
               then Some (Inr (vc\<lparr>vc_entries := map (\<lambda>job. job\<lparr>be_volume := be_demand job\<rparr>) (vc_entries vc)\<rparr>))
               else calculateFunctionOptimizationAssignments rnd rndf vc)"

section \<open>Volumes at a multiplier\<close>

lemma getVolume_cong:
  "be_demand e = be_demand f \<Longrightarrow> be_fairShare e = be_fairShare f \<Longrightarrow> getVolume rnd e m = getVolume rnd f m"
  by (simp add: getVolume_def)

lemma getVolume_update [simp]:
  "getVolume rnd (e\<lparr>be_volume := v\<rparr>) m = getVolume rnd e m"
  "getVolume rnd (e\<lparr>be_volumeLower := v\<rparr>) m = getVolume rnd e m"
  "getVolume rnd (e\<lparr>be_volumeUpper := v\<rparr>) m = getVolume rnd e m"
  by (rule getVolume_cong; simp)+

lemma getVolume_range: "getVolume rnd e m = Inr v \<Longrightarrow> 1 \<le> be_demand e \<Longrightarrow> 1 \<le> v \<and> v \<le> be_demand e"
  by (auto simp: getVolume_def res_bind_eq_Inr_iff)

lemma to_int_mono: "to_int x = Inr a \<Longrightarrow> to_int y = Inr b \<Longrightarrow> 0 \<le> x \<Longrightarrow> x \<le> y \<Longrightarrow> a \<le> b"
  by (auto simp: to_int_def floor_mono split: if_splits)

context rounding
begin

lemma getVolume_mono:
  assumes "getVolume rnd e m = Inr v" "getVolume rnd e m' = Inr v'" "0 \<le> m" "m \<le> m'" "0 \<le> be_fairShare e"
  shows "v \<le> v'"
proof -
  let ?full = "\<lambda>m. m \<ge> of_int (be_demand e) \<and> be_fairShare e \<ge> 1 \<or> m \<ge> 1 \<and> be_fairShare e \<ge> of_int (be_demand e)"
  have val: "v = max 1 (be_demand e)"
    if "getVolume rnd e m = Inr v" "?full m" for m v
    using that by (auto simp: getVolume_def split: if_splits)
  have frac: "\<exists>w. to_int (rnd (m * be_fairShare e)) = Inr w \<and> v = max 1 (min (be_demand e) w)"
    if "getVolume rnd e m = Inr v" "\<not> ?full m" for m v
    using that by (auto simp: getVolume_def res_bind_eq_Inr_iff)
  show ?thesis
  proof (cases "?full m'")
    case True
    have "v \<le> max 1 (be_demand e)" using assms(1) by (auto simp: getVolume_def res_bind_eq_Inr_iff)
    then show ?thesis using val [OF assms(2) True] by simp
  next
    case False
    then have "\<not> ?full m" using assms(4) by auto
    then obtain w w' where w: "to_int (rnd (m * be_fairShare e)) = Inr w" "v = max 1 (min (be_demand e) w)"
      "to_int (rnd (m' * be_fairShare e)) = Inr w'" "v' = max 1 (min (be_demand e) w')"
      using frac [OF assms(1)] frac [OF assms(2) False] by auto
    have "0 \<le> m * be_fairShare e" "m * be_fairShare e \<le> m' * be_fairShare e"
      using assms by (auto simp: mult_right_mono)
    then have "w \<le> w'" using w to_int_mono rnd_mono rnd_nonneg by metis
    then show ?thesis using w by auto
  qed
qed

end

section \<open>The utilization loop\<close>

text \<open>What a swap moves around.\<close>

definition view :: "balancing_entry \<Rightarrow> int \<times> int \<times> float32" where
  "view e = (be_jobId e, be_demand e, be_priority e)"

definition in_range :: "balancing_entry \<Rightarrow> bool" where
  "in_range e \<longleftrightarrow> 1 \<le> be_volume e \<and> be_volume e \<le> be_demand e"

text \<open>The cached bounds are the volumes at the ends of the search interval.\<close>

definition bounded :: "(rat \<Rightarrow> rat) \<Rightarrow> rat \<Rightarrow> rat \<Rightarrow> balancing_entry \<Rightarrow> bool" where
  "bounded rnd l u e \<longleftrightarrow> 1 \<le> be_demand e \<and> 0 \<le> be_fairShare e
     \<and> getVolume rnd e l = Inr (be_volumeLower e) \<and> getVolume rnd e u = Inr (be_volumeUpper e)"

definition active :: "(rat \<Rightarrow> rat) \<Rightarrow> rat \<Rightarrow> rat \<Rightarrow> rat \<Rightarrow> balancing_entry \<Rightarrow> bool" where
  "active rnd l u m e \<longleftrightarrow> bounded rnd l u e \<and> be_volumeLower e \<noteq> be_volumeUpper e
     \<and> getVolume rnd e m = Inr (be_volume e)"

abbreviation diff :: "balancing_entry \<Rightarrow> int" where
  "diff e \<equiv> be_volumeUpper e - be_volumeLower e"

abbreviation total :: "(balancing_entry \<Rightarrow> int) \<Rightarrow> balancing_entry list \<Rightarrow> int" where
  "total f es \<equiv> sum_list (map f es)"

lemma view_update [simp]:
  "view (e\<lparr>be_volume := v\<rparr>) = view e"
  "view (e\<lparr>be_volumeLower := v\<rparr>) = view e" "view (e\<lparr>be_volumeUpper := v\<rparr>) = view e"
  by (simp_all add: view_def)

lemma swapped_in_simps [simp]:
  "be_volume (swapped_in x y) = be_volume y" "be_volumeLower (swapped_in x y) = be_volumeLower y"
  "be_volumeUpper (swapped_in x y) = be_volumeUpper y" "view (swapped_in x y) = view y"
  "active rnd l u m (swapped_in x y) = active rnd l u m y"
  by (auto simp: swapped_in_def view_def active_def bounded_def
      cong: getVolume_cong intro!: getVolume_cong)

lemma swapped_in_self: "swapped_in b b = b"
  by (simp add: swapped_in_def)

lemma dismissed_to_simps [simp]:
  "be_volume (dismissed_to rndf x y) = be_volume x" "view (dismissed_to rndf x y) = view x"
  "in_range (dismissed_to rndf x y) = in_range x"
  by (simp_all add: dismissed_to_def view_def in_range_def)

lemma dismiss_list:
  "\<exists>d A'. dismissAndSwapWith rndf (D @ A @ job # R) (length D + length A) (length D) = D @ d # A' @ R
     \<and> be_volume d = be_volume job \<and> view d = view job \<and> in_range d = in_range job
     \<and> length A' = length A \<and> mset (map be_volume A') = mset (map be_volume A)
     \<and> mset (map be_volumeLower A') = mset (map be_volumeLower A)
     \<and> mset (map be_volumeUpper A') = mset (map be_volumeUpper A)
     \<and> mset (map view A') = mset (map view A) \<and> (\<forall>a \<in> set A'. \<exists>b \<in> set A. \<exists>x. a = swapped_in x b)"
proof (cases A)
  case Nil
  then show ?thesis
    by (intro exI [of _ "dismissed_to rndf job job"] exI [of _ "[]"])
      (simp add: dismissAndSwapWith_def list_update_append nth_append)
next
  case (Cons a A1)
  have "dismissAndSwapWith rndf (D @ A @ job # R) (length D + length A) (length D) =
      D @ dismissed_to rndf job a # (A1 @ [swapped_in job a]) @ R"
    by (simp add: dismissAndSwapWith_def list_update_append nth_append Cons)
  then show ?thesis
    by (intro exI [of _ "dismissed_to rndf job a"] exI [of _ "A1 @ [swapped_in job a]"])
      (auto simp: Cons intro: swapped_in_self [symmetric])
qed

text \<open>The counted utilization is the sum of the volumes, or it stopped beyond the available volume.\<close>

definition counted :: "int \<Rightarrow> int \<Rightarrow> int \<Rightarrow> bool" where
  "counted av util s \<longleftrightarrow> util = s \<or> av < util \<and> util \<le> s"

lemma reuse_bounds_simps [simp]:
  "be_volume (reuse_bounds lh rh e) = be_volume e" "view (reuse_bounds lh rh e) = view e"
  "be_demand (reuse_bounds lh rh e) = be_demand e" "be_fairShare (reuse_bounds lh rh e) = be_fairShare e"
  by (auto simp: reuse_bounds_def view_def Let_def)

lemma bounded_range:
  "bounded rnd l u e \<Longrightarrow> 1 \<le> be_volumeLower e \<and> be_volumeLower e \<le> be_demand e
     \<and> 1 \<le> be_volumeUpper e \<and> be_volumeUpper e \<le> be_demand e"
  using getVolume_range by (fastforce simp: bounded_def)

lemma excess_loop_spec:
  assumes "excess_loop rnd rndf m av lh rh [length D + length A..<length D + length A + length R]
      (D @ A @ R, length D, util, base, md) = Inr (es', nd', util', base', md')"
    and "\<forall>a \<in> set A. active rnd l u m a \<and> diff a \<le> md"
    and "\<forall>r \<in> set R. bounded rnd l u (reuse_bounds lh rh r)"
    and "counted av util (U + total be_volume A)"
  shows "\<exists>X Y. es' = D @ X @ Y \<and> nd' = length D + length X \<and> base' = base + total be_volume X
    \<and> (\<forall>x \<in> set X. in_range x) \<and> (\<forall>y \<in> set Y. active rnd l u m y \<and> diff y \<le> md') \<and> md \<le> md'
    \<and> counted av util' (U + total be_volume X + total be_volume Y)
    \<and> total be_volume X + total be_volumeLower Y
        = total be_volumeLower A + total (be_volumeLower \<circ> reuse_bounds lh rh) R
    \<and> total be_volume X + total be_volumeUpper Y
        = total be_volumeUpper A + total (be_volumeUpper \<circ> reuse_bounds lh rh) R
    \<and> mset (map view (X @ Y)) = mset (map view (A @ R))"
  using assms
proof (induction R arbitrary: D A util base md U)
  case Nil
  then show ?case by (intro exI [of _ "[]"] exI [of _ A]) auto
next
  case (Cons r R)
  let ?j = "reuse_bounds lh rh r"
  have upt: "[length D + length A..<length D + length A + length (r # R)] =
      (length D + length A) # [Suc (length D + length A)..<Suc (length D + length A) + length R]"
    using upt_conv_Cons [of "length D + length A" "length D + length A + length (r # R)"] by simp
  have nth: "(D @ A @ r # R) ! (length D + length A) = r" by (simp add: nth_append)
  have upd: "(D @ A @ r # R)[length D + length A := e] = D @ A @ e # R" for e
    by (simp add: list_update_append)
  have b: "bounded rnd l u ?j" and bR: "\<forall>r \<in> set R. bounded rnd l u (reuse_bounds lh rh r)"
    using Cons.prems(3) by auto
  show ?case
  proof (cases "be_volumeLower ?j = be_volumeUpper ?j")
    case True
    let ?k = "?j\<lparr>be_volume := be_volumeLower ?j\<rparr>"
    obtain d A' where d: "dismissAndSwapWith rndf (D @ A @ ?k # R) (length D + length A) (length D) = D @ d # A' @ R"
      "be_volume d = be_volumeLower ?j" "view d = view ?k" "in_range d = in_range ?k" "length A' = length A"
      "mset (map be_volume A') = mset (map be_volume A)"
      "mset (map be_volumeLower A') = mset (map be_volumeLower A)"
      "mset (map be_volumeUpper A') = mset (map be_volumeUpper A)"
      "mset (map view A') = mset (map view A)" "\<forall>a \<in> set A'. \<exists>b \<in> set A. \<exists>x. a = swapped_in x b"
      using dismiss_list [of rndf D A ?k R] by auto
    have sums: "total be_volume A' = total be_volume A" "total be_volumeLower A' = total be_volumeLower A"
      "total be_volumeUpper A' = total be_volumeUpper A"
      using d(6-8) by (metis sum_mset_sum_list)+
    have loop: "excess_loop rnd rndf m av lh rh [length (D @ [d]) + length A'..<length (D @ [d]) + length A' + length R]
        ((D @ [d]) @ A' @ R, length (D @ [d]), util + be_volumeLower ?j, base + be_volumeLower ?j, md)
        = Inr (es', nd', util', base', md')"
      using Cons.prems(1) True d(1,5) unfolding upt by (simp add: nth upd Let_def)
    have "\<forall>a \<in> set A'. active rnd l u m a \<and> diff a \<le> md" using d(10) Cons.prems(2) by force
    moreover have "counted av (util + be_volumeLower ?j) (U + be_volumeLower ?j + total be_volume A')"
      using Cons.prems(4) bounded_range [OF b] by (auto simp: counted_def sums)
    ultimately obtain X Y where XY: "es' = (D @ [d]) @ X @ Y" "nd' = length (D @ [d]) + length X"
      "base' = base + be_volumeLower ?j + total be_volume X" "\<forall>x \<in> set X. in_range x"
      "\<forall>y \<in> set Y. active rnd l u m y \<and> diff y \<le> md'" "md \<le> md'"
      "counted av util' (U + be_volumeLower ?j + total be_volume X + total be_volume Y)"
      "total be_volume X + total be_volumeLower Y
        = total be_volumeLower A' + total (be_volumeLower \<circ> reuse_bounds lh rh) R"
      "total be_volume X + total be_volumeUpper Y
        = total be_volumeUpper A' + total (be_volumeUpper \<circ> reuse_bounds lh rh) R"
      "mset (map view (X @ Y)) = mset (map view (A' @ R))"
      using Cons.IH [OF loop _ bR] by blast
    have "in_range d" using d(4) bounded_range [OF b] by (simp add: in_range_def)
    moreover have "view d = view r" using d(3) by simp
    ultimately show ?thesis
      by (rule_tac exI [of _ "d # X"], rule_tac exI [of _ Y])
        (use XY d(2,9) sums True in \<open>simp add: add.assoc add.left_commute o_def\<close>)
  next
    case False
    obtain v where v: "getVolume rnd ?j m = Inr v"
      using Cons.prems(1) False unfolding upt by (auto simp: nth upd Let_def res_bind_eq_Inr_iff)
    let ?k = "?j\<lparr>be_volume := v\<rparr>"
    let ?util = "if util \<le> av then util + v else util"
    let ?md = "max md (diff ?j)"
    have loop: "excess_loop rnd rndf m av lh rh [length D + length (A @ [?k])..<length D + length (A @ [?k]) + length R]
        (D @ (A @ [?k]) @ R, length D, ?util, base, ?md) = Inr (es', nd', util', base', md')"
      using Cons.prems(1) False v unfolding upt by (simp add: nth upd Let_def)
    have "active rnd l u m ?k"
      using b False v by (auto simp: active_def bounded_def)
    then have "\<forall>a \<in> set (A @ [?k]). active rnd l u m a \<and> diff a \<le> ?md"
      using Cons.prems(2) by auto
    moreover have "1 \<le> v" using getVolume_range [OF v] b by (simp add: bounded_def)
    then have "counted av ?util (U + total be_volume (A @ [?k]))"
      using Cons.prems(4) by (auto simp: counted_def)
    ultimately obtain X Y where XY: "es' = D @ X @ Y" "nd' = length D + length X"
      "base' = base + total be_volume X" "\<forall>x \<in> set X. in_range x"
      "\<forall>y \<in> set Y. active rnd l u m y \<and> diff y \<le> md'" "?md \<le> md'"
      "counted av util' (U + total be_volume X + total be_volume Y)"
      "total be_volume X + total be_volumeLower Y
        = total be_volumeLower (A @ [?k]) + total (be_volumeLower \<circ> reuse_bounds lh rh) R"
      "total be_volume X + total be_volumeUpper Y
        = total be_volumeUpper (A @ [?k]) + total (be_volumeUpper \<circ> reuse_bounds lh rh) R"
      "mset (map view (X @ Y)) = mset (map view ((A @ [?k]) @ R))"
      using Cons.IH [OF loop _ bR] by blast
    then show ?thesis
      by (rule_tac exI [of _ X], rule_tac exI [of _ Y]) (auto simp: o_def add.assoc)
  qed
qed

section \<open>The invariant of the search\<close>

text \<open>
  The entries at the start of an iteration (after the volumes at the bounds have been computed in the
  first one): the dismissed jobs have their final volumes, the others carry (or are about to reuse) the
  volumes at the bounds of the interval; at the lower bound \<open>eal\<close> workers are left over and at the
  upper bound too many are in use.
\<close>

definition searching ::
    "(rat \<Rightarrow> rat) \<Rightarrow> int \<Rightarrow> nat \<Rightarrow> int \<Rightarrow> bool \<Rightarrow> bool \<Rightarrow> rat \<Rightarrow> rat \<Rightarrow> int \<Rightarrow> balancing_entry list \<Rightarrow> bool" where
  "searching rnd av nd base lh rh l u eal es \<longleftrightarrow>
     nd \<le> length es \<and> 0 \<le> l \<and> l \<le> u
     \<and> base = total be_volume (take nd es) \<and> (\<forall>e \<in> set (take nd es). in_range e)
     \<and> (\<forall>e \<in> set (drop nd es). bounded rnd l u (reuse_bounds lh rh e))
     \<and> av - base - total (be_volumeLower \<circ> reuse_bounds lh rh) (drop nd es) = eal \<and> 0 < eal
     \<and> av < base + total (be_volumeUpper \<circ> reuse_bounds lh rh) (drop nd es)"

text \<open>The state that the loop over the entries leaves behind.\<close>

definition evaluated ::
    "(rat \<Rightarrow> rat) \<Rightarrow> int \<Rightarrow> rat \<Rightarrow> rat \<Rightarrow> rat \<Rightarrow> int \<Rightarrow> int \<Rightarrow> volume_calculator \<Rightarrow> bool" where
  "evaluated rnd av l u m eal excess vc \<longleftrightarrow>
     (let D = take (vc_num_dismissed_jobs vc) (vc_entries vc); Y = drop (vc_num_dismissed_jobs vc) (vc_entries vc)
      in vc_num_dismissed_jobs vc \<le> length (vc_entries vc)
        \<and> vc_base_utilization vc = total be_volume D \<and> (\<forall>e \<in> set D. in_range e)
        \<and> (\<forall>y \<in> set Y. active rnd l u m y \<and> diff y \<le> vc_max_volume_diff vc)
        \<and> counted av (av - excess) (total be_volume (vc_entries vc))
        \<and> av - total be_volume D - total be_volumeLower Y = eal
        \<and> av < total be_volume D + total be_volumeUpper Y
        \<and> vc_prev_lb vc = l \<and> vc_prev_ub vc = u)"

definition start_entries :: "(rat \<Rightarrow> rat) \<Rightarrow> rat \<Rightarrow> rat \<Rightarrow> volume_calculator \<Rightarrow> balancing_entry list res" where
  "start_entries rnd l u vc =
     (if vc_prev_lb vc = -1 then bound_volumes rnd l u (vc_entries vc) else Inr (vc_entries vc))"

lemma calculateExcess_spec:
  assumes es: "start_entries rnd l u vc = Inr es"
    and inv: "searching rnd (vc_available_volume vc) (vc_num_dismissed_jobs vc) (vc_base_utilization vc)
      (l = vc_prev_lb vc) (u = vc_prev_ub vc) l u eal es"
    and ret: "calculateExcessVolumeOrNegative rnd rndf m l u vc = Inr (excess, vc')"
  shows "evaluated rnd (vc_available_volume vc) l u m eal excess vc'"
    and "mset (map view (vc_entries vc')) = mset (map view es)"
    and "vc_available_volume vc' = vc_available_volume vc" "vc_center_of_mass vc' = vc_center_of_mass vc"
proof -
  let ?av = "vc_available_volume vc" and ?nd = "vc_num_dismissed_jobs vc"
  let ?lh = "l = vc_prev_lb vc" and ?rh = "u = vc_prev_ub vc"
  let ?D = "take ?nd es" and ?R = "drop ?nd es"
  have nd: "?nd \<le> length es" using inv by (simp add: searching_def)
  obtain es' nd' util base' md' where loop: "excess_loop rnd rndf m ?av ?lh ?rh [?nd..<length es]
      (es, ?nd, vc_base_utilization vc, vc_base_utilization vc, 0) = Inr (es', nd', util, base', md')"
    and vc': "excess = ?av - util" "vc' = vc\<lparr>vc_entries := es', vc_num_dismissed_jobs := nd',
      vc_base_utilization := base', vc_max_volume_diff := md', vc_prev_lb := l, vc_prev_ub := u\<rparr>"
    using ret es by (auto simp: calculateExcessVolumeOrNegative_def start_entries_def [symmetric]
        res_bind_eq_Inr_iff Let_def)
  have "excess_loop rnd rndf m ?av ?lh ?rh [length ?D + length []..<length ?D + length [] + length ?R]
      (?D @ [] @ ?R, length ?D, vc_base_utilization vc, vc_base_utilization vc, 0) = Inr (es', nd', util, base', md')"
    using loop nd by simp
  from excess_loop_spec [OF this, where l = l and u = u and U = "vc_base_utilization vc"]
  obtain X Y where XY: "es' = ?D @ X @ Y" "nd' = length ?D + length X"
      "base' = vc_base_utilization vc + total be_volume X" "\<forall>x \<in> set X. in_range x"
      "\<forall>y \<in> set Y. active rnd l u m y \<and> diff y \<le> md'"
      "counted ?av util (vc_base_utilization vc + total be_volume X + total be_volume Y)"
      "total be_volume X + total be_volumeLower Y = total (be_volumeLower \<circ> reuse_bounds ?lh ?rh) ?R"
      "total be_volume X + total be_volumeUpper Y = total (be_volumeUpper \<circ> reuse_bounds ?lh ?rh) ?R"
      "mset (map view (X @ Y)) = mset (map view ?R)"
    using inv by (auto simp: searching_def counted_def)
  have split: "take nd' es' = ?D @ X" "drop nd' es' = Y" using XY(1,2) nd by auto
  show "evaluated rnd ?av l u m eal excess vc'"
    using XY inv by (auto simp: evaluated_def vc' split searching_def Let_def algebra_simps)
  have "mset (map view es') = mset (map view (?D @ ?R))"
    using XY(9) unfolding XY(1) map_append mset_append by simp
  then show "mset (map view (vc_entries vc')) = mset (map view es)" by (simp add: vc')
  show "vc_available_volume vc' = ?av" "vc_center_of_mass vc' = vc_center_of_mass vc" by (simp_all add: vc')
qed

lemma sum_list_mono_map: "(\<And>x. x \<in> set xs \<Longrightarrow> f x \<le> g x) \<Longrightarrow> total f xs \<le> total g xs"
  by (induction xs) (auto intro: add_mono)

context rounding
begin

lemma active_order:
  assumes "active rnd l u m e" "0 \<le> l" "0 \<le> m"
  shows "m \<le> l \<Longrightarrow> be_volume e \<le> be_volumeLower e" "u \<le> m \<Longrightarrow> 0 \<le> u \<Longrightarrow> be_volumeUpper e \<le> be_volume e"
    "l \<le> u \<Longrightarrow> be_volumeLower e < be_volumeUpper e"
proof -
  have e: "getVolume rnd e l = Inr (be_volumeLower e)" "getVolume rnd e u = Inr (be_volumeUpper e)"
    "getVolume rnd e m = Inr (be_volume e)" "0 \<le> be_fairShare e" "be_volumeLower e \<noteq> be_volumeUpper e"
    using assms(1) by (auto simp: active_def bounded_def)
  show "m \<le> l \<Longrightarrow> be_volume e \<le> be_volumeLower e" using getVolume_mono [OF e(3,1) assms(3) _ e(4)] .
  show "u \<le> m \<Longrightarrow> 0 \<le> u \<Longrightarrow> be_volumeUpper e \<le> be_volume e" using getVolume_mono [OF e(2,3) _ _ e(4)] .
  show "l \<le> u \<Longrightarrow> be_volumeLower e < be_volumeUpper e"
    using getVolume_mono [OF e(1,2) assms(2) _ e(4)] e(5) by simp
qed

lemma evaluated_side:
  assumes ev: "evaluated rnd av l u m eal excess vc" and lu: "0 \<le> l" "l \<le> u" "0 \<le> m" "0 < eal"
  shows "0 < excess \<Longrightarrow> m < u" "excess < 0 \<Longrightarrow> l < m"
proof -
  let ?D = "take (vc_num_dismissed_jobs vc) (vc_entries vc)"
  let ?Y = "drop (vc_num_dismissed_jobs vc) (vc_entries vc)"
  have ev': "\<forall>y \<in> set ?Y. active rnd l u m y" "counted av (av - excess) (total be_volume (vc_entries vc))"
    "av - total be_volume ?D - total be_volumeLower ?Y = eal" "av < total be_volume ?D + total be_volumeUpper ?Y"
    using ev by (auto simp: evaluated_def Let_def)
  have split: "total be_volume (vc_entries vc) = total be_volume ?D + total be_volume ?Y"
    by (metis append_take_drop_id map_append sum_list_append)
  show "m < u" if "0 < excess"
  proof (rule ccontr)
    assume "\<not> m < u"
    then have "total be_volumeUpper ?Y \<le> total be_volume ?Y"
      using ev'(1) lu active_order(2) by (intro sum_list_mono_map) force
    then show False using that ev'(2,4) split by (auto simp: counted_def)
  qed
  show "l < m" if "excess < 0"
  proof (rule ccontr)
    assume "\<not> l < m"
    then have "total be_volume ?Y \<le> total be_volumeLower ?Y"
      using ev'(1) lu active_order(1) by (intro sum_list_mono_map) force
    then show False using that ev'(2,3) split lu(4) by (auto simp: counted_def)
  qed
qed

end

section \<open>Correctness of what the search returns\<close>

text \<open>If both halves were to be reused, the interval has not become smaller: then every job is
  dismissed and an assertion fails.\<close>

lemma excess_loop_both:
  "\<exists>R'. excess_loop rnd rndf m av True True [length D..<length D + length R] (D @ R, length D, util, base, md) =
     Inr (D @ R', length D + length R, util + total be_volume R, base + total be_volume R, md)
     \<and> length R' = length R"
proof (induction R arbitrary: D util base)
  case (Cons r R)
  let ?k = "(reuse_bounds True True r)\<lparr>be_volume := be_volume r\<rparr>"
  have upt: "[length D..<length D + length (r # R)] = length D # [Suc (length D)..<Suc (length D) + length R]"
    using upt_conv_Cons [of "length D" "length D + length (r # R)"] by simp
  obtain d where d: "dismissAndSwapWith rndf (D @ ?k # R) (length D) (length D) = (D @ [d]) @ R"
    by (auto simp: dismissAndSwapWith_def list_update_append)
  obtain R' where "excess_loop rnd rndf m av True True [length (D @ [d])..<length (D @ [d]) + length R]
      ((D @ [d]) @ R, length (D @ [d]), util + be_volume r, base + be_volume r, md) =
     Inr ((D @ [d]) @ R', length (D @ [d]) + length R, util + be_volume r + total be_volume R,
       base + be_volume r + total be_volume R, md)" "length R' = length R"
    using Cons.IH by blast
  moreover have "be_volumeLower (reuse_bounds True True r) = be_volume r"
    "be_volumeUpper (reuse_bounds True True r) = be_volume r" by (simp_all add: reuse_bounds_def)
  ultimately show ?case unfolding upt using d
    by (intro exI [of _ "d # R'"]) (simp add: Let_def nth_append list_update_append add.assoc)
qed simp

definition stuck :: "rat \<Rightarrow> rat \<Rightarrow> volume_calculator \<Rightarrow> bool" where
  "stuck l u vc \<longleftrightarrow> vc_prev_lb vc \<noteq> -1 \<and> l = vc_prev_lb vc \<and> u = vc_prev_ub vc
     \<and> vc_num_dismissed_jobs vc \<le> length (vc_entries vc)
     \<and> vc_available_volume vc \<noteq> vc_base_utilization vc
         + total be_volume (drop (vc_num_dismissed_jobs vc) (vc_entries vc))"

lemma stuck_excess:
  assumes "stuck l u vc"
  shows "\<exists>excess vc'. calculateExcessVolumeOrNegative rnd rndf m l u vc = Inr (excess, vc')
    \<and> excess \<noteq> 0 \<and> vc_max_volume_diff vc' = 0
    \<and> length (vc_entries vc') - vc_num_dismissed_jobs vc' = 0"
proof -
  let ?nd = "vc_num_dismissed_jobs vc" and ?es = "vc_entries vc"
  obtain R' where R': "excess_loop rnd rndf m (vc_available_volume vc) True True
      [length (take ?nd ?es)..<length (take ?nd ?es) + length (drop ?nd ?es)]
      (take ?nd ?es @ drop ?nd ?es, length (take ?nd ?es), vc_base_utilization vc, vc_base_utilization vc, 0) =
     Inr (take ?nd ?es @ R', length (take ?nd ?es) + length (drop ?nd ?es),
       vc_base_utilization vc + total be_volume (drop ?nd ?es),
       vc_base_utilization vc + total be_volume (drop ?nd ?es), 0)" "length R' = length (drop ?nd ?es)"
    using excess_loop_both by blast
  then show ?thesis using assms by (simp add: calculateExcessVolumeOrNegative_def stuck_def)
qed

lemma assign_remaining_spec:
  assumes "0 \<le> k" "assign_remaining k jobs = (jobs', k')"
  shows "total be_volume jobs' + k' = total be_volumeLower jobs + k" "0 \<le> k'"
    "map view jobs' = map view jobs" "length jobs' = length jobs"
    "\<forall>j' \<in> set jobs'. \<exists>j \<in> set jobs. be_demand j' = be_demand j
       \<and> (be_volume j' = be_volumeLower j \<or> be_volume j' = be_volumeLower j + 1)"
proof -
  have "total be_volume jobs' + k' = total be_volumeLower jobs + k \<and> 0 \<le> k'
    \<and> map view jobs' = map view jobs \<and> length jobs' = length jobs
    \<and> (\<forall>j' \<in> set jobs'. \<exists>j \<in> set jobs. be_demand j' = be_demand j
       \<and> (be_volume j' = be_volumeLower j \<or> be_volume j' = be_volumeLower j + 1))"
    using assms
  proof (induction jobs arbitrary: k jobs' k')
    case (Cons j jobs)
    obtain js k1 where js: "assign_remaining (if k > 0 then k - 1 else k) jobs = (js, k1)" by force
    have "total be_volume js + k1 = total be_volumeLower jobs + (if k > 0 then k - 1 else k) \<and> 0 \<le> k1
      \<and> map view js = map view jobs \<and> length js = length jobs
      \<and> (\<forall>j' \<in> set js. \<exists>j \<in> set jobs. be_demand j' = be_demand j
         \<and> (be_volume j' = be_volumeLower j \<or> be_volume j' = be_volumeLower j + 1))"
      using Cons.IH [OF _ js] Cons.prems(1) by simp
    then show ?case using Cons.prems js by (auto split: if_splits)
  qed auto
  then show "total be_volume jobs' + k' = total be_volumeLower jobs + k" "0 \<le> k'"
    "map view jobs' = map view jobs" "length jobs' = length jobs"
    "\<forall>j' \<in> set jobs'. \<exists>j \<in> set jobs. be_demand j' = be_demand j
       \<and> (be_volume j' = be_volumeLower j \<or> be_volume j' = be_volumeLower j + 1)" by auto
qed

lemma insort_entry_mset: "mset (insort_entry e es) = add_mset e (mset es)"
  by (induction es) auto

lemma sort_entries_mset: "mset (sort_entries es) = mset es"
  unfolding sort_entries_def by (induction es) (auto simp: insort_entry_mset)

lemma sort_entries_total: "total f (sort_entries es) = total f es"
  using sort_entries_mset [of es] by (metis mset_map sum_mset_sum_list)

lemma sort_entries_set: "set (sort_entries es) = set es"
  using sort_entries_mset [of es] by (metis set_mset_mset)

text \<open>A distribution that uses up the available volume and gives every job a volume in its range.\<close>

definition balanced :: "int \<Rightarrow> (int \<times> int \<times> float32) multiset \<Rightarrow> volume_calculator \<Rightarrow> bool" where
  "balanced av jobs vc \<longleftrightarrow> total be_volume (vc_entries vc) = av
     \<and> (\<forall>e \<in> set (vc_entries vc). in_range e) \<and> mset (map view (vc_entries vc)) = jobs"

context rounding
begin

lemma evaluated_optimal:
  assumes "evaluated rnd av l u m eal 0 vc"
  shows "balanced av (mset (map view (vc_entries vc))) vc"
proof -
  let ?nd = "vc_num_dismissed_jobs vc"
  have "in_range e" if "e \<in> set (drop ?nd (vc_entries vc))" for e
  proof -
    have "getVolume rnd e m = Inr (be_volume e)" "1 \<le> be_demand e"
      using assms that by (auto simp: evaluated_def Let_def active_def bounded_def)
    then show ?thesis using getVolume_range by (auto simp: in_range_def)
  qed
  moreover have "\<forall>e \<in> set (take ?nd (vc_entries vc)). in_range e" "total be_volume (vc_entries vc) = av"
    using assms by (auto simp: evaluated_def Let_def counted_def)
  ultimately show ?thesis
    by (simp add: balanced_def) (metis Un_iff append_take_drop_id set_append)
qed

lemma finalize_optimal:
  assumes ev: "evaluated rnd av l u m eal excess vc" and lu: "0 \<le> l" "l \<le> u" "0 \<le> m"
    and fin: "finalize eal vc = Inr vc'"
  shows "balanced av (mset (map view (vc_entries vc))) vc'"
proof -
  let ?nd = "vc_num_dismissed_jobs vc"
  let ?D = "take ?nd (vc_entries vc)" and ?Y = "drop ?nd (vc_entries vc)"
  have nd: "?nd \<le> length (vc_entries vc)" and D: "\<forall>e \<in> set ?D. in_range e"
    and Y: "\<forall>y \<in> set ?Y. active rnd l u m y"
    and sum: "av - total be_volume ?D - total be_volumeLower ?Y = eal"
    using ev by (auto simp: evaluated_def Let_def)
  obtain jobs where eal: "0 < eal" and jobs: "assign_remaining eal (sort_entries ?Y) = (jobs, 0)"
    and vc': "vc_entries vc' = ?D @ jobs"
    using fin nd by (auto simp: finalize_def sortRemainingEntries_def Let_def split: prod.splits)
  note as = assign_remaining_spec [OF less_imp_le [OF eal] jobs]
  have "total be_volume (vc_entries vc') = av"
    using as(1) sum by (simp add: vc' sort_entries_total)
  moreover have "in_range j" if mem: "j \<in> set jobs" for j
  proof -
    obtain y where y: "y \<in> set ?Y" "be_demand j = be_demand y"
      "be_volume j = be_volumeLower y \<or> be_volume j = be_volumeLower y + 1"
      using bspec [OF as(5) mem] by (auto simp: sort_entries_set)
    have act: "active rnd l u m y" using Y y(1) by blast
    then have "bounded rnd l u y" by (simp add: active_def)
    then show ?thesis
      using y active_order(3) [OF act lu(1,3,2)] bounded_range [of rnd l u y] by (auto simp: in_range_def)
  qed
  moreover have "mset (map view (vc_entries vc')) = mset (map view (vc_entries vc))"
  proof -
    have "mset (map view jobs) = mset (map view ?Y)"
      using as(3) by (simp add: sort_entries_mset)
    then have "mset (map view (?D @ jobs)) = mset (map view (?D @ ?Y))"
      unfolding map_append mset_append by simp
    then show ?thesis using vc' by simp
  qed
  ultimately show ?thesis using D vc' by (auto simp: balanced_def)
qed

end

text \<open>What holds whenever the head of the loop is reached.\<close>

definition loop_inv :: "(rat \<Rightarrow> rat) \<Rightarrow> volume_calculator \<Rightarrow> rat \<Rightarrow> rat \<Rightarrow> rat \<Rightarrow> int \<Rightarrow> int \<Rightarrow> bool" where
  "loop_inv rnd vc l u m bestExcess eal \<longleftrightarrow>
     0 \<le> m \<and> 0 \<le> vc_center_of_mass vc \<and> bestExcess \<noteq> 0
     \<and> (\<forall>es. start_entries rnd l u vc = Inr es \<longrightarrow>
          searching rnd (vc_available_volume vc) (vc_num_dismissed_jobs vc) (vc_base_utilization vc)
            (l = vc_prev_lb vc) (u = vc_prev_ub vc) l u eal es
          \<and> mset (map view es) = mset (map view (vc_entries vc)))"

lemma next_lower:
  assumes "evaluated rnd av l u m eal excess vc" "0 < excess" "0 \<le> m" "m \<le> u" "m \<noteq> l"
  shows "searching rnd av (vc_num_dismissed_jobs vc) (vc_base_utilization vc) (m = vc_prev_lb vc)
    (u = vc_prev_ub vc) m u excess (vc_entries vc)"
proof -
  let ?nd = "vc_num_dismissed_jobs vc"
  have "total be_volume (vc_entries vc) = total be_volume (take ?nd (vc_entries vc)) + total be_volume (drop ?nd (vc_entries vc))"
    by (metis append_take_drop_id map_append sum_list_append)
  moreover have "(be_volumeLower \<circ> reuse_bounds False True) = be_volume"
    "(be_volumeUpper \<circ> reuse_bounds False True) = be_volumeUpper"
    by (auto simp: reuse_bounds_def fun_eq_iff)
  moreover have "active rnd l u m e \<Longrightarrow> bounded rnd m u (reuse_bounds False True e)" for e
    by (auto simp: active_def bounded_def reuse_bounds_def)
  ultimately show ?thesis
    using assms by (auto simp: searching_def evaluated_def Let_def counted_def)
qed

lemma next_upper:
  assumes "evaluated rnd av l u m eal excess vc" "excess < 0" "0 \<le> l" "l \<le> m" "m \<noteq> u" "0 < eal"
  shows "searching rnd av (vc_num_dismissed_jobs vc) (vc_base_utilization vc) (l = vc_prev_lb vc)
    (m = vc_prev_ub vc) l m eal (vc_entries vc)"
proof -
  let ?nd = "vc_num_dismissed_jobs vc"
  have "total be_volume (vc_entries vc) = total be_volume (take ?nd (vc_entries vc)) + total be_volume (drop ?nd (vc_entries vc))"
    by (metis append_take_drop_id map_append sum_list_append)
  moreover have "(be_volumeLower \<circ> reuse_bounds True False) = be_volumeLower"
    "(be_volumeUpper \<circ> reuse_bounds True False) = be_volume"
    by (auto simp: reuse_bounds_def fun_eq_iff)
  moreover have "active rnd l u m e \<Longrightarrow> bounded rnd l m (reuse_bounds True False e)" for e
    by (auto simp: active_def bounded_def reuse_bounds_def)
  ultimately show ?thesis
    using assms by (auto simp: searching_def evaluated_def Let_def counted_def)
qed

lemma next_stuck:
  assumes "evaluated rnd av l u m eal excess vc" "excess \<noteq> 0" "0 \<le> l" "vc_available_volume vc = av"
  shows "stuck l u vc"
proof -
  let ?nd = "vc_num_dismissed_jobs vc"
  have "total be_volume (vc_entries vc) = total be_volume (take ?nd (vc_entries vc)) + total be_volume (drop ?nd (vc_entries vc))"
    by (metis append_take_drop_id map_append sum_list_append)
  then show ?thesis using assms by (auto simp: stuck_def evaluated_def Let_def counted_def)
qed

text \<open>The multiplier of the next iteration.\<close>

definition next_mid :: "(rat \<Rightarrow> rat) \<Rightarrow> rat \<Rightarrow> int \<Rightarrow> rat \<Rightarrow> rat \<Rightarrow> rat \<Rightarrow> rat" where
  "next_mid rnd m excess cm l u =
     (if m = 1 \<and> excess > 0 \<and> cm > m then cm
      else if m = 1 \<and> excess < 0 \<and> cm < m then cm else rnd (rnd (l + u) / 2))"

text \<open>The loop body in terms of \<open>next_mid\<close>.\<close>

lemma search_step:
  "search rnd rndf vc l u m be eal =
     (case calculateExcessVolumeOrNegative rnd rndf m l u vc of
        Inl e \<Rightarrow> Some (Inl e)
      | Inr (excess, vc) \<Rightarrow>
          if (be = -1 \<or> \<bar>excess\<bar> < \<bar>be\<bar>) \<and> excess = 0 then Some (Inr vc)
          else if vc_max_volume_diff vc \<le> 1 then Some (finalize eal vc)
          else search rnd rndf vc (if excess > 0 then m else l) (if excess < 0 then m else u)
                 (next_mid rnd m excess (vc_center_of_mass vc)
                   (if excess > 0 then m else l) (if excess < 0 then m else u))
                 (if be = -1 \<or> \<bar>excess\<bar> < \<bar>be\<bar> then excess else be)
                 (if excess > 0 then excess else eal))"
  by (subst search.simps) (simp add: next_mid_def Let_def split: sum.split prod.split)

lemma loop_inv_start:
  assumes "loop_inv rnd vc l u m be eal" "calculateExcessVolumeOrNegative rnd rndf m l u vc = Inr (excess, vc1)"
  shows "evaluated rnd (vc_available_volume vc) l u m eal excess vc1"
    "mset (map view (vc_entries vc1)) = mset (map view (vc_entries vc))"
    "vc_available_volume vc1 = vc_available_volume vc" "vc_center_of_mass vc1 = vc_center_of_mass vc"
    "0 \<le> l" "l \<le> u" "0 < eal"
proof -
  obtain es where es: "start_entries rnd l u vc = Inr es"
    using assms(2) by (auto simp: calculateExcessVolumeOrNegative_def start_entries_def res_bind_eq_Inr_iff)
  then have s: "searching rnd (vc_available_volume vc) (vc_num_dismissed_jobs vc) (vc_base_utilization vc)
      (l = vc_prev_lb vc) (u = vc_prev_ub vc) l u eal es" "mset (map view es) = mset (map view (vc_entries vc))"
    using assms(1) by (auto simp: loop_inv_def)
  note c = calculateExcess_spec [OF es s(1) assms(2)]
  show "evaluated rnd (vc_available_volume vc) l u m eal excess vc1"
    "vc_available_volume vc1 = vc_available_volume vc" "vc_center_of_mass vc1 = vc_center_of_mass vc" using c by auto
  show "mset (map view (vc_entries vc1)) = mset (map view (vc_entries vc))" using c(2) s(2) by simp
  show "0 \<le> l" "l \<le> u" "0 < eal" using s(1) by (auto simp: searching_def)
qed

lemma stuck_search: "stuck l u vc \<Longrightarrow> search rnd rndf vc l u m be eal = Some (Inl Assertion_failed)"
  using stuck_excess [of l u vc rnd rndf m] by (subst search_step) (auto simp: finalize_def)

context rounding
begin

lemma loop_inv_next:
  assumes inv: "loop_inv rnd vc l u m be eal"
    and ret: "calculateExcessVolumeOrNegative rnd rndf m l u vc = Inr (excess, vc1)" and "excess \<noteq> 0"
  defines "l' \<equiv> if excess > 0 then m else l" and "u' \<equiv> if excess < 0 then m else u"
  shows "stuck l' u' vc1 \<or>
    loop_inv rnd vc1 l' u' (next_mid rnd m excess (vc_center_of_mass vc1) l' u')
      (if be = -1 \<or> \<bar>excess\<bar> < \<bar>be\<bar> then excess else be) (if excess > 0 then excess else eal)"
proof -
  let ?av = "vc_available_volume vc"
  note st = loop_inv_start [OF inv ret]
  have m: "0 \<le> m" "0 \<le> vc_center_of_mass vc1" "be \<noteq> 0" using inv st(4) by (auto simp: loop_inv_def)
  have side: "0 < excess \<Longrightarrow> m \<le> u" "excess < 0 \<Longrightarrow> l \<le> m"
    using evaluated_side [OF st(1,5,6) m(1) st(7)] by (simp_all add: less_imp_le)
  have pl: "vc_prev_lb vc1 = l" "vc_prev_ub vc1 = u" using st(1) by (auto simp: evaluated_def Let_def)
  have "0 \<le> l'" "0 \<le> u'" using m st(5,6) by (auto simp: l'_def u'_def)
  then have mid: "0 \<le> next_mid rnd m excess (vc_center_of_mass vc1) l' u'"
    using m rnd_nonneg by (simp add: next_mid_def)
  show ?thesis
  proof (cases "l' = l \<and> u' = u")
    case True
    then show ?thesis using next_stuck [OF st(1) assms(3) st(5,3)] by simp
  next
    case False
    have "searching rnd ?av (vc_num_dismissed_jobs vc1) (vc_base_utilization vc1) (l' = vc_prev_lb vc1)
        (u' = vc_prev_ub vc1) l' u' (if excess > 0 then excess else eal) (vc_entries vc1)"
    proof (cases "0 < excess")
      case True
      then show ?thesis using False next_lower [OF st(1) True m(1) side(1) [OF True]] by (simp add: l'_def u'_def)
    next
      case neg: False
      then have "excess < 0" using assms(3) by simp
      then show ?thesis using False neg next_upper [OF st(1) _ st(5) side(2) _ st(7)] by (simp add: l'_def u'_def)
    qed
    then have "loop_inv rnd vc1 l' u' (next_mid rnd m excess (vc_center_of_mass vc1) l' u')
      (if be = -1 \<or> \<bar>excess\<bar> < \<bar>be\<bar> then excess else be) (if excess > 0 then excess else eal)"
      using mid m(2,3) assms(3) st(3,5) pl by (auto simp: loop_inv_def start_entries_def)
    then show ?thesis ..
  qed
qed

lemma search_correct:
  assumes "search rnd' rndf vc l u m be eal = Some r" "rnd' = rnd" "r = Inr vc'"
  shows "\<not> stuck l u vc \<and> (loop_inv rnd vc l u m be eal \<longrightarrow>
    balanced (vc_available_volume vc) (mset (map view (vc_entries vc))) vc')"
proof -
  let ?P = "\<lambda>rnd' rndf vc l u m be eal r. rnd' = rnd \<longrightarrow> (\<forall>vc'. r = Inr vc' \<longrightarrow>
    \<not> stuck l u vc \<and> (loop_inv rnd vc l u m be eal \<longrightarrow>
    balanced (vc_available_volume vc) (mset (map view (vc_entries vc))) vc'))"
  have "?P rnd' rndf vc l u m be eal r"
  proof (rule search.raw_induct [of ?P, OF _ assms(1)], goal_cases)
    case (1 f rnd' rndf vc l u m be eal r)
    have ns: "\<not> stuck l u vc" if "rnd' = rnd" "r = Inr vc'" for vc'
    proof
      assume "stuck l u vc"
      then show False using 1(2) that stuck_excess [of l u vc rnd rndf m] by (auto simp: finalize_def Let_def)
    qed
    show ?case
    proof (intro impI allI conjI)
      fix vc' assume r: "rnd' = rnd" "r = Inr vc'"
      show "\<not> stuck l u vc" using ns [OF r] .
      assume inv: "loop_inv rnd vc l u m be eal"
      obtain excess vc1 where c: "calculateExcessVolumeOrNegative rnd rndf m l u vc = Inr (excess, vc1)"
        using 1(2) r by (cases "calculateExcessVolumeOrNegative rnd rndf m l u vc") auto
      note st = loop_inv_start [OF inv c]
      have m: "0 \<le> m" "be \<noteq> 0" using inv by (auto simp: loop_inv_def)
      show "balanced (vc_available_volume vc) (mset (map view (vc_entries vc))) vc'"
      proof (cases "excess = 0")
        case True
        then show ?thesis using 1(2) r c m evaluated_optimal [of "vc_available_volume vc" l u m eal vc1] st(1,2)
          by (auto simp: Let_def)
      next
        case False
        show ?thesis
        proof (cases "vc_max_volume_diff vc1 \<le> 1")
          case True
          then have "finalize eal vc1 = Inr vc'" using 1(2) r c False by (auto simp: Let_def)
          then show ?thesis using finalize_optimal [OF st(1,5,6) m(1)] st(2) by simp
        next
          case more: False
          let ?l = "if excess > 0 then m else l" and ?u = "if excess < 0 then m else u"
          let ?be = "if be = -1 \<or> \<bar>excess\<bar> < \<bar>be\<bar> then excess else be"
          let ?m = "next_mid rnd m excess (vc_center_of_mass vc1) ?l ?u"
          have "f rnd rndf vc1 ?l ?u ?m ?be (if excess > 0 then excess else eal) = Some (Inr vc')"
            using 1(2) r(2) c False more unfolding r(1)
            by (simp add: Let_def next_mid_def split del: if_split)
          then have "\<not> stuck ?l ?u vc1 \<and> (loop_inv rnd vc1 ?l ?u ?m ?be (if excess > 0 then excess else eal) \<longrightarrow>
              balanced (vc_available_volume vc1) (mset (map view (vc_entries vc1))) vc')"
            using 1(1) by blast
          then show ?thesis using loop_inv_next [OF inv c False] st(2,3) by simp
        qed
      qed
    qed
  qed
  then show ?thesis using assms(2,3) by blast
qed

end

section \<open>Fair shares establish the invariant\<close>

text \<open>What the loop over the jobs checks and accumulates.\<close>

definition share_ok :: "(rat \<Rightarrow> rat) \<Rightarrow> rat \<Rightarrow> rat \<Rightarrow> balancing_entry \<Rightarrow> bool" where
  "share_ok rnd mn mx e \<longleftrightarrow> 1 \<le> be_demand e \<and> mn \<le> rnd (1 / be_fairShare e)
     \<and> getVolume rnd e (rnd (1 / be_fairShare e)) = Inr 1
     \<and> rnd (of_int (be_demand e) / be_fairShare e) \<le> mx
     \<and> getVolume rnd e (rnd (rnd (of_int (be_demand e) / be_fairShare e) + EPSILON rnd)) = Inr (be_demand e)"

lemma with_fair_share_simps [simp]:
  "be_volume (with_fair_share rnd sp av n e) = be_volume e"
  "be_demand (with_fair_share rnd sp av n e) = min (be_demand e) (av - n + 1)"
  "be_fairShare (with_fair_share rnd sp av n e) = rnd (rnd (f32_val (be_priority e) / sp) * of_int av)"
  by (simp_all add: with_fair_share_def)

lemma fair_share_loop_spec:
  assumes "fair_share_loop rnd sp av n jobs (mn, mx, cm, sd) = Inr (jobs', mn', mx', cm', sd')"
  shows "jobs' = map (with_fair_share rnd sp av n) jobs \<and> mn' \<le> mn \<and> mx \<le> mx'
    \<and> (\<forall>e \<in> set jobs'. share_ok rnd mn' mx' e) \<and> sd' = sd + total be_demand jobs'"
  using assms
proof (induction jobs arbitrary: mn mx cm sd jobs')
  case (Cons j jobs)
  let ?j = "with_fair_share rnd sp av n j"
  let ?lb = "rnd (1 / be_fairShare ?j)" and ?ub = "rnd (of_int (be_demand ?j) / be_fairShare ?j)"
  obtain js where js: "fair_share_loop rnd sp av n jobs
      (min mn ?lb, max mx ?ub, rnd (cm + rnd (rnd (?lb + ?ub) / 2)), sd + be_demand ?j) = Inr (js, mn', mx', cm', sd')"
    and jobs': "jobs' = ?j # js" and pos: "be_demand ?j > 0" and vol: "getVolume rnd ?j ?lb = Inr 1"
      "getVolume rnd ?j (rnd (?ub + EPSILON rnd)) = Inr (be_demand ?j)"
    using Cons.prems
    by (auto simp: Let_def res_bind_eq_Inr_iff getFairShareMultiplierLowerBound_def
        getFairShareMultiplierUpperBound_def simp del: with_fair_share_simps)
  from Cons.IH [OF js] show ?case using jobs' pos vol
    by (auto simp: share_ok_def simp del: with_fair_share_simps)
qed auto

lemma bound_volumes_spec:
  "bound_volumes rnd l u es = Inr es' \<Longrightarrow>
     map view es' = map view es \<and> length es' = length es
     \<and> list_all2 (\<lambda>e' e. getVolume rnd e l = Inr (be_volumeLower e') \<and> getVolume rnd e u = Inr (be_volumeUpper e')
         \<and> be_demand e' = be_demand e \<and> be_fairShare e' = be_fairShare e) es' es"
  by (induction es arbitrary: es') (auto simp: res_bind_eq_Inr_iff)

context rounding
begin

lemma fair_share_center:
  assumes "fair_share_loop rnd sp av n jobs (mn, mx, cm, sd) = Inr (jobs', mn', mx', cm', sd')"
    and "0 \<le> cm" "0 \<le> mn" "\<forall>e \<in> set jobs. 0 \<le> be_fairShare (with_fair_share rnd sp av n e)"
  shows "0 \<le> cm' \<and> 0 \<le> mn'"
  using assms
proof (induction jobs arbitrary: mn mx cm sd jobs')
  case (Cons j jobs)
  let ?j = "with_fair_share rnd sp av n j"
  let ?lb = "rnd (1 / be_fairShare ?j)" and ?ub = "rnd (of_int (be_demand ?j) / be_fairShare ?j)"
  obtain js where js: "fair_share_loop rnd sp av n jobs
      (min mn ?lb, max mx ?ub, rnd (cm + rnd (rnd (?lb + ?ub) / 2)), sd + be_demand ?j) = Inr (js, mn', mx', cm', sd')"
    and pos: "be_demand ?j > 0"
    using Cons.prems(1)
    by (auto simp: Let_def res_bind_eq_Inr_iff getFairShareMultiplierLowerBound_def
        getFairShareMultiplierUpperBound_def simp del: with_fair_share_simps)
  have fs: "0 \<le> be_fairShare ?j" using Cons.prems(4) by simp
  have lb: "0 \<le> ?lb" by (rule rnd_nonneg) (use fs in simp)
  have "0 \<le> ?ub" by (rule rnd_nonneg) (use fs pos in simp)
  then have "0 \<le> rnd (?lb + ?ub) / 2"
    using lb rnd_nonneg [of "?lb + ?ub"] by (simp only: add_nonneg_nonneg zero_le_divide_iff) simp
  then have "0 \<le> rnd (cm + rnd (rnd (?lb + ?ub) / 2))"
    using Cons.prems(2) by (intro rnd_nonneg add_nonneg_nonneg)
  then show ?case using Cons.IH [OF js] lb Cons.prems(3,4) by simp
qed auto

lemma shares_start:
  assumes ok: "\<forall>e \<in> set es. share_ok rnd mn mx e \<and> 0 \<le> be_fairShare e" and mn: "0 \<le> mn"
    and sums: "int (length es) < av" "av < total be_demand es"
    and bv: "bound_volumes rnd mn (rnd (mx + EPSILON rnd)) es = Inr es'"
  shows "searching rnd av 0 0 False False mn (rnd (mx + EPSILON rnd)) (av - int (length es)) es'"
proof -
  let ?u = "rnd (mx + EPSILON rnd)"
  have eps: "0 \<le> EPSILON rnd" unfolding EPSILON_def by (rule rnd_nonneg) simp
  note bvs = bound_volumes_spec [OF bv]
  have each: "bounded rnd mn ?u e' \<and> be_volumeLower e' = 1 \<and> be_volumeUpper e' = be_demand e'"
    if "e' \<in> set es'" for e'
  proof -
    obtain e where e: "e \<in> set es" "getVolume rnd e mn = Inr (be_volumeLower e')"
      "getVolume rnd e ?u = Inr (be_volumeUpper e')" "be_demand e' = be_demand e" "be_fairShare e' = be_fairShare e"
      using bvs \<open>e' \<in> set es'\<close> by (fastforce simp: list_all2_conv_all_nth in_set_conv_nth)
    let ?lb = "rnd (1 / be_fairShare e)" and ?ub = "rnd (of_int (be_demand e) / be_fairShare e)"
    have s: "share_ok rnd mn mx e" "0 \<le> be_fairShare e" using ok e(1) by auto
    then have d: "1 \<le> be_demand e" "mn \<le> ?lb" "?ub \<le> mx" "getVolume rnd e ?lb = Inr 1"
      "getVolume rnd e (rnd (?ub + EPSILON rnd)) = Inr (be_demand e)" by (auto simp: share_ok_def)
    have ub: "0 \<le> ?ub" by (rule rnd_nonneg) (use s d in simp)
    have "be_volumeLower e' \<le> 1" using getVolume_mono [OF e(2) d(4) mn d(2) s(2)] .
    moreover have "be_demand e \<le> be_volumeUpper e'"
      using getVolume_mono [OF d(5) e(3) _ _ s(2)] rnd_mono [of "?ub + EPSILON rnd" "mx + EPSILON rnd"]
        rnd_nonneg [of "?ub + EPSILON rnd"] d(3) ub eps by simp
    moreover note getVolume_range [OF e(2) d(1)] getVolume_range [OF e(3) d(1)]
    moreover have "getVolume rnd e' x = getVolume rnd e x" for x by (rule getVolume_cong) (use e in auto)
    ultimately show ?thesis using e s d by (auto simp: bounded_def)
  qed
  have low: "total be_volumeLower es' = int (length es)"
  proof -
    have "total be_volumeLower es' = total (\<lambda>_. 1) es'" using each by (intro arg_cong [where f = sum_list]) simp
    then show ?thesis using bvs by (simp add: sum_list_triv)
  qed
  have up: "total be_volumeUpper es' = total be_demand es"
  proof -
    have "map be_volumeUpper es' = map be_demand es'" using each by simp
    also have "\<dots> = map be_demand es"
      using bvs by (intro nth_equalityI) (auto simp: list_all2_conv_all_nth)
    finally show ?thesis by simp
  qed
  have "mn \<le> ?u"
  proof (rule ccontr)
    assume "\<not> mn \<le> ?u"
    then have "be_volumeUpper e' \<le> be_volumeLower e'" if mem: "e' \<in> set es'" for e'
    proof -
      have u0: "0 \<le> ?u"
      proof -
        have "es \<noteq> []" using mem bvs by auto
        then obtain e where "e \<in> set es" using last_in_set by blast
        then have "share_ok rnd mn mx e" "0 \<le> be_fairShare e" using ok by auto
        then have "0 \<le> mx" using rnd_nonneg [of "of_int (be_demand e) / be_fairShare e"]
          by (auto simp: share_ok_def)
        then show ?thesis using eps by (intro rnd_nonneg) simp
      qed
      show ?thesis using each [OF mem] getVolume_mono [of e' ?u _ mn] \<open>\<not> mn \<le> ?u\<close> u0
        by (auto simp: bounded_def)
    qed
    then have "total be_volumeUpper es' \<le> total be_volumeLower es'" by (rule sum_list_mono_map)
    then show False using low up sums by simp
  qed
  moreover have "reuse_bounds False False = (\<lambda>e. e)" by (simp add: reuse_bounds_def fun_eq_iff)
  ultimately show ?thesis using each low up sums mn by (simp add: searching_def o_def)
qed

end

text \<open>The state a constructed calculator is in.\<close>

definition collected :: "volume_calculator \<Rightarrow> bool" where
  "collected vc \<longleftrightarrow> vc_num_dismissed_jobs vc = 0 \<and> vc_sum_of_demands vc = 0 \<and> 0 \<le> vc_sum_of_priorities vc
     \<and> (\<forall>e \<in> set (vc_entries vc). 1 \<le> be_demand e \<and> 0 \<le> f32_val (be_priority e))"

text \<open>The jobs with their demands capped at what a job can get at most.\<close>

definition capped :: "int \<Rightarrow> int \<Rightarrow> int \<times> int \<times> float32 \<Rightarrow> int \<times> int \<times> float32" where
  "capped av n = (\<lambda>(j, d, p). (j, min d (av - n + 1), p))"

context rounding
begin

lemma collect_entries_collected:
  "collect_entries rnd evs vc = Inr vc' \<Longrightarrow> collected vc \<Longrightarrow> collected vc'"
proof (induction evs arbitrary: vc)
  case (Cons je evs)
  obtain j ev where je: "je = (j, ev)" by force
  let ?e = "BalancingEntry (ev_jobId ev) (ev_demand ev) (ev_priority ev)"
  let ?vc = "vc\<lparr>vc_entries := vc_entries vc @ [?e],
                 vc_sum_of_priorities := rnd (vc_sum_of_priorities vc + f32_val (ev_priority ev))\<rparr>"
  show ?case
  proof (cases "ev_demand ev = 0")
    case True
    let ?zero = "vc\<lparr>vc_zero_entries := vc_zero_entries vc @ [?e]\<rparr>"
    have "collect_entries rnd evs ?zero = Inr vc'" using Cons.prems(1) True by (simp add: je Let_def)
    moreover have "collected ?zero" using Cons.prems(2) by (simp add: collected_def)
    ultimately show ?thesis by (rule Cons.IH)
  next
    case False
    then have "collect_entries rnd evs ?vc = Inr vc'" "0 < ev_demand ev" "0 \<le> f32_val (ev_priority ev)"
      using Cons.prems(1) by (auto simp: je Let_def f32_less_def)
    moreover have "collected ?vc"
      using Cons.prems(2) calculation(2,3) by (auto simp: collected_def BalancingEntry_def intro: rnd_nonneg)
    ultimately show ?thesis using Cons.IH by blast
  qed
qed auto

lemma constructor_collected: "VolumeCalculator rnd rndf events lf n = Inr vc \<Longrightarrow> collected vc"
proof -
  assume "VolumeCalculator rnd rndf events lf n = Inr vc"
  then obtain vc0 vc1 av where c: "collect_entries rnd (em_map events) vc0 = Inr vc1"
    "vc = vc1\<lparr>vc_available_volume := av\<rparr>" "vc_entries vc0 = []" "vc_num_dismissed_jobs vc0 = 0"
    "vc_sum_of_demands vc0 = 0" "vc_sum_of_priorities vc0 = 0"
    unfolding VolumeCalculator_def res_bind_eq_Inr_iff by force
  then have "collected vc1" using collect_entries_collected [OF c(1)] by (simp add: collected_def)
  then show ?thesis using c(2) by (simp add: collected_def)
qed

lemma calculateResult_correct:
  assumes col: "collected vc" and av: "int (length (vc_entries vc)) < vc_available_volume vc"
    and ret: "calculateResult rnd rndf vc = Some (Inr vc')"
  defines "cap \<equiv> image_mset (capped (vc_available_volume vc) (int (length (vc_entries vc))) \<circ> view) (mset (vc_entries vc))"
  shows "balanced (min (vc_available_volume vc) (sum_mset (image_mset (fst \<circ> snd) cap))) cap vc'"
proof -
  let ?av = "vc_available_volume vc" and ?n = "int (length (vc_entries vc))" and ?sp = "vc_sum_of_priorities vc"
  let ?es = "sort_entries (vc_entries vc)"
  let ?jobs = "map (with_fair_share rnd ?sp ?av ?n) ?es"
  have sorted: "sortRemainingEntries vc = vc\<lparr>vc_entries := ?es\<rparr>"
    using col by (simp add: sortRemainingEntries_def collected_def)
  have len: "length ?es = length (vc_entries vc)" using sort_entries_mset by (metis size_mset)
  obtain jobs mn mx cm sd where loop: "fair_share_loop rnd ?sp ?av ?n ?es (of_int INT_MAX, 0, 0, 0) =
      Inr (jobs, mn, mx, cm, sd)"
    using av ret col len by (auto simp: calculateResult_def sorted computeFairShares_def collected_def
        res_bind_eq_Inr_iff split: sum.splits)
  note sp = fair_share_loop_spec [OF loop]
  have fs: "0 \<le> be_fairShare (with_fair_share rnd ?sp ?av ?n e)" if "e \<in> set ?es" for e
  proof -
    have "0 \<le> f32_val (be_priority e) / ?sp" using col that by (simp add: collected_def sort_entries_set)
    then show ?thesis using av by (simp add: rnd_nonneg)
  qed
  have cm: "0 \<le> cm" "0 \<le> mn" using fair_share_center [OF loop] fs by auto
  define vc1 where "vc1 = vc\<lparr>vc_entries := ?jobs, vc_min_multiplier := mn,
    vc_max_multiplier := rnd (mx + EPSILON rnd), vc_center_of_mass := rnd (cm / of_nat (length ?jobs)),
    vc_sum_of_demands := sd\<rparr>"
  have cfs: "computeFairShares rnd (sortRemainingEntries vc) = Inr vc1"
    using loop sp len col by (simp add: computeFairShares_def sorted vc1_def collected_def)
  have views: "mset (map view ?jobs) = cap"
  proof -
    have "view (with_fair_share rnd ?sp ?av ?n e) = (capped ?av ?n \<circ> view) e" for e
      by (simp add: view_def capped_def with_fair_share_def)
    then show ?thesis
      unfolding cap_def sort_entries_mset [of "vc_entries vc", symmetric] by (simp add: o_def image_mset.compositionality)
  qed
  have sd: "sd = total be_demand ?jobs" using sp by simp
  have dem: "sum_mset (image_mset (fst \<circ> snd) cap) = sd"
    unfolding views [symmetric] sd by (simp add: sum_mset_sum_list view_def o_def flip: mset_map)
  show ?thesis
  proof (cases "sd \<le> ?av")
    case True
    then have "vc' = vc1\<lparr>vc_entries := map (\<lambda>job. job\<lparr>be_volume := be_demand job\<rparr>) ?jobs\<rparr>"
      using ret av cfs by (simp add: calculateResult_def vc1_def)
    moreover have "\<forall>e \<in> set ?jobs. 1 \<le> be_demand e" using sp by (auto simp: share_ok_def)
    ultimately show ?thesis using True dem views sd
      by (auto simp: balanced_def in_range_def o_def)
  next
    case False
    then have srch: "search rnd rndf (vc1\<lparr>vc_prev_lb := -1, vc_prev_ub := -1, vc_num_dismissed_jobs := 0,
        vc_base_utilization := 0, vc_max_volume_diff := 0\<rparr>) mn (rnd (mx + EPSILON rnd)) 1 (-1)
        (?av - ?n) = Some (Inr vc')" (is "search rnd rndf ?vc2 _ _ _ _ _ = _")
      using ret av cfs len
      by (simp add: calculateResult_def vc1_def calculateFunctionOptimizationAssignments_def)
    have "\<not> rnd (mx + EPSILON rnd) = -1"
    proof -
      have "0 \<le> mx + EPSILON rnd" using sp rnd_nonneg [of "1 / 10 ^ 6"] by (simp add: EPSILON_def)
      then show ?thesis using rnd_nonneg by fastforce
    qed
    moreover have "searching rnd ?av 0 0 False False mn (rnd (mx + EPSILON rnd)) (?av - ?n) es
        \<and> mset (map view es) = mset (map view ?jobs)"
      if "bound_volumes rnd mn (rnd (mx + EPSILON rnd)) ?jobs = Inr es" for es
    proof -
      have "\<forall>e \<in> set ?jobs. share_ok rnd mn mx e \<and> 0 \<le> be_fairShare e" using sp fs by auto
      then show ?thesis
        using shares_start [OF _ cm(2) _ _ that, of ?av] av False sd len bound_volumes_spec [OF that] by simp
    qed
    moreover have "0 \<le> rnd (cm / of_nat (length ?jobs))" by (rule rnd_nonneg) (use cm in simp)
    ultimately have "loop_inv rnd ?vc2 mn (rnd (mx + EPSILON rnd)) 1 (-1) (?av - ?n)"
      using cm(2) by (simp add: loop_inv_def start_entries_def vc1_def)
    then have "balanced ?av (mset (map view ?jobs)) vc'"
      using search_correct [OF srch refl refl] by (simp add: vc1_def)
    then show ?thesis using views dem False by simp
  qed
qed

end

section \<open>Termination of the search\<close>

context discrete_rounding
begin

definition inside :: "rat \<Rightarrow> rat \<Rightarrow> rat set" where
  "inside l u = {x. l \<le> x \<and> x \<le> u \<and> rnd x = x}"

lemma inside_less:
  assumes "0 < l" "l \<le> u" "rnd l = l" "rnd u = u" "l \<le> l'" "u' \<le> u" "l' \<noteq> l \<or> u' \<noteq> u"
  shows "card (inside l' u') < card (inside l u)"
proof (rule psubset_card_mono)
  show "finite (inside l u)" unfolding inside_def by (rule rnd_finite [OF assms(1)])
  have "l \<in> inside l u" "u \<in> inside l u" "l \<notin> inside l' u' \<or> u \<notin> inside l' u'"
    using assms by (auto simp: inside_def)
  moreover have "inside l' u' \<subseteq> inside l u" using assms by (auto simp: inside_def)
  ultimately show "inside l' u' \<subset> inside l u" by blast
qed

text \<open>One iteration either ends the search or continues it in a strictly smaller interval or in a
  state that ends it.\<close>

lemma search_continues:
  assumes inv: "loop_inv rnd vc l u m be eal"
  obtains "\<exists>r. search rnd rndf vc l u m be eal = Some r"
  | excess vc1 l' u' be' eal' where "excess \<noteq> 0"
    "search rnd rndf vc l u m be eal =
       search rnd rndf vc1 l' u' (next_mid rnd m excess (vc_center_of_mass vc1) l' u') be' eal'"
    "loop_inv rnd vc1 l' u' (next_mid rnd m excess (vc_center_of_mass vc1) l' u') be' eal'"
    "vc_center_of_mass vc1 = vc_center_of_mass vc" "l' \<noteq> l \<or> u' \<noteq> u"
    "excess > 0 \<and> l' = m \<and> u' = u \<and> m < u \<or> excess < 0 \<and> l' = l \<and> u' = m \<and> l < m" "l \<le> u"
proof (cases "calculateExcessVolumeOrNegative rnd rndf m l u vc")
  case (Inl e)
  then have "search rnd rndf vc l u m be eal = Some (Inl e)" by (subst search_step) simp
  then show ?thesis using that(1) by blast
next
  case (Inr p)
  then obtain excess vc1 where c: "calculateExcessVolumeOrNegative rnd rndf m l u vc = Inr (excess, vc1)"
    by (cases p) auto
  note st = loop_inv_start [OF inv c]
  have m: "0 \<le> m" "be \<noteq> 0" using inv by (auto simp: loop_inv_def)
  let ?l = "if excess > 0 then m else l" and ?u = "if excess < 0 then m else u"
  let ?be = "if be = -1 \<or> \<bar>excess\<bar> < \<bar>be\<bar> then excess else be"
  let ?eal = "if excess > 0 then excess else eal"
  let ?m = "next_mid rnd m excess (vc_center_of_mass vc1) ?l ?u"
  show ?thesis
  proof (cases "excess = 0 \<or> vc_max_volume_diff vc1 \<le> 1")
    case True
    then have "\<exists>r. search rnd rndf vc l u m be eal = Some r"
      using m by (subst search_step) (auto simp: c)
    then show ?thesis using that(1) by blast
  next
    case False
    then have step: "search rnd rndf vc l u m be eal = search rnd rndf vc1 ?l ?u ?m ?be ?eal"
      by (subst search_step) (simp add: c split del: if_split)
    show ?thesis
    proof (cases "stuck ?l ?u vc1")
      case True
      then show ?thesis using step stuck_search [OF True] that(1) by auto
    next
      case ns: False
      have "loop_inv rnd vc1 ?l ?u ?m ?be ?eal" using loop_inv_next [OF inv c] ns False by simp
      moreover have "?l \<noteq> l \<or> ?u \<noteq> u" using ns next_stuck [OF st(1) _ st(5,3)] False by auto
      moreover have "excess > 0 \<and> ?l = m \<and> ?u = u \<and> m < u \<or> excess < 0 \<and> ?l = l \<and> ?u = m \<and> l < m"
        using False evaluated_side [OF st(1,5,6) m(1) st(7)] by auto
      ultimately show ?thesis using that(2) [OF _ step _ st(4)] st(6) False by blast
    qed
  qed
qed

lemma search_terminates_inside:
  assumes "loop_inv rnd vc l u m be eal" "0 < l" "rnd l = l" "rnd u = u" "\<not> (l < 1 \<and> 1 < u)"
    and "l \<le> m" "m \<le> u" "rnd m = m"
  shows "\<exists>r. search rnd rndf vc l u m be eal = Some r"
  using assms
proof (induction "card (inside l u)" arbitrary: vc l u m be eal rule: less_induct)
  case less
  show ?case
  proof (rule search_continues [OF less.prems(1), of rndf], goal_cases)
    case (2 excess vc1 l' u' be' eal')
    have mid: "next_mid rnd m excess (vc_center_of_mass vc1) l' u' = rnd (rnd (l' + u') / 2)"
      using 2(5,6) less.prems(5-7) by (auto simp: next_mid_def)
    have new: "0 < l'" "l' \<le> u'" "rnd l' = l'" "rnd u' = u'" "\<not> (l' < 1 \<and> 1 < u')" "l \<le> l'" "u' \<le> u"
      using 2(6,7) less.prems by auto
    have "card (inside l' u') < card (inside l u)"
      using inside_less [OF less.prems(2) 2(7) less.prems(3,4) new(6,7) 2(5)] .
    moreover have "rnd (rnd (rnd (l' + u') / 2)) = rnd (rnd (l' + u') / 2)"
      using new rnd_nonneg by (intro rnd_idem) auto
    ultimately show ?thesis
      using less.hyps [OF _ 2(3) new(1,3,4,5)] midpoint_between [OF less_imp_le [OF new(1)] new(2-4)] 2(2) mid
      by simp
  qed auto
qed

lemma search_terminates:
  assumes "loop_inv rnd vc l u 1 be eal" "0 < l" "rnd l = l" "rnd u = u"
    and cm: "rnd (vc_center_of_mass vc) = vc_center_of_mass vc" "0 < vc_center_of_mass vc"
  shows "\<exists>r. search rnd rndf vc l u 1 be eal = Some r"
proof (rule search_continues [OF assms(1), of rndf], goal_cases)
  case first: (2 e1 vc1 l1 u1 be1 eal1)
  have one: "rnd 1 = 1" using rnd_int [of 1] by simp
  have l1: "0 < l1" "rnd l1 = l1" "rnd u1 = u1" "l1 \<le> u1" "\<not> (l1 < 1 \<and> 1 < u1)"
    using first(6) assms one by auto
  have mid: "rnd (rnd (rnd (l + u) / 2)) = rnd (rnd (l + u) / 2)" if "0 \<le> l" "0 \<le> u" for l u
    using that rnd_nonneg by (intro rnd_idem) auto
  let ?m1 = "next_mid rnd 1 e1 (vc_center_of_mass vc1) l1 u1"
  show ?thesis
  proof (cases "?m1 = rnd (rnd (l1 + u1) / 2)")
    case True
    then show ?thesis
      using search_terminates_inside [OF first(3) l1(1-3,5)] midpoint_between [of l1 u1] l1 first(2) mid [of l1 u1]
      by simp
  next
    case False
    then have m1: "?m1 = vc_center_of_mass vc1" "e1 > 0 \<and> 1 < ?m1 \<or> e1 < 0 \<and> ?m1 < 1"
      by (auto simp: next_mid_def split: if_splits)
    show ?thesis
    proof (rule search_continues [OF first(3), of rndf], goal_cases)
      case (2 e2 vc2 l2 u2 be2 eal2)
      have m2: "next_mid rnd ?m1 e2 (vc_center_of_mass vc2) l2 u2 = rnd (rnd (l2 + u2) / 2)"
        using m1(2) by (auto simp: next_mid_def)
      have l2: "0 < l2" "rnd l2 = l2" "rnd u2 = u2" "l2 \<le> u2" "\<not> (l2 < 1 \<and> 1 < u2)"
        using 2(6) l1 m1 first(4,6) cm by auto
      have "\<exists>r. search rnd rndf vc2 l2 u2 (rnd (rnd (l2 + u2) / 2)) be2 eal2 = Some r"
        using search_terminates_inside [OF 2(3) [unfolded m2] l2(1-3,5)] midpoint_between [of l2 u2] l2
          mid [of l2 u2] by simp
      then show ?thesis using first(2) 2(2) m2 by simp
    qed (use first(2) in auto)
  qed
qed auto

end

text \<open>With positive priorities all fair shares are positive.\<close>

definition positive :: "volume_calculator \<Rightarrow> bool" where
  "positive vc \<longleftrightarrow> (vc_entries vc \<noteq> [] \<longrightarrow> 0 < vc_sum_of_priorities vc)
     \<and> (\<forall>e \<in> set (vc_entries vc). 0 < f32_val (be_priority e))"

context discrete_rounding
begin

lemma collect_entries_positive:
  assumes "collect_entries rnd evs vc = Inr vc'" "collected vc" "positive vc"
  shows "positive vc'"
  using assms
proof (induction evs arbitrary: vc)
  case (Cons je evs)
  obtain j ev where je: "je = (j, ev)" by force
  let ?e = "BalancingEntry (ev_jobId ev) (ev_demand ev) (ev_priority ev)"
  let ?vc = "vc\<lparr>vc_entries := vc_entries vc @ [?e],
                 vc_sum_of_priorities := rnd (vc_sum_of_priorities vc + f32_val (ev_priority ev))\<rparr>"
  let ?zero = "vc\<lparr>vc_zero_entries := vc_zero_entries vc @ [?e]\<rparr>"
  show ?case
  proof (cases "ev_demand ev = 0")
    case True
    then have "collect_entries rnd evs ?zero = Inr vc'" using Cons.prems(1) by (simp add: je Let_def)
    moreover have "collected ?zero" "positive ?zero" using Cons.prems(2,3) by (simp_all add: collected_def positive_def)
    ultimately show ?thesis by (rule Cons.IH)
  next
    case False
    then have c: "collect_entries rnd evs ?vc = Inr vc'" "0 < ev_demand ev" "0 < f32_val (ev_priority ev)"
      using Cons.prems(1) by (auto simp: je Let_def f32_less_def)
    have "0 \<le> vc_sum_of_priorities vc" using Cons.prems(2) by (simp add: collected_def)
    then have "0 < rnd (vc_sum_of_priorities vc + f32_val (ev_priority ev))" using c(3) by (intro rnd_pos) simp
    then have "positive ?vc" using Cons.prems(3) c(3) by (auto simp: positive_def BalancingEntry_def)
    moreover have "collected ?vc"
      using Cons.prems(2) c(2,3) by (auto simp: collected_def BalancingEntry_def intro: rnd_nonneg)
    ultimately show ?thesis using Cons.IH [OF c(1)] by blast
  qed
qed auto

lemma constructor_positive: "VolumeCalculator rnd rndf events lf n = Inr vc \<Longrightarrow> positive vc"
proof -
  assume "VolumeCalculator rnd rndf events lf n = Inr vc"
  then obtain vc0 vc1 av where c: "collect_entries rnd (em_map events) vc0 = Inr vc1"
    "vc = vc1\<lparr>vc_available_volume := av\<rparr>" "vc_entries vc0 = []" "vc_num_dismissed_jobs vc0 = 0"
    "vc_sum_of_demands vc0 = 0" "vc_sum_of_priorities vc0 = 0"
    unfolding VolumeCalculator_def res_bind_eq_Inr_iff by force
  then have "positive vc1" using collect_entries_positive [OF c(1)] by (simp add: collected_def positive_def)
  then show ?thesis using c(2) by (simp add: positive_def)
qed

lemma fair_share_positive:
  assumes "fair_share_loop rnd sp av n jobs (mn, mx, cm, sd) = Inr (jobs', mn', mx', cm', sd')"
    and "0 \<le> cm" "0 < mn" "rnd mn = mn" "\<forall>e \<in> set jobs. 0 < be_fairShare (with_fair_share rnd sp av n e)"
  shows "0 < mn' \<and> rnd mn' = mn' \<and> (jobs \<noteq> [] \<or> 0 < cm \<longrightarrow> 0 < cm')"
  using assms
proof (induction jobs arbitrary: mn mx cm sd jobs')
  case (Cons j jobs)
  let ?j = "with_fair_share rnd sp av n j"
  let ?lb = "rnd (1 / be_fairShare ?j)" and ?ub = "rnd (of_int (be_demand ?j) / be_fairShare ?j)"
  obtain js where js: "fair_share_loop rnd sp av n jobs
      (min mn ?lb, max mx ?ub, rnd (cm + rnd (rnd (?lb + ?ub) / 2)), sd + be_demand ?j) = Inr (js, mn', mx', cm', sd')"
    and pos: "be_demand ?j > 0"
    using Cons.prems(1)
    by (auto simp: Let_def res_bind_eq_Inr_iff getFairShareMultiplierLowerBound_def
        getFairShareMultiplierUpperBound_def simp del: with_fair_share_simps)
  have fs: "0 < be_fairShare ?j" using Cons.prems(5) by simp
  have lb: "0 < ?lb" by (rule rnd_pos) (use fs in simp)
  have "0 < ?ub" by (rule rnd_pos) (use fs pos in simp)
  then have "0 < rnd (rnd (?lb + ?ub) / 2)"
    using lb rnd_pos [of "?lb + ?ub"] by (intro rnd_pos) (simp only: add_pos_pos half_gt_zero)
  then have cm: "0 < rnd (cm + rnd (rnd (?lb + ?ub) / 2))"
    by (rule rnd_pos [OF add_nonneg_pos [OF Cons.prems(2)]])
  have "rnd ?lb = ?lb" by (rule rnd_idem) (use fs in simp)
  then have "rnd (min mn ?lb) = min mn ?lb" "0 < min mn ?lb"
    using lb Cons.prems(3,4) by (auto simp: min_def simp del: with_fair_share_simps)
  then show ?case using Cons.IH [OF js less_imp_le [OF cm]] cm Cons.prems(5) by simp
qed auto

lemma calculateResult_terminates:
  assumes col: "collected vc" "positive vc"
  shows "\<exists>r. calculateResult rnd rndf vc = Some r"
proof (cases "vc_available_volume vc \<le> int (length (vc_entries vc))")
  case True
  then show ?thesis by (simp add: calculateResult_def)
next
  case av: False
  let ?av = "vc_available_volume vc" and ?n = "int (length (vc_entries vc))" and ?sp = "vc_sum_of_priorities vc"
  let ?es = "sort_entries (vc_entries vc)"
  let ?jobs = "map (with_fair_share rnd ?sp ?av ?n) ?es"
  have sorted: "sortRemainingEntries vc = vc\<lparr>vc_entries := ?es\<rparr>"
    using col by (simp add: sortRemainingEntries_def collected_def)
  have len: "length ?es = length (vc_entries vc)" using sort_entries_mset by (metis size_mset)
  show ?thesis
  proof (cases "fair_share_loop rnd ?sp ?av ?n ?es (of_int INT_MAX, 0, 0, 0)")
    case (Inl e)
    then show ?thesis using av col len by (simp add: calculateResult_def sorted computeFairShares_def collected_def)
  next
    case (Inr p)
    then obtain jobs mn mx cm sd where loop: "fair_share_loop rnd ?sp ?av ?n ?es (of_int INT_MAX, 0, 0, 0) =
        Inr (jobs, mn, mx, cm, sd)" by (cases p) auto
    note sp = fair_share_loop_spec [OF loop]
    have fs: "0 < be_fairShare (with_fair_share rnd ?sp ?av ?n e)" if "e \<in> set ?es" for e
    proof -
      have "0 < f32_val (be_priority e) / ?sp" using col that by (auto simp: positive_def sort_entries_set)
      then show ?thesis using av by (auto intro!: rnd_pos mult_pos_pos)
    qed
    have imax: "rnd (of_int INT_MAX) = of_int INT_MAX" by (rule rnd_int) simp_all
    then have mn: "0 < mn" "rnd mn = mn" "?es \<noteq> [] \<Longrightarrow> 0 < cm"
      using fair_share_positive [OF loop] fs by auto
    have cm0: "0 \<le> cm" using fair_share_center [OF loop] fs by (force intro: less_imp_le)
    define vc1 where "vc1 = vc\<lparr>vc_entries := ?jobs, vc_min_multiplier := mn,
      vc_max_multiplier := rnd (mx + EPSILON rnd), vc_center_of_mass := rnd (cm / of_nat (length ?jobs)),
      vc_sum_of_demands := sd\<rparr>"
    have cfs: "computeFairShares rnd (sortRemainingEntries vc) = Inr vc1"
      using loop sp len col by (simp add: computeFairShares_def sorted vc1_def collected_def)
    show ?thesis
    proof (cases "sd \<le> ?av")
      case True
      then show ?thesis using av cfs by (simp add: calculateResult_def vc1_def)
    next
      case False
      let ?u = "rnd (mx + EPSILON rnd)"
      let ?vc2 = "vc1\<lparr>vc_prev_lb := -1, vc_prev_ub := -1, vc_num_dismissed_jobs := 0,
        vc_base_utilization := 0, vc_max_volume_diff := 0\<rparr>"
      have "?es \<noteq> []" using False sp av by auto
      then have c: "0 < cm / of_nat (length ?jobs)" using mn(3) by simp
      have mx0: "0 \<le> mx + EPSILON rnd" using sp rnd_nonneg [of "1 / 10 ^ 6"] by (simp add: EPSILON_def)
      have inv: "loop_inv rnd ?vc2 mn ?u 1 (-1) (?av - ?n)"
      proof -
        have "?u \<noteq> -1" using rnd_nonneg [OF mx0] by linarith
        moreover have "searching rnd ?av 0 0 False False mn ?u (?av - ?n) es
            \<and> mset (map view es) = mset (map view ?jobs)"
          if "bound_volumes rnd mn ?u ?jobs = Inr es" for es
        proof -
          have "\<forall>e \<in> set ?jobs. share_ok rnd mn mx e \<and> 0 \<le> be_fairShare e" using sp fs by (auto intro: less_imp_le)
          then show ?thesis
            using shares_start [OF _ less_imp_le [OF mn(1)] _ _ that, of ?av] av False sp len
              bound_volumes_spec [OF that] by simp
        qed
        ultimately show ?thesis
          using mn(1) rnd_pos [OF c] by (simp add: loop_inv_def start_entries_def vc1_def less_imp_le)
      qed
      have "\<exists>r. search rnd rndf ?vc2 mn ?u 1 (-1) (?av - ?n) = Some r"
        using search_terminates [OF inv mn(1,2)] rnd_idem [OF mx0] rnd_idem [OF less_imp_le [OF c]] rnd_pos [OF c]
        by (simp add: vc1_def)
      then show ?thesis using av cfs False len
        by (simp add: calculateResult_def vc1_def calculateFunctionOptimizationAssignments_def)
    qed
  qed
qed

end

section \<open>The computed volumes\<close>

text \<open>
  Property (C2): whatever the events, the load factor and the number of workers are, if there are more
  available workers than jobs and the computation with IEEE double arithmetic returns, then every job
  gets at least one worker and at most its demand (capped at what is reachable), no job is lost or
  doubled or has its demand or priority changed, and the volumes sum up to exactly the number of
  available workers, or to the sum of the capped demands if these are smaller.
\<close>
theorem volumes_use_all_workers:
  assumes "VolumeCalculator round53 round24 events loadFactor numWorkers = Inr vc"
    and "int (length (vc_entries vc)) < vc_available_volume vc"
    and "calculateResult round53 round24 vc = Some (Inr vc')"
  defines "cap \<equiv> \<lambda>e. min (be_demand e) (vc_available_volume vc - int (length (vc_entries vc)) + 1)"
  shows "sum_list (map be_volume (vc_entries vc')) = min (vc_available_volume vc) (sum_list (map cap (vc_entries vc)))
    \<and> (\<forall>e \<in> set (vc_entries vc'). 1 \<le> be_volume e \<and> be_volume e \<le> be_demand e)
    \<and> mset (map (\<lambda>e. (be_jobId e, be_demand e, be_priority e)) (vc_entries vc')) =
      mset (map (\<lambda>e. (be_jobId e, cap e, be_priority e)) (vc_entries vc))"
proof -
  have b: "balanced (min (vc_available_volume vc) (sum_list (map cap (vc_entries vc))))
    (mset (map (\<lambda>e. (be_jobId e, cap e, be_priority e)) (vc_entries vc))) vc'"
    using double.calculateResult_correct [OF double.constructor_collected [OF assms(1)] assms(2,3)]
    by (simp add: cap_def view_def capped_def o_def image_mset.compositionality sum_mset_sum_list flip: mset_map)
  then have "sum_list (map be_volume (vc_entries vc')) = min (vc_available_volume vc) (sum_list (map cap (vc_entries vc)))"
    "\<forall>e \<in> set (vc_entries vc'). 1 \<le> be_volume e \<and> be_volume e \<le> be_demand e"
    by (auto simp: balanced_def in_range_def)
  then show ?thesis using b by (simp add: balanced_def view_def [abs_def])
qed

text \<open>
  Property (C15): the computation always terminates. Carried out with IEEE double arithmetic, the root
  search over the multiplier ends for every set of events, because every iteration leaves a strictly
  smaller set of doubles between the bounds or ends the search.
\<close>
theorem volume_computation_terminates:
  assumes "VolumeCalculator round53 round24 events loadFactor numWorkers = Inr vc"
  shows "\<exists>r. calculateResult round53 round24 vc = Some r"
  using double.calculateResult_terminates [OF double.constructor_collected [OF assms]
      double.constructor_positive [OF assms]] .

text \<open>Two jobs of equal priority that compete for four workers.\<close>

definition example_entry :: "int \<Rightarrow> balancing_entry" where
  "example_entry j = BalancingEntry j 4 f32_one"

definition example_calculator :: volume_calculator where
  "example_calculator =
     \<lparr>vc_entries = [example_entry 1, example_entry 2], vc_zero_entries = [], vc_epoch = 1,
      vc_num_workers = 4, vc_sum_of_priorities = 2, vc_available_volume = 4, vc_sum_of_demands = 0,
      vc_min_multiplier = 0, vc_max_multiplier = 0, vc_center_of_mass = 0, vc_prev_lb = 0,
      vc_prev_ub = 0, vc_num_dismissed_jobs = 0, vc_base_utilization = 0, vc_max_volume_diff = 0\<rparr>"

definition example_events :: event_map where
  "example_events =
     \<lparr>em_global_epoch = 1, em_map = map (\<lambda>j. (j, \<lparr>ev_jobId = j, ev_epoch = 1, ev_demand = 4,
        ev_priority = f32_one\<rparr>)) [1, 2]\<rparr>"

lemma example_constructed:
  "VolumeCalculator round53 round24 example_events f32_one 4 = Inr example_calculator"
  by code_simp

definition example_shared :: "int \<Rightarrow> balancing_entry" where
  "example_shared j = (example_entry j)\<lparr>be_demand := 3, be_fairShare := 2\<rparr>"

lemma example_sort: "sort_entries [example_entry 1, example_entry 2] = [example_entry 2, example_entry 1]"
  by code_simp

lemma example_shares:
  "fair_share_loop round53 2 4 2 [example_entry 2, example_entry 1] (of_int INT_MAX, 0, 0, 0) =
     Inr ([example_shared 2, example_shared 1], 1 / 2, 3 / 2, 2, 6)"
  by code_simp

lemma example_volumes:
  "getVolume round53 (example_shared j) (1 / 2) = Inr 1"
  "getVolume round53 (example_shared j) 1 = Inr 2"
  "getVolume round53 (example_shared j) (round53 (3 / 2 + EPSILON round53)) = Inr 3"
proof -
  have "getVolume round53 (example_shared j) m = getVolume round53 (example_shared 1) m" for m
    by (rule getVolume_cong) (simp_all add: example_shared_def)
  moreover have "getVolume round53 (example_shared 1) (1 / 2) = Inr 1" by code_simp
  moreover have "getVolume round53 (example_shared 1) 1 = Inr 2" by code_simp
  moreover have "getVolume round53 (example_shared 1) (round53 (3 / 2 + EPSILON round53)) = Inr 3" by code_simp
  ultimately show "getVolume round53 (example_shared j) (1 / 2) = Inr 1"
    "getVolume round53 (example_shared j) 1 = Inr 2"
    "getVolume round53 (example_shared j) (round53 (3 / 2 + EPSILON round53)) = Inr 3" by simp_all
qed

lemma example_result:
  "\<exists>vc'. calculateResult round53 round24 example_calculator = Some (Inr vc')"
proof -
  let ?u = "round53 (3 / 2 + EPSILON round53)"
  have u: "?u \<noteq> -1" by code_simp
  let ?vc = "example_calculator\<lparr>vc_entries := [example_shared 2, example_shared 1], vc_min_multiplier := 1 / 2,
    vc_max_multiplier := ?u, vc_center_of_mass := round53 (2 / of_nat 2), vc_sum_of_demands := 6\<rparr>"
  have fair: "computeFairShares round53 (sortRemainingEntries example_calculator) = Inr ?vc"
    using example_shares by (simp add: computeFairShares_def sortRemainingEntries_def example_calculator_def example_sort)
  let ?g = "\<lambda>j. (example_shared j)\<lparr>be_volumeLower := 1, be_volumeUpper := 3\<rparr>"
  have start: "bound_volumes round53 (1 / 2) ?u [example_shared 2, example_shared 1] = Inr [?g 2, ?g 1]"
    by (simp add: example_volumes)
  have "\<exists>vc'. search round53 round24 (?vc\<lparr>vc_prev_lb := -1, vc_prev_ub := -1, vc_num_dismissed_jobs := 0,
      vc_base_utilization := 0, vc_max_volume_diff := 0\<rparr>) (1 / 2) ?u 1 (-1) 2 = Some (Inr vc')"
    using start u by (subst search_step)
      (simp add: calculateExcessVolumeOrNegative_def reuse_bounds_def example_volumes example_calculator_def
        upt_rec Let_def del: bound_volumes.simps)
  then show ?thesis using fair
    by (simp add: calculateResult_def calculateFunctionOptimizationAssignments_def example_calculator_def)
qed

theorem volume_computation_terminates_witness:
  "\<exists>r. calculateResult round53 round24 example_calculator = Some r"
  by (rule volume_computation_terminates [OF example_constructed])

theorem volumes_use_all_workers_witness:
  "\<exists>vc'. VolumeCalculator round53 round24 example_events f32_one 4 = Inr example_calculator
    \<and> calculateResult round53 round24 example_calculator = Some (Inr vc')
    \<and> sum_list (map be_volume (vc_entries vc')) = 4"
proof -
  obtain vc' where r: "calculateResult round53 round24 example_calculator = Some (Inr vc')"
    using example_result by blast
  have "int (length (vc_entries example_calculator)) < vc_available_volume example_calculator"
    by (simp add: example_calculator_def)
  from volumes_use_all_workers [OF example_constructed this r]
  have "sum_list (map be_volume (vc_entries vc')) = 4"
    by (simp add: example_calculator_def example_entry_def BalancingEntry_def)
  with r example_constructed show ?thesis by blast
qed

section \<open>Overflow in \<open>getVolume\<close>\<close>


end
