(* ===== verification/Balancer.thy ===== *)
theory Balancer
  imports Volume_Calculator
begin

text \<open>
  The event-driven balancer of one process (class \<open>EventDrivenBalancer\<close> in
  src/src/balancing/event_driven_balancer.cpp and .hpp, with the template \<open>PeriodicEvent\<close> of
  src/src/util/periodic_event.hpp): events of local jobs are collected, reduced along a binomial tree
  to the root, broadcast from there, and digested into a new balancing result by every process. The
  messages that are sent and the callbacks that are invoked are returned in order. Within one call the
  clock is read once (\<open>now\<close>); log output and the statistics in the destructor are left out.
\<close>

section \<open>The reduction tree\<close>

partial_function (option) parent_loop :: "int \<Rightarrow> int \<Rightarrow> int option" where
  "parent_loop myRank expo =
     (if c_mod myRank expo = c_div expo 2 \<and> myRank - c_div expo 2 \<ge> 0 then Some (myRank - c_div expo 2)
      else parent_loop myRank (expo * 2))"

partial_function (option) exp_loop :: "int \<Rightarrow> int \<Rightarrow> int option" where
  "exp_loop commSize expo = (if expo < commSize then exp_loop commSize (expo * 2) else Some expo)"

partial_function (option) child_loop :: "int \<Rightarrow> int \<Rightarrow> int \<Rightarrow> int list \<Rightarrow> int list option" where
  "child_loop myRank commSize expo children =
     (let child = myRank + c_div expo 2;
          children = (if c_mod myRank expo = 0 \<and> child < commSize then children @ [child] else children);
          expo = c_div expo 2
      in if expo = 1 then Some children else child_loop myRank commSize expo children)"

declare parent_loop.simps [code] exp_loop.simps [code] child_loop.simps [code]

section \<open>State\<close>

text \<open>The unordered containers are sets and maps, \<open>std::pair\<close> and \<open>float\<close> values as in the code;
  \<open>blc_parent_rank\<close> is \<open>None\<close> while the member is not initialized, \<open>blc_done_callback\<close> tells whether
  the callback \<open>_balancing_done_callback\<close> is set, \<open>blc_load_factor\<close> is the parameter of that name.\<close>

record balancer =
  blc_size :: int
  blc_rank :: int
  blc_load_factor :: float32
  blc_states :: event_map
  blc_diffs :: event_map
  blc_last_event_time :: rat
  blc_balancing_epoch :: int
  blc_active_job_id :: int
  blc_local_jobs :: "int set"
  blc_job_root_epochs :: "int \<Rightarrow> int option"
  blc_job_volumes :: "int \<Rightarrow> int option"
  blc_balancing_latencies :: "int \<Rightarrow> rat list option"
  blc_past_balancing_latencies :: "rat list list"
  blc_pending_entries :: "int \<Rightarrow> (int \<times> rat) option"
  blc_root_rank :: int
  blc_parent_rank :: "int option"
  blc_child_ranks :: "int list"
  blc_done_callback :: bool

datatype blc_tag = MSG_REDUCE_DATA | MSG_BROADCAST_DATA

datatype blc_event =
    Blc_Send int blc_tag "byte list"
  | Volume_Update int int rat
  | Balancing_Done

type_synonym blc_result = "(balancer \<times> blc_event list) res"

text \<open>What the balancer reads of a job.\<close>

record job_view =
  jv_id :: int
  jv_is_root :: bool
  jv_priority :: float32

definition EventDrivenBalancer :: "rat \<Rightarrow> float32 \<Rightarrow> bool \<Rightarrow> int \<Rightarrow> int \<Rightarrow> balancer option" where
  "EventDrivenBalancer now loadFactor doneCallback commSize myRank =
     (let b = \<lparr>blc_size = commSize, blc_rank = myRank, blc_load_factor = loadFactor,
               blc_states = EventMap_empty, blc_diffs = EventMap_empty, blc_last_event_time = now,
               blc_balancing_epoch = 0, blc_active_job_id = -1, blc_local_jobs = {},
               blc_job_root_epochs = Map.empty, blc_job_volumes = Map.empty,
               blc_balancing_latencies = Map.empty, blc_past_balancing_latencies = [],
               blc_pending_entries = Map.empty, blc_root_rank = 0, blc_parent_rank = None,
               blc_child_ranks = [], blc_done_callback = doneCallback\<rparr>
      in if commSize = 1 then Some b
         else do {
           parent \<leftarrow> (if myRank = 0 then Some 0 else parent_loop myRank 2);
           expo \<leftarrow> exp_loop commSize 1;
           children \<leftarrow> child_loop myRank commSize expo [];
           Some (b\<lparr>blc_parent_rank := Some parent, blc_child_ranks := children\<rparr>)
         })"

definition blc_isRoot :: "int \<Rightarrow> balancer \<Rightarrow> bool" where
  "blc_isRoot rank b \<longleftrightarrow> rank = blc_root_rank b"

definition blc_isLeaf :: "int \<Rightarrow> bool" where
  "blc_isLeaf rank \<longleftrightarrow> c_mod rank 2 = 1"

definition getParentRank :: "balancer \<Rightarrow> int res" where
  "getParentRank b = (case blc_parent_rank b of None \<Rightarrow> Inl Undefined_behaviour | Some r \<Rightarrow> Inr r)"

definition hasVolume :: "int \<Rightarrow> balancer \<Rightarrow> bool" where
  "hasVolume jobId b \<longleftrightarrow> blc_job_volumes b jobId \<noteq> None"

definition blc_getVolume :: "int \<Rightarrow> balancer \<Rightarrow> int res" where
  "blc_getVolume jobId b = (case blc_job_volumes b jobId of None \<Rightarrow> Inl Aborted | Some v \<Rightarrow> Inr v)"

definition getGlobalEpoch :: "balancer \<Rightarrow> 64 word" where
  "getGlobalEpoch b = em_global_epoch (blc_states b)"

section \<open>The periodic event\<close>

definition period :: rat where
  "period = round24 (round24 (1 / 1000) * 10)"

definition ready :: "rat \<Rightarrow> balancer \<Rightarrow> bool \<times> balancer" where
  "ready time b =
     (if round24 (time - blc_last_event_time b) \<ge> period
      then (True, b\<lparr>blc_last_event_time := time\<rparr>) else (False, b))"

section \<open>Digesting a broadcast\<close>

definition add_latency :: "int \<Rightarrow> rat \<Rightarrow> balancer \<Rightarrow> balancer" where
  "add_latency jobId elapsed b =
     b\<lparr>blc_balancing_latencies := (blc_balancing_latencies b)
         (jobId \<mapsto> (case blc_balancing_latencies b jobId of None \<Rightarrow> [] | Some l \<Rightarrow> l) @ [elapsed])\<rparr>"

text \<open>The latency of the own active job's pending event, if the broadcast state answers it.\<close>

definition settle_pending :: "rat \<Rightarrow> int \<Rightarrow> balancer \<Rightarrow> (rat \<times> balancer) res" where
  "settle_pending now jobId b =
     (if jobId = blc_active_job_id b
      then (case blc_pending_entries b jobId of
              None \<Rightarrow> Inr (0, b)
            | Some (epoch, time) \<Rightarrow>
                (case em_get (blc_states b) jobId of
                   None \<Rightarrow> Inl Aborted
                 | Some ev \<Rightarrow>
                     if epoch = ev_epoch ev
                     then let elapsed = round24 (now - time)
                          in Inr (elapsed, (add_latency jobId elapsed b)
                                    \<lparr>blc_pending_entries := (blc_pending_entries b)(jobId := None)\<rparr>)
                     else Inr (0, b)))
      else Inr (0, b))"

fun volume_loop :: "rat \<Rightarrow> balancing_entry list \<Rightarrow> balancer \<Rightarrow> blc_event list \<Rightarrow> blc_result" where
  "volume_loop now [] b out = Inr (b, out)"
| "volume_loop now (entry # entries) b out =
     (let jobId = be_jobId entry;
          b = b\<lparr>blc_job_volumes := (blc_job_volumes b)(jobId \<mapsto> be_volume entry)\<rparr>
      in res_bind (settle_pending now jobId b) (\<lambda>(elapsed, b).
           volume_loop now entries b
             (out @ (if jobId \<in> blc_local_jobs b then [Volume_Update jobId (be_volume entry) elapsed] else []))))"

definition zero_updates :: "balancing_entry list \<Rightarrow> balancer \<Rightarrow> blc_event list" where
  "zero_updates entries b =
     map (\<lambda>e. Volume_Update (be_jobId e) 0 0) (filter (\<lambda>e. be_jobId e \<in> blc_local_jobs b) entries)"

definition computeBalancingResult :: "rat \<Rightarrow> balancer \<Rightarrow> blc_result" where
  "computeBalancingResult now b =
     (let b = b\<lparr>blc_job_volumes := Map.empty\<rparr> in
      if EventMap_isEmpty (blc_states b) then Inr (b, [])
      else
        res_bind (VolumeCalculator round53 round24 (blc_states b) (blc_load_factor b) (blc_size b)) (\<lambda>calc.
        res_bind (of_opt (calculateResult round53 round24 calc)) (\<lambda>r.
        res_bind r (\<lambda>calc.
        res_bind (volume_loop now (vc_entries calc) b []) (\<lambda>(b, out).
          Inr (b, out @ zero_updates (vc_zero_entries calc) b
                    @ (if blc_done_callback b then [Balancing_Done] else [])))))))"

text \<open>The \<open>size_t\<close> epoch of the data is converted to \<open>int\<close>.\<close>

definition digest :: "rat \<Rightarrow> event_map \<Rightarrow> balancer \<Rightarrow> blc_result" where
  "digest now data b =
     (let b = b\<lparr>blc_states := snd (updateBy (blc_states b) data),
                blc_balancing_epoch := sint (ucast (em_global_epoch data) :: 32 word)\<rparr>
      in res_bind (computeBalancingResult now b) (\<lambda>(b, out).
         res_bind (filterBy (blc_diffs b) (blc_states b)) (\<lambda>diffs.
           Inr (b\<lparr>blc_diffs := diffs, blc_states := snd (removeOldZeros (blc_states b))\<rparr>, out))))"

section \<open>Reduction and broadcast\<close>

definition handle_broadcast :: "rat \<Rightarrow> event_map \<Rightarrow> balancer \<Rightarrow> blc_result" where
  "handle_broadcast now data b =
     (let sent = (if \<not> blc_isLeaf (blc_rank b)
                  then map (\<lambda>child. Blc_Send child MSG_BROADCAST_DATA (EventMap_serialize data)) (blc_child_ranks b)
                  else [])
      in res_bind (digest now data b) (\<lambda>(b, out). Inr (b, sent @ out)))"

definition handleData :: "rat \<Rightarrow> event_map \<Rightarrow> blc_tag \<Rightarrow> bool \<Rightarrow> balancer \<Rightarrow> blc_result" where
  "handleData now data tag checkedReady b =
     (case tag of
        MSG_REDUCE_DATA \<Rightarrow>
          (let b = b\<lparr>blc_diffs := snd (updateBy (blc_diffs b) data)\<rparr>;
               (isReady, b) = (if checkedReady then (True, b) else ready now b)
           in if isReady
              then if blc_isRoot (blc_rank b) b
                   then let b = b\<lparr>blc_diffs := setGlobalEpoch (blc_balancing_epoch b + 1) (blc_diffs b)\<rparr>
                        in handle_broadcast now (blc_diffs b) b
                   else res_bind (getParentRank b) (\<lambda>parent.
                          Inr (b\<lparr>blc_diffs := EventMap_clear (blc_diffs b)\<rparr>,
                               [Blc_Send parent MSG_REDUCE_DATA (EventMap_serialize (blc_diffs b))]))
              else Inr (b, []))
      | MSG_BROADCAST_DATA \<Rightarrow> handle_broadcast now data b)"

definition blc_handle :: "rat \<Rightarrow> blc_tag \<Rightarrow> byte list \<Rightarrow> balancer \<Rightarrow> blc_result" where
  "blc_handle now tag recvData b =
     (case EventMap_deserialize recvData of
        None \<Rightarrow> Inl Undefined_behaviour
      | Some data \<Rightarrow> handleData now data tag False b)"

definition advance :: "rat \<Rightarrow> rat \<Rightarrow> balancer \<Rightarrow> blc_result" where
  "advance now time b =
     (if EventMap_isEmpty (blc_diffs b) then Inr (b, [])
      else let (isReady, b) = ready (if time < 0 then now else time) b
           in if \<not> isReady then Inr (b, [])
              else handleData now (blc_diffs b) MSG_REDUCE_DATA True
                     (b\<lparr>blc_diffs := EventMap_clear (blc_diffs b)\<rparr>))"

section \<open>Events of local jobs\<close>

definition pushEvent :: "rat \<Rightarrow> event \<Rightarrow> bool \<Rightarrow> balancer \<Rightarrow> blc_result" where
  "pushEvent now ev recordLatency b =
     (let (inserted, diffs) = insertIfNovel ev (blc_diffs b);
          b = b\<lparr>blc_diffs := diffs\<rparr>
      in if inserted
         then let b = (case blc_pending_entries b (ev_jobId ev) of
                         None \<Rightarrow> b
                       | Some (epoch, time) \<Rightarrow> add_latency (ev_jobId ev) (round24 (now - time)) b);
                  b = (if recordLatency
                       then b\<lparr>blc_pending_entries := (blc_pending_entries b)(ev_jobId ev \<mapsto> (ev_epoch ev, now))\<rparr>
                       else b)
              in advance now (-1) b
         else Inr (b, []))"

text \<open>The bit pattern of \<open>0.01\<close>, converted to \<open>float\<close>.\<close>

definition probe_priority :: float32 where
  "probe_priority = 0x3c23d70a"

definition onProbe :: "rat \<Rightarrow> int \<Rightarrow> balancer \<Rightarrow> blc_result" where
  "onProbe now jobId b =
     pushEvent now \<lparr>ev_jobId = jobId, ev_epoch = 1, ev_demand = 1, ev_priority = probe_priority\<rparr> False
       (b\<lparr>blc_local_jobs := insert jobId (blc_local_jobs b)\<rparr>)"

text \<open>\<open>++_job_root_epochs[id]\<close> after the assertion that the present epoch is positive.\<close>

definition next_event :: "rat \<Rightarrow> job_view \<Rightarrow> int \<Rightarrow> balancer \<Rightarrow> blc_result" where
  "next_event now job demand b =
     (case blc_job_root_epochs b (jv_id job) of
        None \<Rightarrow> Inl Aborted
      | Some e \<Rightarrow> check (e > 0)
          (pushEvent now \<lparr>ev_jobId = jv_id job, ev_epoch = e + 1, ev_demand = demand, ev_priority = jv_priority job\<rparr>
             True (b\<lparr>blc_job_root_epochs := (blc_job_root_epochs b)(jv_id job \<mapsto> e + 1)\<rparr>)))"

definition onDemandChange :: "rat \<Rightarrow> job_view \<Rightarrow> int \<Rightarrow> balancer \<Rightarrow> blc_result" where
  "onDemandChange now job demand b =
     check (blc_active_job_id b = jv_id job) (check (jv_is_root job) (next_event now job demand b))"

definition onActivate :: "rat \<Rightarrow> job_view \<Rightarrow> int \<Rightarrow> balancer \<Rightarrow> blc_result" where
  "onActivate now job demand b =
     (if blc_active_job_id b = jv_id job
      then if jv_is_root job then onDemandChange now job demand b else Inr (b, [])
      else
        let b = b\<lparr>blc_active_job_id := jv_id job, blc_local_jobs := insert (jv_id job) (blc_local_jobs b)\<rparr>
        in if \<not> jv_is_root job then Inr (b, [])
           else Inr (if blc_job_root_epochs b (jv_id job) = None
                     then b\<lparr>blc_job_root_epochs := (blc_job_root_epochs b)(jv_id job \<mapsto> 1)\<rparr> else b, []))"

definition onSuspend :: "rat \<Rightarrow> job_view \<Rightarrow> balancer \<Rightarrow> blc_result" where
  "onSuspend now job b =
     (let b = (if blc_active_job_id b = jv_id job then b\<lparr>blc_active_job_id := -1\<rparr> else b)
      in if \<not> jv_is_root job then Inr (b, []) else next_event now job 1 b)"

definition retire_latencies :: "int \<Rightarrow> balancer \<Rightarrow> balancer" where
  "retire_latencies jobId b =
     (case blc_balancing_latencies b jobId of
        None \<Rightarrow> b
      | Some latencies \<Rightarrow>
          b\<lparr>blc_past_balancing_latencies := blc_past_balancing_latencies b
              @ (if latencies = [] then [] else [sort latencies]),
            blc_balancing_latencies := (blc_balancing_latencies b)(jobId := None)\<rparr>)"

definition onTerminate :: "rat \<Rightarrow> job_view \<Rightarrow> balancer \<Rightarrow> blc_result" where
  "onTerminate now job b =
     (let b = (if blc_active_job_id b = jv_id job
               then b\<lparr>blc_active_job_id := -1, blc_pending_entries := Map.empty,
                      blc_local_jobs := blc_local_jobs b - {jv_id job}\<rparr>
               else b)
      in if \<not> jv_is_root job then Inr (b, [])
         else (case blc_job_root_epochs b (jv_id job) of
                 None \<Rightarrow> Inr (b, [])
               | Some e \<Rightarrow> check (e > 0)
                   (res_bind (pushEvent now
                        \<lparr>ev_jobId = jv_id job, ev_epoch = INT_MAX, ev_demand = 0, ev_priority = f32_zero\<rparr> False b)
                      (\<lambda>(b, out). Inr (retire_latencies (jv_id job)
                          (b\<lparr>blc_job_root_epochs := (blc_job_root_epochs b)(jv_id job := None)\<rparr>), out)))))"

section \<open>The reduction tree spans all processes\<close>

text \<open>\<open>c\<close> is a child of \<open>r\<close> in the binomial tree: it adds one bit below all bits of \<open>r\<close>.\<close>

definition tree_edge :: "int \<Rightarrow> int \<Rightarrow> bool" where
  "tree_edge r c \<longleftrightarrow> (\<exists>k. c = r + 2 ^ k \<and> 2 ^ Suc k dvd r \<and> 0 \<le> r)"

lemma tree_edge_unique:
  assumes "tree_edge r c" "tree_edge s c"
  shows "r = s"
proof -
  have aux: "k = l \<or> \<not> k < l"
    if "c = r + 2 ^ k" "2 ^ Suc k dvd r" "c = s + 2 ^ l" "2 ^ Suc l dvd s" for k l :: nat and r s :: int
  proof (rule ccontr)
    assume "\<not> (k = l \<or> \<not> k < l)"
    then have "(2 :: int) ^ Suc k dvd 2 ^ l" "(2 :: int) ^ Suc k dvd 2 ^ Suc l"
      by (simp_all add: le_imp_power_dvd del: power_Suc)
    then have "2 ^ Suc k dvd c" using that(3,4) dvd_trans [of "2 ^ Suc k" "2 ^ Suc l" s] by simp
    then have "(2 :: int) ^ Suc k dvd 2 ^ k" using that(1,2) by (simp add: dvd_add_right_iff del: power_Suc)
    then show False by simp
  qed
  from assms show ?thesis using aux unfolding tree_edge_def by (metis add_right_cancel nat_neq_iff)
qed

lemma exponent_less: "2 ^ j \<le> c \<Longrightarrow> j < nat c" for c :: int
proof -
  assume "2 ^ j \<le> c"
  moreover have "int j < 2 ^ j" by (rule of_nat_less_two_power)
  ultimately have "int j < c" by linarith
  then show ?thesis by linarith
qed

lemma parent_loop_spec:
  assumes "0 < c" "2 ^ j dvd c"
  obtains p where "parent_loop c (2 ^ Suc j) = Some p" "tree_edge p c"
  using assms(2)
proof (induction "nat c - j" arbitrary: j thesis rule: less_induct)
  case less
  have mod: "c_mod c (2 ^ Suc j) = c mod 2 ^ Suc j" "c_div (2 ^ Suc j) 2 = 2 ^ j"
    using assms(1) by (simp_all add: c_mod_nonneg c_div_nonneg)
  have le: "2 ^ j \<le> c" using less.prems(2) assms(1) by (rule zdvd_imp_le)
  show ?case
  proof (cases "2 ^ Suc j dvd c")
    case True
    then have "c mod 2 ^ Suc j \<noteq> 2 ^ j" by simp
    then have step: "parent_loop c (2 ^ Suc j) = parent_loop c (2 ^ Suc (Suc j))"
      by (subst parent_loop.simps) (simp only: mod, simp add: mult.commute)
    have "j < nat c" using le by (rule exponent_less)
    then have "nat c - Suc j < nat c - j" by simp
    then obtain p where "parent_loop c (2 ^ Suc (Suc j)) = Some p" "tree_edge p c"
      using less.hyps [of "Suc j"] True by metis
    then show ?thesis using less.prems(1) step by simp
  next
    case False
    have odd: "c mod 2 ^ Suc j = 2 ^ j"
    proof -
      obtain q where q: "c = 2 ^ j * q" using less.prems(2) by (rule dvdE)
      with False have "odd q" by (auto elim!: evenE simp: mult.assoc)
      then obtain m where "q = 2 * m + 1" by (rule oddE)
      with q have "c = 2 ^ j + 2 ^ Suc j * m" by (simp add: algebra_simps)
      then show ?thesis by (simp add: mod_pos_pos_trivial del: power_Suc)
    qed
    then have "parent_loop c (2 ^ Suc j) = Some (c - 2 ^ j)"
      using le by (subst parent_loop.simps) (simp only: mod, simp)
    moreover have "2 ^ Suc j dvd c - 2 ^ j"
      using odd by (metis minus_mod_eq_mult_div dvd_triv_left)
    then have "tree_edge (c - 2 ^ j) c" using le by (auto simp: tree_edge_def intro!: exI [of _ j])
    ultimately show ?thesis by (rule less.prems(1))
  qed
qed

lemma exp_loop_spec:
  assumes "1 \<le> n"
  obtains k where "exp_loop n (2 ^ j) = Some (2 ^ k)" "n \<le> 2 ^ k" "j \<le> k"
proof (induction "nat n - j" arbitrary: j thesis rule: less_induct)
  case less
  show ?case
  proof (cases "2 ^ j < n")
    case True
    have "j < nat n" using True by (intro exponent_less) simp
    then obtain k where "exp_loop n (2 ^ Suc j) = Some (2 ^ k)" "n \<le> 2 ^ k" "Suc j \<le> k"
      using less.hyps [of "Suc j"] by (metis diff_less_mono2 lessI)
    moreover have "exp_loop n (2 ^ j) = exp_loop n (2 ^ Suc j)"
      using True by (subst exp_loop.simps) (simp add: mult.commute)
    ultimately show ?thesis using less.prems [of k] by simp
  next
    case False
    then show ?thesis using less.prems [of j] by (simp add: exp_loop.simps)
  qed
qed

lemma child_loop_spec:
  assumes "0 \<le> r"
  shows "child_loop r n (2 ^ Suc k) acc =
    Some (acc @ map (\<lambda>i. r + 2 ^ i) (filter (\<lambda>i. 2 ^ Suc i dvd r \<and> r + 2 ^ i < n) (rev [0..<Suc k])))"
proof (induction k arbitrary: acc)
  case 0
  show ?case using assms by (subst child_loop.simps)
    (simp add: c_mod_nonneg c_div_nonneg dvd_eq_mod_eq_0 Let_def)
next
  case (Suc k)
  have half: "c_div (2 ^ Suc (Suc k)) 2 = 2 ^ Suc k" "2 ^ Suc k \<noteq> (1 :: int)"
    by (simp_all add: c_div_nonneg) (metis even_numeral odd_one dvd_mult2)
  have "c_mod r (2 ^ Suc (Suc k)) = 0 \<longleftrightarrow> 2 ^ Suc (Suc k) dvd r"
    using assms by (simp add: c_mod_nonneg dvd_eq_mod_eq_0)
  then show ?case using half
    by (subst child_loop.simps) (simp add: Let_def Suc.IH del: power_Suc upt_Suc, simp)
qed

definition fresh_balancer :: "int \<Rightarrow> int \<Rightarrow> balancer \<Rightarrow> bool" where
  "fresh_balancer n r b \<longleftrightarrow>
     blc_size b = n \<and> blc_rank b = r \<and> blc_root_rank b = 0 \<and> blc_states b = EventMap_empty
     \<and> blc_diffs b = EventMap_empty \<and> blc_balancing_epoch b = 0 \<and> blc_job_volumes b = Map.empty
     \<and> blc_job_root_epochs b = Map.empty
     \<and> set (blc_child_ranks b) = {c. tree_edge r c \<and> c < n} \<and> distinct (blc_child_ranks b)
     \<and> (0 < r \<longrightarrow> (\<exists>p. blc_parent_rank b = Some p \<and> tree_edge p r))"

lemma tree_edge_less: "tree_edge r c \<Longrightarrow> 0 \<le> r \<and> r < c"
  by (auto simp: tree_edge_def)

lemma constructor_spec:
  assumes "2 \<le> n" "0 \<le> r" "r < n"
  obtains b where "EventDrivenBalancer now lf cb n r = Some b" "fresh_balancer n r b"
    "blc_load_factor b = lf"
proof -
  obtain k where k: "exp_loop n 1 = Some (2 ^ k)" "n \<le> 2 ^ k"
    using exp_loop_spec [of n 0] assms(1) by auto
  obtain m where m: "k = Suc m" using k(2) assms(1) by (cases k) auto
  let ?is = "filter (\<lambda>i. 2 ^ Suc i dvd r \<and> r + 2 ^ i < n) (rev [0..<k])"
  obtain p where p: "(if r = 0 then Some 0 else parent_loop r 2) = Some p" "0 < r \<Longrightarrow> tree_edge p r"
  proof (cases "r = 0")
    case False
    then show ?thesis using parent_loop_spec [of r 0] assms(2) that by auto
  qed (use that in auto)
  have "set (map (\<lambda>i. r + 2 ^ i) ?is) = {c. tree_edge r c \<and> c < n}"
  proof -
    have "i < k" if "r + 2 ^ i < n" for i
    proof (rule power_less_imp_less_exp [of "2 :: int"])
      show "(2 :: int) ^ i < 2 ^ k" using that k(2) assms(2) by linarith
    qed simp
    then show ?thesis using assms(2) by (auto simp: tree_edge_def image_iff)
  qed
  moreover have "distinct (map (\<lambda>i. r + 2 ^ i) ?is)"
    by (auto simp: distinct_map inj_on_def)
  moreover have "child_loop r n (2 ^ k) [] = Some (map (\<lambda>i. r + 2 ^ i) ?is)"
    using child_loop_spec [OF assms(2), of n m "[]"] m by simp
  ultimately show ?thesis using that p k assms(1)
    by (simp add: EventDrivenBalancer_def Let_def fresh_balancer_def)
qed

text \<open>
  Property (C17): the loops in the constructor end and give every process the same view of a tree that
  spans all processes. The children of a process are exactly the processes that name it as their
  parent, a parent has a smaller rank than its child, so that the root is reached from everywhere, and
  the odd ranks, which do not forward broadcasts, have no children.
\<close>
theorem reduction_tree_spans:
  assumes "2 \<le> n" "0 \<le> r" "r < n"
  shows "\<exists>b. EventDrivenBalancer now lf cb n r = Some b \<and> distinct (blc_child_ranks b)
    \<and> (\<forall>c. c \<in> set (blc_child_ranks b) \<longleftrightarrow> 0 < c \<and> c < n
          \<and> (\<exists>b'. EventDrivenBalancer now' lf' cb' n c = Some b' \<and> blc_parent_rank b' = Some r))
    \<and> (0 < r \<longrightarrow> (\<exists>p. blc_parent_rank b = Some p \<and> 0 \<le> p \<and> p < r))
    \<and> (blc_isLeaf r \<longrightarrow> blc_child_ranks b = [])"
proof -
  obtain b where b: "EventDrivenBalancer now lf cb n r = Some b" "fresh_balancer n r b"
    using constructor_spec [OF assms] .
  have "c \<in> set (blc_child_ranks b) \<longleftrightarrow> 0 < c \<and> c < n
      \<and> (\<exists>b'. EventDrivenBalancer now' lf' cb' n c = Some b' \<and> blc_parent_rank b' = Some r)" for c
  proof (cases "0 < c \<and> c < n")
    case True
    obtain b' where b': "EventDrivenBalancer now' lf' cb' n c = Some b'" "fresh_balancer n c b'"
      by (rule constructor_spec [OF assms(1), of c]) (use True in auto)
    then obtain q where q: "blc_parent_rank b' = Some q" "tree_edge q c"
      using True by (auto simp: fresh_balancer_def)
    have "c \<in> set (blc_child_ranks b) \<longleftrightarrow> tree_edge r c" using b(2) True by (simp add: fresh_balancer_def)
    also have "\<dots> \<longleftrightarrow> q = r" using q(2) tree_edge_unique by blast
    finally show ?thesis using True b'(1) q(1) by simp
  next
    case False
    then have "\<not> (tree_edge r c \<and> c < n)" using tree_edge_less [of r c] by auto
    moreover have "c \<in> set (blc_child_ranks b) \<longleftrightarrow> tree_edge r c \<and> c < n" using b(2) by (simp add: fresh_balancer_def)
    ultimately show ?thesis using False by blast
  qed
  moreover have "blc_child_ranks b = []" if "blc_isLeaf r"
  proof -
    have "odd r" using that assms(2) by (simp add: blc_isLeaf_def c_mod_nonneg odd_iff_mod_2_eq_one)
    then have "\<not> tree_edge r c" for c by (auto simp: tree_edge_def)
    then show ?thesis using b(2) by (simp add: fresh_balancer_def)
  qed
  moreover have "\<exists>p. blc_parent_rank b = Some p \<and> 0 \<le> p \<and> p < r" if "0 < r"
    using b(2) that tree_edge_less by (auto simp: fresh_balancer_def)
  ultimately show ?thesis using b by (auto simp: fresh_balancer_def)
qed

theorem reduction_tree_spans_witness:
  "\<exists>b. EventDrivenBalancer 0 f32_one True 6 4 = Some b \<and> (\<exists>p. blc_parent_rank b = Some p \<and> 0 \<le> p \<and> p < 4)"
  using reduction_tree_spans [of 6 4 0 f32_one True 0 f32_one True] by auto

end
