(* ===== verification/Balancer_Net.thy ===== *)
theory Balancer_Net
  imports Balancer
begin

text \<open>
  The balancers of all processes, connected by channels that deliver the messages from one process to
  another in the order they were sent (the non-overtaking rule of MPI). Every process runs the code of
  theory \<open>Balancer\<close>; a step is a call by the worker at one process or the delivery of one message. The
  result is that the system implements a replicated log: there is one sequence of broadcasts, and every
  process has digested a prefix of it.
\<close>

section \<open>Well-formed maps\<close>

definition em_wf :: "event_map \<Rightarrow> bool" where
  "em_wf m \<longleftrightarrow> em_inv m \<and> (\<forall>e \<in> events_of m. event_ok e)"

lemma em_wf_iff: "em_wf m \<longleftrightarrow> em_inv m \<and> (\<forall>j e. em_get m j = Some e \<longrightarrow> event_ok e)"
  unfolding em_wf_def events_of_def by (force simp: em_get_iff em_inv_def)

lemma em_wf_empty [simp]: "em_wf EventMap_empty"
  by (simp add: em_wf_def em_inv_def events_of_def EventMap_empty_def)

lemma em_wf_inv: "em_wf m \<Longrightarrow> em_inv m"
  by (simp add: em_wf_def)

lemma em_wf_serialize: "em_wf m \<Longrightarrow> EventMap_deserialize (EventMap_serialize m) = Some m"
  by (simp add: em_wf_def EventMap_deserialize_serialize)

lemma newer_cases: "newer a b = a \<or> newer a b = b"
  by (auto simp: newer_def split: option.splits)

lemma em_wf_insert: "em_wf m \<Longrightarrow> event_ok ev \<Longrightarrow> em_wf (snd (insertIfNovel ev m))"
  using insertIfNovel_spec [of m ev "fst (insertIfNovel ev m)" "snd (insertIfNovel ev m)"] newer_cases
  unfolding em_wf_iff by (metis option.inject prod.collapse)

lemma em_wf_update: "em_wf m \<Longrightarrow> em_wf d \<Longrightarrow> em_wf (snd (updateBy m d))"
  using updateBy_spec [of m d "fst (updateBy m d)" "snd (updateBy m d)"] newer_cases
  unfolding em_wf_iff by (metis prod.collapse)

lemma em_wf_filter: "em_wf m \<Longrightarrow> em_wf d \<Longrightarrow> filterBy m d = Inr m' \<Longrightarrow> em_wf m'"
  using filterBy_spec [of m d m'] unfolding em_wf_iff by (auto split: option.splits if_splits)

lemma em_wf_zeros: "em_wf m \<Longrightarrow> em_wf (snd (removeOldZeros m))"
  using removeOldZeros_spec [of m "fst (removeOldZeros m)" "snd (removeOldZeros m)"]
  unfolding em_wf_iff by (auto split: option.splits if_splits)

lemma em_wf_frame [simp]: "em_wf (setGlobalEpoch e m) \<longleftrightarrow> em_wf m" "em_wf (EventMap_clear m)"
  by (simp_all add: em_wf_def em_inv_def events_of_def setGlobalEpoch_def EventMap_clear_def)

lemmas em_wf_intros = em_wf_insert em_wf_update em_wf_zeros

section \<open>The effect of a call on one process\<close>

definition digested :: "event_map \<Rightarrow> event_map \<Rightarrow> event_map" where
  "digested states data = snd (removeOldZeros (snd (updateBy states data)))"

text \<open>The volumes that the processes agree on, as a function of the job states.\<close>

definition volumes_of :: "float32 \<Rightarrow> int \<Rightarrow> event_map \<Rightarrow> int \<Rightarrow> int option" where
  "volumes_of loadFactor n states =
     (if EventMap_isEmpty states then Map.empty
      else case VolumeCalculator round53 round24 states loadFactor n of
             Inl e \<Rightarrow> Map.empty
           | Inr calc \<Rightarrow>
               (case calculateResult round53 round24 calc of
                  Some (Inr calc) \<Rightarrow> fold (\<lambda>e m. m(be_jobId e \<mapsto> be_volume e)) (vc_entries calc) Map.empty
                | _ \<Rightarrow> Map.empty))"

definition tree_of :: "balancer \<Rightarrow> int \<times> int \<times> float32 \<times> int \<times> int option \<times> int list" where
  "tree_of b = (blc_size b, blc_rank b, blc_load_factor b, blc_root_rank b, blc_parent_rank b, blc_child_ranks b)"

definition replica_of :: "balancer \<Rightarrow> event_map \<times> (int \<Rightarrow> int option) \<times> int" where
  "replica_of b = (blc_states b, blc_job_volumes b, blc_balancing_epoch b)"

definition digest_replica ::
    "float32 \<Rightarrow> int \<Rightarrow> event_map \<times> (int \<Rightarrow> int option) \<times> int \<Rightarrow> event_map \<Rightarrow> event_map \<times> (int \<Rightarrow> int option) \<times> int" where
  "digest_replica lf n rep data =
     (digested (fst rep) data, volumes_of lf n (snd (updateBy (fst rep) data)),
      sint (ucast (em_global_epoch data) :: 32 word))"

definition sent_to :: "int \<Rightarrow> blc_event list \<Rightarrow> (blc_tag \<times> byte list) list" where
  "sent_to d out =
     concat (map (\<lambda>e. case e of Blc_Send dest tag bs \<Rightarrow> if dest = d then [(tag, bs)] else [] | _ \<Rightarrow> []) out)"

lemma sent_to_simps [simp]:
  "sent_to d [] = []" "sent_to d (xs @ ys) = sent_to d xs @ sent_to d ys"
  "sent_to d (Blc_Send e t bs # xs) = (if e = d then [(t, bs)] else []) @ sent_to d xs"
  "sent_to d (Volume_Update a v l # xs) = sent_to d xs" "sent_to d (Balancing_Done # xs) = sent_to d xs"
  by (simp_all add: sent_to_def)

definition quiet :: "blc_event list \<Rightarrow> bool" where
  "quiet out \<longleftrightarrow> (\<forall>d. sent_to d out = [])"

definition proc_ok :: "int \<Rightarrow> int \<Rightarrow> float32 \<Rightarrow> balancer \<Rightarrow> bool" where
  "proc_ok n r lf b \<longleftrightarrow>
     blc_size b = n \<and> blc_rank b = r \<and> blc_root_rank b = 0 \<and> blc_load_factor b = lf
     \<and> set (blc_child_ranks b) = {c. tree_edge r c \<and> c < n} \<and> distinct (blc_child_ranks b)
     \<and> em_wf (blc_diffs b) \<and> em_wf (blc_states b)"

text \<open>A call either leaves the replica alone and sends events upwards at most, or digests some data and
  forwards it to all children.\<close>

definition effect :: "event_map option \<Rightarrow> balancer \<Rightarrow> balancer \<Rightarrow> blc_event list \<Rightarrow> bool" where
  "effect oD b b' out \<longleftrightarrow>
     (case oD of
        None \<Rightarrow> replica_of b' = replica_of b
          \<and> (\<forall>d. \<forall>(tag, bs) \<in> set (sent_to d out). tag = MSG_REDUCE_DATA \<and> (\<exists>m. em_wf m \<and> bs = EventMap_serialize m))
      | Some D \<Rightarrow> em_wf D \<and> replica_of b' = digest_replica (blc_load_factor b) (blc_size b) (replica_of b) D
          \<and> (\<forall>d. sent_to d out =
                (if d \<in> set (blc_child_ranks b) then [(MSG_BROADCAST_DATA, EventMap_serialize D)] else [])))"

lemma settle_frame:
  "settle_pending now j b = Inr (el, b') \<Longrightarrow>
     tree_of b' = tree_of b \<and> replica_of b' = replica_of b \<and> blc_diffs b' = blc_diffs b"
  by (auto simp: settle_pending_def add_latency_def tree_of_def replica_of_def Let_def
      split: if_splits option.splits)

lemma volume_loop_frame:
  "volume_loop now es b out = Inr (b', out') \<Longrightarrow> quiet out \<Longrightarrow>
     tree_of b' = tree_of b \<and> blc_states b' = blc_states b \<and> blc_balancing_epoch b' = blc_balancing_epoch b
     \<and> blc_diffs b' = blc_diffs b
     \<and> blc_job_volumes b' = fold (\<lambda>e m. m(be_jobId e \<mapsto> be_volume e)) es (blc_job_volumes b) \<and> quiet out'"
proof (induction now es b out rule: volume_loop.induct)
  case (2 now e es b out)
  let ?b = "b\<lparr>blc_job_volumes := (blc_job_volumes b)(be_jobId e \<mapsto> be_volume e)\<rparr>"
  from "2.prems"(1) obtain el c where c: "settle_pending now (be_jobId e) ?b = Inr (el, c)"
    by (auto simp: Let_def res_bind_eq_Inr_iff)
  let ?out = "out @ (if be_jobId e \<in> blc_local_jobs c then [Volume_Update (be_jobId e) (be_volume e) el] else [])"
  have quiet: "quiet ?out" using "2.prems"(2) by (simp add: quiet_def)
  have loop: "volume_loop now es c ?out = Inr (b', out')" using "2.prems"(1) c by (simp add: Let_def)
  show ?case using "2.IH" [OF refl refl loop quiet] settle_frame [OF c]
    by (auto simp: tree_of_def replica_of_def fun_upd_def)
qed simp

lemma computeBalancingResult_frame:
  assumes "computeBalancingResult now b = Inr (b', out)"
  shows "tree_of b' = tree_of b \<and> blc_states b' = blc_states b \<and> blc_balancing_epoch b' = blc_balancing_epoch b
    \<and> blc_diffs b' = blc_diffs b
    \<and> blc_job_volumes b' = volumes_of (blc_load_factor b) (blc_size b) (blc_states b) \<and> quiet out"
proof (cases "EventMap_isEmpty (blc_states b)")
  case True
  then show ?thesis using assms by (auto simp: computeBalancingResult_def tree_of_def volumes_of_def quiet_def)
next
  case False
  let ?b = "b\<lparr>blc_job_volumes := Map.empty\<rparr>"
  from assms False obtain calc calc' o1 where
    c: "VolumeCalculator round53 round24 (blc_states b) (blc_load_factor b) (blc_size b) = Inr calc"
    "calculateResult round53 round24 calc = Some (Inr calc')"
    "volume_loop now (vc_entries calc') ?b [] = Inr (b', o1)"
    "out = o1 @ zero_updates (vc_zero_entries calc') b' @ (if blc_done_callback b' then [Balancing_Done] else [])"
    by (auto simp: computeBalancingResult_def Let_def res_bind_eq_Inr_iff)
  have "sent_to d (zero_updates es b') = []" for d es
    by (induction es) (auto simp: zero_updates_def)
  then show ?thesis using volume_loop_frame [OF c(3)] c(1,2,4) False
    by (auto simp: quiet_def volumes_of_def tree_of_def)
qed

lemma digest_effect:
  assumes "digest now D b = Inr (b', out)" "proc_ok n r lf b" "em_wf D"
  shows "proc_ok n r lf b' \<and> tree_of b' = tree_of b \<and> quiet out
    \<and> replica_of b' = digest_replica (blc_load_factor b) (blc_size b) (replica_of b) D"
proof -
  let ?b = "b\<lparr>blc_states := snd (updateBy (blc_states b) D),
              blc_balancing_epoch := sint (ucast (em_global_epoch D) :: 32 word)\<rparr>"
  from assms(1) obtain c diffs where
    c: "computeBalancingResult now ?b = Inr (c, out)" "filterBy (blc_diffs c) (blc_states c) = Inr diffs"
    "b' = c\<lparr>blc_diffs := diffs, blc_states := snd (removeOldZeros (blc_states c))\<rparr>"
    by (auto simp: digest_def Let_def res_bind_eq_Inr_iff)
  note f = computeBalancingResult_frame [OF c(1)]
  have wf: "em_wf (blc_states c)" "em_wf (blc_diffs c)"
    using f assms(2,3) by (auto simp: proc_ok_def intro: em_wf_intros)
  have "em_wf diffs" "em_wf (snd (removeOldZeros (blc_states c)))"
    using em_wf_filter [OF wf(2,1) c(2)] em_wf_zeros [OF wf(1)] by auto
  then show ?thesis using f assms(2) unfolding c(3)
    by (auto simp: proc_ok_def tree_of_def replica_of_def digest_replica_def digested_def)
qed

lemma broadcast_effect:
  assumes "handle_broadcast now D b = Inr (b', out)" "proc_ok n r lf b" "em_wf D" "0 \<le> r"
  shows "proc_ok n r lf b' \<and> effect (Some D) b b' out"
proof -
  let ?sent = "\<lambda>cs. map (\<lambda>child. Blc_Send child MSG_BROADCAST_DATA (EventMap_serialize D)) cs"
  from assms(1) obtain o1 where d: "digest now D b = Inr (b', o1)"
    "out = (if \<not> blc_isLeaf (blc_rank b) then ?sent (blc_child_ranks b) else []) @ o1"
    by (auto simp: handle_broadcast_def Let_def res_bind_eq_Inr_iff)
  have leaf: "blc_child_ranks b = []" if "blc_isLeaf (blc_rank b)"
  proof -
    have "odd r" using that assms(2,4) by (simp add: proc_ok_def blc_isLeaf_def c_mod_nonneg odd_iff_mod_2_eq_one)
    then have "\<not> tree_edge r c" for c by (auto simp: tree_edge_def)
    then show ?thesis using assms(2) by (simp add: proc_ok_def)
  qed
  have "sent_to d (?sent cs) = (if d \<in> set cs then [(MSG_BROADCAST_DATA, EventMap_serialize D)] else [])"
    if "distinct cs" for d cs using that by (induction cs) auto
  then show ?thesis using digest_effect [OF d(1) assms(2,3)] assms(2,3) d(2) leaf
    by (auto simp: effect_def quiet_def proc_ok_def)
qed


text \<open>A change of bookkeeping fields only.\<close>

definition same_core :: "balancer \<Rightarrow> balancer \<Rightarrow> bool" where
  "same_core b c \<longleftrightarrow> tree_of c = tree_of b \<and> replica_of c = replica_of b"

lemma effect_core: "same_core b c \<Longrightarrow> effect oD c b' out \<longleftrightarrow> effect oD b b' out"
  by (auto simp: same_core_def effect_def tree_of_def replica_of_def split: option.splits)

lemma proc_ok_core: "same_core b c \<Longrightarrow> em_wf (blc_diffs c) \<Longrightarrow> proc_ok n r lf b \<Longrightarrow> proc_ok n r lf c"
  by (auto simp: same_core_def proc_ok_def tree_of_def replica_of_def)

text \<open>The outcome of a call of process \<open>r\<close>: only the root creates a broadcast, with the next epoch.\<close>

definition acts :: "int \<Rightarrow> int \<Rightarrow> float32 \<Rightarrow> balancer \<Rightarrow> balancer \<Rightarrow> blc_event list \<Rightarrow> bool" where
  "acts n r lf b b' out \<longleftrightarrow>
     proc_ok n r lf b' \<and> (effect None b b' out
       \<or> r = 0 \<and> (\<exists>D. em_global_epoch D = word_of_int (blc_balancing_epoch b + 1) \<and> effect (Some D) b b' out))"

lemma acts_core: "same_core b c \<Longrightarrow> acts n r lf c b' out \<longleftrightarrow> acts n r lf b b' out"
  by (auto simp: acts_def effect_core) (auto simp: same_core_def replica_of_def)

lemma acts_idle: "same_core b c \<Longrightarrow> em_wf (blc_diffs c) \<Longrightarrow> proc_ok n r lf b \<Longrightarrow> acts n r lf b c []"
  using proc_ok_core by (auto simp: acts_def effect_def same_core_def)

lemma ready_core: "ready time b = (isReady, c) \<Longrightarrow> same_core b c \<and> blc_diffs c = blc_diffs b"
  by (auto simp: ready_def same_core_def tree_of_def replica_of_def split: if_splits)

lemma same_core_trans: "same_core b c \<Longrightarrow> same_core c d \<Longrightarrow> same_core b d"
  by (simp add: same_core_def)

lemma same_core_simps [simp]:
  "same_core b b" "same_core b (b\<lparr>blc_diffs := x\<rparr>)" "same_core b (b\<lparr>blc_local_jobs := y\<rparr>)"
  "same_core b (b\<lparr>blc_pending_entries := z\<rparr>)" "same_core b (b\<lparr>blc_job_root_epochs := w\<rparr>)"
  "same_core b (b\<lparr>blc_active_job_id := a\<rparr>)" "same_core b (add_latency j l b)" "same_core b (retire_latencies j b)"
  by (simp_all add: same_core_def tree_of_def replica_of_def add_latency_def retire_latencies_def split: option.split)

lemma reduce_acts:
  assumes "handleData now D MSG_REDUCE_DATA chk b = Inr (b', out)" "proc_ok n r lf b" "em_wf D" "0 \<le> r"
  shows "acts n r lf b b' out"
proof -
  let ?b = "b\<lparr>blc_diffs := snd (updateBy (blc_diffs b) D)\<rparr>"
  have wf: "em_wf (blc_diffs ?b)" using assms(2,3) by (auto simp: proc_ok_def intro: em_wf_intros)
  obtain isReady c where c: "(if chk then (True, ?b) else ready now ?b) = (isReady, c)" by force
  then have core: "same_core b c" "em_wf (blc_diffs c)"
    using ready_core [of now ?b isReady c] same_core_trans [of b ?b c] wf by (auto split: if_splits)
  have ok: "proc_ok n r lf c" by (rule proc_ok_core [OF core assms(2)])
  have eq: "handleData now D MSG_REDUCE_DATA chk b =
      (if isReady
       then if blc_isRoot (blc_rank c) c
            then let b = c\<lparr>blc_diffs := setGlobalEpoch (blc_balancing_epoch c + 1) (blc_diffs c)\<rparr>
                 in handle_broadcast now (blc_diffs b) b
            else res_bind (getParentRank c) (\<lambda>parent.
                   Inr (c\<lparr>blc_diffs := EventMap_clear (blc_diffs c)\<rparr>,
                        [Blc_Send parent MSG_REDUCE_DATA (EventMap_serialize (blc_diffs c))]))
       else Inr (c, []))"
    using c by (simp add: handleData_def Let_def)
  consider (wait) "\<not> isReady" | (root) isReady "r = 0" | (up) isReady "r \<noteq> 0" by auto
  then show ?thesis
  proof cases
    case wait
    then show ?thesis using assms(1) eq acts_idle [OF core assms(2)] by simp
  next
    case root
    let ?D = "setGlobalEpoch (blc_balancing_epoch c + 1) (blc_diffs c)" and ?c = "c\<lparr>blc_diffs :=
      setGlobalEpoch (blc_balancing_epoch c + 1) (blc_diffs c)\<rparr>"
    have "handle_broadcast now ?D ?c = Inr (b', out)"
      using assms(1) eq root ok by (simp add: Let_def blc_isRoot_def proc_ok_def)
    moreover have "proc_ok n r lf ?c" using ok core(2) by (simp add: proc_ok_def)
    ultimately have "proc_ok n r lf b'" "effect (Some ?D) ?c b' out"
      using broadcast_effect [of now ?D ?c b' out n r lf] core(2) assms(4) by auto
    then have "acts n r lf ?c b' out" using root by (auto simp: acts_def setGlobalEpoch_def)
    then show ?thesis using acts_core [OF same_core_trans [OF core(1), of ?c]] by simp
  next
    case up
    then obtain p where "out = [Blc_Send p MSG_REDUCE_DATA (EventMap_serialize (blc_diffs c))]"
      "b' = c\<lparr>blc_diffs := EventMap_clear (blc_diffs c)\<rparr>"
      using assms(1) eq ok by (auto simp: blc_isRoot_def proc_ok_def res_bind_eq_Inr_iff)
    moreover have "effect None c b' out" unfolding calculation
      using core(2) by (auto simp: effect_def replica_of_def)
    ultimately have "acts n r lf c b' out" using ok by (simp add: acts_def proc_ok_def)
    then show ?thesis using acts_core [OF core(1)] by simp
  qed
qed

lemma advance_acts:
  assumes "advance now time b = Inr (b', out)" "proc_ok n r lf b" "0 \<le> r"
  shows "acts n r lf b b' out"
proof (cases "EventMap_isEmpty (blc_diffs b)")
  case True
  then show ?thesis using assms acts_idle [of b b n r lf] by (simp add: advance_def proc_ok_def)
next
  case False
  obtain isReady c where c: "ready (if time < 0 then now else time) b = (isReady, c)" by force
  note core = ready_core [OF c]
  have wf: "em_wf (blc_diffs c)" using core assms(2) by (simp add: proc_ok_def)
  have ok: "proc_ok n r lf c" using proc_ok_core [OF _ wf assms(2)] core by simp
  let ?c = "c\<lparr>blc_diffs := EventMap_clear (blc_diffs c)\<rparr>"
  have eq: "advance now time b =
      (if \<not> isReady then Inr (c, []) else handleData now (blc_diffs c) MSG_REDUCE_DATA True ?c)"
    using False c by (simp add: advance_def)
  show ?thesis
  proof (cases isReady)
    case True
    then have "handleData now (blc_diffs c) MSG_REDUCE_DATA True ?c = Inr (b', out)" using eq assms(1) by simp
    then have "acts n r lf ?c b' out" by (rule reduce_acts) (use ok wf assms(3) in \<open>auto simp: proc_ok_def\<close>)
    then show ?thesis using acts_core [OF same_core_trans [of b c ?c]] core by simp
  next
    case False
    then show ?thesis using eq assms core wf acts_idle by auto
  qed
qed

lemma push_acts:
  assumes "pushEvent now ev rec b = Inr (b', out)" "proc_ok n r lf b" "0 \<le> r" "event_ok ev"
  shows "acts n r lf b b' out"
proof -
  obtain ins diffs where i: "insertIfNovel ev (blc_diffs b) = (ins, diffs)" by force
  have wf: "em_wf diffs" using em_wf_insert [of "blc_diffs b" ev] i assms(2,4) by (simp add: proc_ok_def)
  let ?b = "b\<lparr>blc_diffs := diffs\<rparr>"
  show ?thesis
  proof (cases ins)
    case False
    then show ?thesis using assms(1,2) i wf acts_idle [of b ?b n r lf] by (auto simp: pushEvent_def)
  next
    case True
    let ?c = "case blc_pending_entries b (ev_jobId ev) of
        None \<Rightarrow> ?b | Some (epoch, time) \<Rightarrow> add_latency (ev_jobId ev) (round24 (now - time)) ?b"
    let ?d = "if rec then ?c\<lparr>blc_pending_entries := (blc_pending_entries ?c)(ev_jobId ev \<mapsto> (ev_epoch ev, now))\<rparr> else ?c"
    have c: "same_core b ?c" "blc_diffs ?c = diffs"
      by (auto simp: add_latency_def same_core_def tree_of_def replica_of_def split: option.split)
    then have d: "same_core b ?d" "blc_diffs ?d = diffs" using same_core_trans [OF c(1)] by auto
    have "advance now (-1) ?d = Inr (b', out)" using assms(1) i True
      by (simp add: pushEvent_def Let_def split del: if_split)
    moreover have "proc_ok n r lf ?d" using proc_ok_core [OF d(1) _ assms(2)] d(2) wf by simp
    ultimately show ?thesis using advance_acts assms(3) acts_core [OF d(1)] by blast
  qed
qed

section \<open>Calls of the worker\<close>

datatype blc_call =
    On_Probe int
  | On_Activate job_view int
  | On_Demand_Change job_view int
  | On_Suspend job_view
  | On_Terminate job_view
  | Advance rat

definition blc_perform :: "rat \<Rightarrow> blc_call \<Rightarrow> balancer \<Rightarrow> blc_result" where
  "blc_perform now c b =
     (case c of
        On_Probe jobId \<Rightarrow> onProbe now jobId b
      | On_Activate job demand \<Rightarrow> onActivate now job demand b
      | On_Demand_Change job demand \<Rightarrow> onDemandChange now job demand b
      | On_Suspend job \<Rightarrow> onSuspend now job b
      | On_Terminate job \<Rightarrow> onTerminate now job b
      | Advance time \<Rightarrow> advance now time b)"

text \<open>Identifiers and demands are machine integers, and the epoch counter of a job does not overflow.\<close>

definition job_ok :: "job_view \<Rightarrow> int \<Rightarrow> balancer \<Rightarrow> bool" where
  "job_ok job demand b \<longleftrightarrow> int32 (jv_id job) \<and> int32 demand
     \<and> (case blc_job_root_epochs b (jv_id job) of None \<Rightarrow> True | Some e \<Rightarrow> e < INT_MAX)"

definition blc_call_ok :: "blc_call \<Rightarrow> balancer \<Rightarrow> bool" where
  "blc_call_ok c b \<longleftrightarrow>
     (case c of
        On_Probe jobId \<Rightarrow> int32 jobId
      | On_Activate job demand \<Rightarrow> job_ok job demand b
      | On_Demand_Change job demand \<Rightarrow> job_ok job demand b
      | On_Suspend job \<Rightarrow> job_ok job 1 b
      | On_Terminate job \<Rightarrow> job_ok job 0 b
      | Advance time \<Rightarrow> True)"

lemma push_acts_core:
  assumes "pushEvent now ev rec c = Inr (b', out)" "same_core b c" "blc_diffs c = blc_diffs b"
    and "proc_ok n r lf b" "0 \<le> r" "event_ok ev"
  shows "acts n r lf b b' out"
proof -
  have "proc_ok n r lf c" using proc_ok_core [OF assms(2) _ assms(4)] assms(3,4) by (simp add: proc_ok_def)
  then show ?thesis using push_acts [OF assms(1) _ assms(5,6)] acts_core [OF assms(2)] by blast
qed

lemma idle_core: "proc_ok n r lf b \<Longrightarrow> same_core b c \<Longrightarrow> blc_diffs c = blc_diffs b \<Longrightarrow> acts n r lf b c []"
  by (rule acts_idle) (simp_all add: proc_ok_def)

lemma next_event_acts:
  assumes "next_event now job demand c = Inr (b', out)" "same_core b c" "blc_diffs c = blc_diffs b"
    and "blc_job_root_epochs c = blc_job_root_epochs b"
    and "proc_ok n r lf b" "0 \<le> r" "job_ok job demand b"
  shows "acts n r lf b b' out"
proof -
  obtain e where e: "blc_job_root_epochs c (jv_id job) = Some e" "e > 0"
    using assms(1) by (auto simp: next_event_def check_def split: option.splits if_splits)
  let ?c = "c\<lparr>blc_job_root_epochs := (blc_job_root_epochs c)(jv_id job \<mapsto> e + 1)\<rparr>"
  have "pushEvent now \<lparr>ev_jobId = jv_id job, ev_epoch = e + 1, ev_demand = demand, ev_priority = jv_priority job\<rparr>
      True ?c = Inr (b', out)"
    using assms(1) e by (simp add: next_event_def)
  then show ?thesis
    by (rule push_acts_core) (use assms same_core_trans [OF assms(2), of ?c] e in
        \<open>auto simp: event_ok_def job_ok_def int32_def\<close>)
qed

lemma terminate_acts:
  assumes "onTerminate now job b = Inr (b', out)" "proc_ok n r lf b" "0 \<le> r" "job_ok job 0 b"
  shows "acts n r lf b b' out"
proof -
  let ?c = "if blc_active_job_id b = jv_id job
      then b\<lparr>blc_active_job_id := -1, blc_pending_entries := Map.empty, blc_local_jobs := blc_local_jobs b - {jv_id job}\<rparr>
      else b"
  have c: "same_core b ?c" "blc_diffs ?c = blc_diffs b" by (simp_all add: same_core_def tree_of_def replica_of_def)
  let ?ev = "\<lparr>ev_jobId = jv_id job, ev_epoch = INT_MAX, ev_demand = 0, ev_priority = f32_zero\<rparr>"
  consider "b' = ?c" "out = []"
    | d where "pushEvent now ?ev False ?c = Inr (d, out)"
        "b' = retire_latencies (jv_id job) (d\<lparr>blc_job_root_epochs := (blc_job_root_epochs d)(jv_id job := None)\<rparr>)"
    using assms(1) by (auto simp: onTerminate_def Let_def res_bind_eq_Inr_iff check_def
        split: option.splits if_splits)
  then show ?thesis
  proof cases
    case 1
    then show ?thesis using idle_core [OF assms(2) c] by simp
  next
    case 2
    have "event_ok ?ev" using assms(4) by (simp add: event_ok_def job_ok_def int32_def)
    from push_acts_core [OF 2(1) c assms(2,3) this] have "acts n r lf b d out" .
    moreover have "same_core d b'" "blc_diffs b' = blc_diffs d"
      using 2(2) by (simp_all add: same_core_def tree_of_def replica_of_def retire_latencies_def split: option.split)
    ultimately show ?thesis
      by (auto simp: acts_def effect_def same_core_def proc_ok_def tree_of_def replica_of_def split: option.splits)
  qed
qed

lemma perform_acts:
  assumes "blc_perform now c b = Inr (b', out)" "blc_call_ok c b" "proc_ok n r lf b" "0 \<le> r"
  shows "acts n r lf b b' out"
proof (cases c)
  case (On_Probe j)
  then have "pushEvent now \<lparr>ev_jobId = j, ev_epoch = 1, ev_demand = 1, ev_priority = probe_priority\<rparr> False
      (b\<lparr>blc_local_jobs := insert j (blc_local_jobs b)\<rparr>) = Inr (b', out)"
    using assms(1) by (simp add: blc_perform_def onProbe_def)
  then show ?thesis
    by (rule push_acts_core) (use assms On_Probe in \<open>auto simp: event_ok_def blc_call_ok_def int32_def\<close>)
next
  case (On_Activate job demand)
  then have ok: "job_ok job demand b" using assms(2) by (simp add: blc_call_ok_def)
  consider "next_event now job demand b = Inr (b', out)" | "same_core b b'" "blc_diffs b' = blc_diffs b" "out = []"
    using assms(1) On_Activate
    by (auto simp: blc_perform_def onActivate_def onDemandChange_def Let_def same_core_def tree_of_def replica_of_def
        split: if_splits)
  then show ?thesis using next_event_acts [of now job demand b b' out b n r lf] idle_core [OF assms(3)] assms ok by cases auto
next
  case (On_Demand_Change job demand)
  then show ?thesis using next_event_acts [of now job demand b b' out b n r lf] assms
    by (auto simp: blc_perform_def blc_call_ok_def onDemandChange_def)
next
  case (On_Suspend job)
  let ?c = "if blc_active_job_id b = jv_id job then b\<lparr>blc_active_job_id := -1\<rparr> else b"
  consider "next_event now job 1 ?c = Inr (b', out)" | "b' = ?c" "out = []"
    using assms(1) On_Suspend by (cases "jv_is_root job")
      (simp_all add: blc_perform_def onSuspend_def Let_def split del: if_split)
  moreover have c: "same_core b ?c" "blc_diffs ?c = blc_diffs b" "blc_job_root_epochs ?c = blc_job_root_epochs b"
    by simp_all
  moreover have "job_ok job 1 b" using assms(2) On_Suspend by (simp add: blc_call_ok_def)
  ultimately show ?thesis
    using next_event_acts [OF _ c assms(3,4), of now job 1 b' out] idle_core [OF assms(3) c(1,2)] by blast
next
  case (On_Terminate job)
  then show ?thesis using terminate_acts assms by (auto simp: blc_perform_def blc_call_ok_def)
next
  case (Advance time)
  then show ?thesis using advance_acts assms by (auto simp: blc_perform_def)
qed

section \<open>The network\<close>

record blc_net =
  net_proc :: "int \<Rightarrow> balancer"
  net_chan :: "int \<Rightarrow> int \<Rightarrow> (blc_tag \<times> byte list) list"

definition after_step :: "int \<Rightarrow> balancer \<Rightarrow> blc_event list \<Rightarrow> blc_net \<Rightarrow> blc_net" where
  "after_step r b out N =
     N\<lparr>net_proc := (net_proc N)(r := b),
       net_chan := (net_chan N)(r := \<lambda>d. net_chan N r d @ sent_to d out)\<rparr>"

definition pop :: "int \<Rightarrow> int \<Rightarrow> blc_net \<Rightarrow> blc_net" where
  "pop s r N = N\<lparr>net_chan := (net_chan N)(s := (net_chan N s)(r := tl (net_chan N s r)))\<rparr>"

inductive net_reachable :: "int \<Rightarrow> float32 \<Rightarrow> blc_net \<Rightarrow> bool" for n lf where
  start: "(\<And>r. 0 \<le> r \<Longrightarrow> r < n \<Longrightarrow> \<exists>now cb. EventDrivenBalancer now lf cb n r = Some (net_proc N r)) \<Longrightarrow>
    (\<And>s r. net_chan N s r = []) \<Longrightarrow> net_reachable n lf N"
| call: "net_reachable n lf N \<Longrightarrow> 0 \<le> r \<Longrightarrow> r < n \<Longrightarrow> blc_call_ok c (net_proc N r) \<Longrightarrow>
    blc_perform now c (net_proc N r) = Inr (b, out) \<Longrightarrow> net_reachable n lf (after_step r b out N)"
| deliver: "net_reachable n lf N \<Longrightarrow> 0 \<le> r \<Longrightarrow> r < n \<Longrightarrow> net_chan N s r = (tag, bs) # ms \<Longrightarrow>
    blc_handle now tag bs (net_proc N r) = Inr (b, out) \<Longrightarrow> net_reachable n lf (after_step r b out (pop s r N))"

section \<open>One log of broadcasts\<close>

definition replay :: "float32 \<Rightarrow> int \<Rightarrow> event_map list \<Rightarrow> event_map \<times> (int \<Rightarrow> int option) \<times> int" where
  "replay lf n H = foldl (digest_replica lf n) (EventMap_empty, Map.empty, 0) H"

definition broadcasts :: "(blc_tag \<times> byte list) list \<Rightarrow> byte list list" where
  "broadcasts ms = map snd (filter (\<lambda>m. fst m = MSG_BROADCAST_DATA) ms)"

definition reduces_ok :: "(blc_tag \<times> byte list) list \<Rightarrow> bool" where
  "reduces_ok ms \<longleftrightarrow> (\<forall>(tag, bs) \<in> set ms. tag = MSG_REDUCE_DATA \<longrightarrow> (\<exists>m. em_wf m \<and> bs = EventMap_serialize m))"

definition log_ok :: "event_map list \<Rightarrow> bool" where
  "log_ok H \<longleftrightarrow> (\<forall>D \<in> set H. em_wf D)
     \<and> (length H < 2 ^ 31 \<longrightarrow> (\<forall>i < length H. em_global_epoch (H ! i) = word_of_int (int i + 1)))"

definition net_inv :: "int \<Rightarrow> float32 \<Rightarrow> event_map list \<Rightarrow> (int \<Rightarrow> nat) \<Rightarrow> blc_net \<Rightarrow> bool" where
  "net_inv n lf H k N \<longleftrightarrow>
     log_ok H \<and> k 0 = length H
     \<and> (\<forall>r. 0 \<le> r \<and> r < n \<longrightarrow> proc_ok n r lf (net_proc N r) \<and> k r \<le> length H
          \<and> replica_of (net_proc N r) = replay lf n (take (k r) H))
     \<and> (\<forall>s r. tree_edge s r \<and> r < n \<longrightarrow> k r \<le> k s)
     \<and> (\<forall>s r. reduces_ok (net_chan N s r) \<and> broadcasts (net_chan N s r) =
          (if tree_edge s r \<and> r < n then map EventMap_serialize (drop (k r) (take (k s) H)) else []))"

lemma broadcasts_simps [simp]:
  "broadcasts [] = []" "broadcasts (xs @ ys) = broadcasts xs @ broadcasts ys"
  "broadcasts ((tag, bs) # ms) = (if tag = MSG_BROADCAST_DATA then bs # broadcasts ms else broadcasts ms)"
  by (simp_all add: broadcasts_def)

lemma reduces_ok_simps [simp]:
  "reduces_ok []" "reduces_ok (xs @ ys) \<longleftrightarrow> reduces_ok xs \<and> reduces_ok ys"
  "reduces_ok ((tag, bs) # ms) \<longleftrightarrow>
     (tag = MSG_REDUCE_DATA \<longrightarrow> (\<exists>m. em_wf m \<and> bs = EventMap_serialize m)) \<and> reduces_ok ms"
  by (auto simp: reduces_ok_def)

lemma replay_snoc: "replay lf n (H @ [D]) = digest_replica lf n (replay lf n H) D"
  by (simp add: replay_def)

lemma effect_None_sent:
  assumes "effect None b b' out"
  shows "broadcasts (sent_to d out) = []" "reduces_ok (sent_to d out)"
proof -
  have "\<forall>(tag, bs) \<in> set (sent_to d out). tag = MSG_REDUCE_DATA \<and> (\<exists>m. em_wf m \<and> bs = EventMap_serialize m)"
    using assms by (simp add: effect_def)
  then show "broadcasts (sent_to d out) = []" "reduces_ok (sent_to d out)"
    by (auto simp: broadcasts_def reduces_ok_def filter_empty_conv)
qed

lemma epoch_conversion: "0 \<le> x \<Longrightarrow> x < 2 ^ 31 \<Longrightarrow> sint (ucast (word_of_int x :: 64 word) :: 32 word) = x"
  by (simp add: unsigned_of_int signed_take_bit_int_eq_self_iff take_bit_int_eq_self signed_of_int)

lemma replay_epoch:
  assumes "log_ok H" "length H < 2 ^ 31" "i \<le> length H"
  shows "snd (snd (replay lf n (take i H))) = int i"
proof (cases i)
  case 0
  then show ?thesis by (simp add: replay_def)
next
  case (Suc j)
  then have "em_global_epoch (H ! j) = word_of_int (int j + 1)" using assms by (auto simp: log_ok_def)
  then show ?thesis using Suc assms epoch_conversion [of "int j + 1"]
    by (simp add: take_Suc_conv_app_nth replay_snoc digest_replica_def)
qed

lemma net_inv_idle:
  assumes "net_inv n lf H k N" "effect None (net_proc N r) b out" "proc_ok n r lf b"
  shows "net_inv n lf H k (after_step r b out N)"
proof -
  have "replica_of b = replica_of (net_proc N r)" using assms(2) by (simp add: effect_def)
  then show ?thesis using assms effect_None_sent [OF assms(2)]
    unfolding net_inv_def by (auto simp: after_step_def)
qed

lemma net_inv_root:
  assumes "net_inv n lf H k N" "effect (Some D) (net_proc N 0) b out" "proc_ok n 0 lf b" "0 < n"
    and "em_global_epoch D = word_of_int (blc_balancing_epoch (net_proc N 0) + 1)"
  shows "net_inv n lf (H @ [D]) (k(0 := Suc (length H))) (after_step 0 b out N)"
proof -
  have p: "proc_ok n 0 lf (net_proc N 0)" "replica_of (net_proc N 0) = replay lf n H" "k 0 = length H" "log_ok H"
    and le: "\<And>r. 0 \<le> r \<Longrightarrow> r < n \<Longrightarrow> k r \<le> length H"
    using assms(1,4) by (auto simp: net_inv_def)
  have D: "em_wf D" "replica_of b = replay lf n (H @ [D])"
    and sent: "\<And>d. sent_to d out = (if tree_edge 0 d \<and> d < n then [(MSG_BROADCAST_DATA, EventMap_serialize D)] else [])"
    using assms(2) p by (auto simp: effect_def proc_ok_def replay_snoc)
  have "blc_balancing_epoch (net_proc N 0) = int (length H)" if "length H < 2 ^ 31"
    using replay_epoch [OF p(4) that, of "length H" lf n] p(2) by (simp add: replica_of_def) (metis snd_conv)
  then have "log_ok (H @ [D])" using p(4) D(1) assms(5) by (auto simp: log_ok_def nth_append less_Suc_eq)
  moreover have root: "\<not> tree_edge s 0" for s using tree_edge_less [of s 0] by auto
  moreover have edge: "0 \<le> r \<and> 0 \<le> s" if "tree_edge s r" for s r using tree_edge_less [OF that] by simp
  moreover have "drop (k d) (H @ [D]) = drop (k d) H @ [D]" if "tree_edge 0 d" "d < n" for d
    using le [of d] edge [OF that(1)] that by simp
  moreover have "k s \<le> length H" if "tree_edge s d" "d < n" for s d
    using le [of s] tree_edge_less [OF that(1)] that(2) by simp
  ultimately show ?thesis
    using assms(1,3) D(2) sent p(3) le unfolding net_inv_def by (auto simp: after_step_def intro: le_SucI)
qed

lemma net_inv_acts:
  assumes "net_inv n lf H k N" "acts n r lf (net_proc N r) b out" "0 < n"
  shows "\<exists>H' k'. net_inv n lf H' k' (after_step r b out N)"
  using assms net_inv_idle net_inv_root unfolding acts_def by metis

lemma pop_reduce:
  assumes "net_inv n lf H k N" "net_chan N s r = (MSG_REDUCE_DATA, bs) # ms"
  shows "net_inv n lf H k (pop s r N)"
proof -
  have "reduces_ok (net_chan N s r)" using assms(1) unfolding net_inv_def by blast
  then have "reduces_ok ms" "broadcasts (net_chan N s r) = broadcasts ms" using assms(2) by auto
  then have "reduces_ok (net_chan (pop s r N) x y) \<longleftrightarrow> reduces_ok (net_chan N x y)"
    "broadcasts (net_chan (pop s r N) x y) = broadcasts (net_chan N x y)" for x y
    using assms \<open>reduces_ok (net_chan N s r)\<close> by (auto simp: pop_def)
  moreover have "net_proc (pop s r N) = net_proc N" by (simp add: pop_def)
  ultimately show ?thesis using assms(1) unfolding net_inv_def by simp
qed

text \<open>The next broadcast in a channel is the next entry of the log.\<close>

lemma next_broadcast:
  assumes "net_inv n lf H k N" "net_chan N s r = (MSG_BROADCAST_DATA, bs) # ms"
  shows "tree_edge s r" "r < n" "k r < k s" "k s \<le> length H" "bs = EventMap_serialize (H ! k r)"
    and "broadcasts ms = map EventMap_serialize (drop (Suc (k r)) (take (k s) H))"
proof -
  have bc: "bs # broadcasts ms = (if tree_edge s r \<and> r < n then map EventMap_serialize (drop (k r) (take (k s) H)) else [])"
    using assms unfolding net_inv_def by (metis (full_types) broadcasts_simps(3))
  then show e: "tree_edge s r" "r < n" by (auto split: if_splits)
  then show le: "k s \<le> length H" using assms(1) tree_edge_less [OF e(1)] by (auto simp: net_inv_def)
  have bc': "bs # broadcasts ms = map EventMap_serialize (drop (k r) (take (k s) H))" using bc e by simp
  then have "drop (k r) (take (k s) H) \<noteq> []" by auto
  then show lt: "k r < k s" using le by simp
  then have "drop (k r) (take (k s) H) = H ! k r # drop (Suc (k r)) (take (k s) H)"
    using le by (subst Cons_nth_drop_Suc [symmetric]) auto
  then show "bs = EventMap_serialize (H ! k r)"
    "broadcasts ms = map EventMap_serialize (drop (Suc (k r)) (take (k s) H))" using bc' by simp_all
qed

lemma net_inv_forward:
  assumes "net_inv n lf H k N" "net_chan N s r = (MSG_BROADCAST_DATA, bs) # ms"
    and "effect (Some (H ! k r)) (net_proc N r) b out" "proc_ok n r lf b"
  shows "net_inv n lf H (k(r := Suc (k r))) (after_step r b out (pop s r N))"
proof -
  note nb = next_broadcast [OF assms(1,2)]
  have r: "0 < r" using tree_edge_less [OF nb(1)] by simp
  have p: "proc_ok n r lf (net_proc N r)" "replica_of (net_proc N r) = replay lf n (take (k r) H)"
    and lt: "k r < length H" using assms(1) nb r by (auto simp: net_inv_def)
  have snoc: "take (Suc (k r)) H = take (k r) H @ [H ! k r]" using lt by (rule take_Suc_conv_app_nth)
  have b: "replica_of b = replay lf n (take (Suc (k r)) H)"
    and sent: "\<And>d. sent_to d out = (if tree_edge r d \<and> d < n then [(MSG_BROADCAST_DATA, EventMap_serialize (H ! k r))] else [])"
    using assms(3) p by (auto simp: effect_def proc_ok_def snoc replay_snoc)
  have self: "\<not> tree_edge x x" for x using tree_edge_less [of x x] by auto
  have other: "\<not> tree_edge t r" if "t \<noteq> s" for t using tree_edge_unique [OF nb(1)] that by metis
  have red: "reduces_ok ms" using assms(1,2) unfolding net_inv_def by (metis reduces_ok_simps(3))
  have down: "k d \<le> k r" "drop (k d) (take (Suc (k r)) H) = drop (k d) (take (k r) H) @ [H ! k r]"
    if "tree_edge r d" "d < n" for d
  proof -
    show "k d \<le> k r" using assms(1) that by (auto simp: net_inv_def)
    then show "drop (k d) (take (Suc (k r)) H) = drop (k d) (take (k r) H) @ [H ! k r]"
      using lt by (simp add: snoc)
  qed
  let ?k = "k(r := Suc (k r))" and ?N = "after_step r b out (pop s r N)"
  have chan: "reduces_ok (net_chan ?N x y) \<and> broadcasts (net_chan ?N x y) =
      (if tree_edge x y \<and> y < n then map EventMap_serialize (drop (?k y) (take (?k x) H)) else [])" for x y
  proof -
    have old: "reduces_ok (net_chan N x y)" "broadcasts (net_chan N x y) =
        (if tree_edge x y \<and> y < n then map EventMap_serialize (drop (k y) (take (k x) H)) else [])"
      using assms(1) unfolding net_inv_def by blast+
    have sr: "s \<noteq> r" using nb(1) self by auto
    consider "x = s" "y = r" | "x = r" | "x \<noteq> r" "y = r" "x \<noteq> s" | "x \<noteq> r" "y \<noteq> r" by blast
    then show ?thesis
    proof cases
      case 1
      then show ?thesis using sr red nb assms(2) by (simp add: after_step_def pop_def)
    next
      case 2
      have "net_chan ?N r y = net_chan N r y @ sent_to y out" using sr by (simp add: after_step_def pop_def)
      then show ?thesis using 2 old sent self [of r] down by auto
    next
      case 3
      then show ?thesis using old other by (simp add: after_step_def pop_def)
    next
      case 4
      then have "net_chan ?N x y = net_chan N x y" by (simp add: after_step_def pop_def)
      then show ?thesis using old 4 by simp
    qed
  qed
  have "?k y \<le> ?k x" if "tree_edge x y" "y < n" for x y
    using that assms(1) nb(1,3) other [of x] self [of r] down(1) [of y] by (cases "y = r"; cases "x = r"; cases "x = s")
      (auto simp: net_inv_def intro: le_SucI)
  then show ?thesis unfolding net_inv_def using chan assms(1,4) b r lt
    by (auto simp: net_inv_def after_step_def pop_def)
qed

lemma start_inv:
  assumes "2 \<le> n" "\<And>r. 0 \<le> r \<Longrightarrow> r < n \<Longrightarrow> \<exists>now cb. EventDrivenBalancer now lf cb n r = Some (net_proc N r)"
    and "\<And>s r. net_chan N s r = []"
  shows "net_inv n lf [] (\<lambda>_. 0) N"
proof -
  have "proc_ok n r lf (net_proc N r) \<and> replica_of (net_proc N r) = replay lf n []" if r: "0 \<le> r" "r < n" for r
  proof -
    obtain now cb where c: "EventDrivenBalancer now lf cb n r = Some (net_proc N r)" using assms(2) [OF r] by blast
    have "fresh_balancer n r (net_proc N r) \<and> blc_load_factor (net_proc N r) = lf"
      by (rule constructor_spec [OF assms(1) r, of now lf cb]) (use c in auto)
    then show ?thesis by (auto simp: fresh_balancer_def proc_ok_def replica_of_def replay_def)
  qed
  then show ?thesis using assms(3) by (simp add: net_inv_def log_ok_def)
qed

lemma reachable_log:
  assumes "net_reachable n lf N" "2 \<le> n"
  shows "\<exists>H k. net_inv n lf H k N"
  using assms(1)
proof (induction rule: net_reachable.induct)
  case (start N)
  then show ?case using start_inv [OF assms(2), of lf N] by blast
next
  case (call N r c now b out)
  then obtain H k where inv: "net_inv n lf H k N" by blast
  then have "proc_ok n r lf (net_proc N r)" using call.hyps by (auto simp: net_inv_def)
  then have "acts n r lf (net_proc N r) b out" using perform_acts call.hyps by blast
  then show ?case using net_inv_acts [OF inv] assms(2) by simp
next
  case (deliver N r s tag bs ms now b out)
  then obtain H k where inv: "net_inv n lf H k N" by blast
  then have ok: "proc_ok n r lf (net_proc N r)" using deliver.hyps by (auto simp: net_inv_def)
  show ?case
  proof (cases tag)
    case MSG_REDUCE_DATA
    then have "reduces_ok ((MSG_REDUCE_DATA, bs) # ms)" using inv deliver.hyps(4) unfolding net_inv_def by metis
    then obtain m where m: "em_wf m" "bs = EventMap_serialize m" by auto
    then have "handleData now m MSG_REDUCE_DATA False (net_proc N r) = Inr (b, out)"
      using deliver.hyps(5) MSG_REDUCE_DATA em_wf_serialize [OF m(1)] by (simp add: blc_handle_def)
    then have "acts n r lf (net_proc N r) b out" using ok m(1) deliver.hyps(2) by (rule reduce_acts)
    moreover have "net_inv n lf H k (pop s r N)" using pop_reduce [OF inv] deliver.hyps(4) MSG_REDUCE_DATA by simp
    moreover have "net_proc (pop s r N) = net_proc N" by (simp add: pop_def)
    ultimately show ?thesis using net_inv_acts [of n lf H k "pop s r N"] assms(2) by simp
  next
    case MSG_BROADCAST_DATA
    note ch = deliver.hyps(4) [unfolded MSG_BROADCAST_DATA]
    note nb = next_broadcast [OF inv ch]
    have wf: "em_wf (H ! k r)" using inv nb(3,4) by (auto simp: net_inv_def log_ok_def)
    then have "handle_broadcast now (H ! k r) (net_proc N r) = Inr (b, out)"
      using deliver.hyps(5) MSG_BROADCAST_DATA nb(5) em_wf_serialize by (simp add: blc_handle_def handleData_def)
    then have "proc_ok n r lf b \<and> effect (Some (H ! k r)) (net_proc N r) b out"
      using broadcast_effect ok wf deliver.hyps(2) by blast
    then show ?thesis using net_inv_forward [OF inv ch] by blast
  qed
qed


text \<open>Two processes; a job is probed at the root, which broadcasts it.\<close>

definition sample_root :: balancer where
  "sample_root = the (EventDrivenBalancer 0 f32_one False 2 0)"

definition sample_start :: blc_net where
  "sample_start =
     \<lparr>net_proc = \<lambda>r. if r = 0 then sample_root else the (EventDrivenBalancer 0 f32_one False 2 1),
      net_chan = \<lambda>s r. []\<rparr>"

lemma sample_start_reachable: "net_reachable 2 f32_one sample_start"
proof (rule net_reachable.start)
  fix r :: int assume "0 \<le> r" "r < 2"
  then consider "r = 0" | "r = 1" by linarith
  moreover have "EventDrivenBalancer 0 f32_one False 2 r \<noteq> None" if "0 \<le> r" "r < 2" for r
    using constructor_spec [of 2 r 0 f32_one False] that by (metis option.distinct(1) order_refl)
  ultimately show "\<exists>now cb. EventDrivenBalancer now f32_one cb 2 r = Some (net_proc sample_start r)"
    by cases (auto simp: sample_start_def sample_root_def intro!: exI [of _ 0] exI [of _ False])
qed (simp add: sample_start_def)

lemma sample_probe:
  "case blc_perform 1 (On_Probe 3) sample_root of
     Inl e \<Rightarrow> False | Inr (b, out) \<Rightarrow> blc_balancing_epoch b = 1 \<and> blc_job_volumes b 3 = Some 1"
  by code_simp


end
