(* ===== verification/Assignment.thy ===== *)
theory Assignment
  imports Job_Transfer Floats "HOL-Library.Multiset"
begin

text \<open>
  The assignment of job requests to idle workers along the tree towards a root that changes with every
  balancing epoch (class \<open>CollectiveAssignment\<close> in src/src/balancing/collective_assignment.cpp and .hpp),
  with the random choice of src/src/util/random.hpp. What the class asks of the job database (is this
  worker idle?) and what the callback for a locally digested request does to it are parameters: \<open>idle\<close>
  on a state of the rest of the worker, and \<open>cb\<close>, which returns the next such state together with the
  requests that it adds through \<open>addJobRequest\<close> and whether it calls \<open>setStatusDirty\<close>. The \<open>static\<close> flag
  that guards against recursion and the log output are left out.
\<close>

section \<open>Random choice\<close>

text \<open>\<open>rand()\<close> yields a \<open>float\<close> in [0,1), so at most \<open>1 - 2^-24\<close>; the product with the size is a \<open>float\<close>.\<close>

definition random_choice :: "rat \<Rightarrow> int list \<Rightarrow> int res" where
  "random_choice r vec =
     (let i = \<lfloor>round24 (round24 (of_nat (length vec)) * r)\<rfloor>
      in if 0 \<le> i \<and> i < int (length vec) then Inr (vec ! nat i) else Inl Undefined_behaviour)"

section \<open>State\<close>

text \<open>\<open>ca_child_statuses\<close> lists the entries of the unordered map in its iteration order, \<open>ca_active\<close> tells
  that the job database is set.\<close>

record collective_assignment =
  ca_my_rank :: int
  ca_active :: bool
  ca_child_statuses :: "(int \<times> int) list"
  ca_request_list :: "job_request list"
  ca_num_workers :: int
  ca_neighbor_towards_rank :: "int list"
  ca_epoch :: int
  ca_status_dirty :: bool

definition CollectiveAssignment :: "int \<Rightarrow> int \<Rightarrow> int list \<Rightarrow> collective_assignment" where
  "CollectiveAssignment myRank numWorkers neighborTowardsRank =
     \<lparr>ca_my_rank = myRank, ca_active = True, ca_child_statuses = [], ca_request_list = [],
      ca_num_workers = numWorkers, ca_neighbor_towards_rank = neighborTowardsRank, ca_epoch = -1,
      ca_status_dirty = True\<rparr>"

datatype ca_message = Ca_Send int "byte list"

fun status_put :: "int \<Rightarrow> int \<Rightarrow> (int \<times> int) list \<Rightarrow> (int \<times> int) list" where
  "status_put rank n [] = [(rank, n)]"
| "status_put rank n ((r, k) # xs) = (if r = rank then (r, n) # xs else (r, k) # status_put rank n xs)"

definition setStatusDirty :: "collective_assignment \<Rightarrow> collective_assignment" where
  "setStatusDirty ca = ca\<lparr>ca_status_dirty := True\<rparr>"

definition ca_insert :: "job_request \<Rightarrow> collective_assignment \<Rightarrow> collective_assignment" where
  "ca_insert req ca = ca\<lparr>ca_request_list := oset_insert JobRequest_key req (ca_request_list ca)\<rparr>"

definition addJobRequest :: "job_request \<Rightarrow> collective_assignment \<Rightarrow> collective_assignment" where
  "addJobRequest req ca =
     (if req_balancingEpoch req < ca_epoch ca \<and> req_requestedNodeIndex req > 0 then ca
      else ca_insert req ca)"

section \<open>Messages\<close>

definition COLL_ASSIGN_STATUS :: byte where "COLL_ASSIGN_STATUS = 1"
definition COLL_ASSIGN_REQUESTS :: byte where "COLL_ASSIGN_REQUESTS = 2"

definition serialize_status :: "int \<Rightarrow> collective_assignment \<Rightarrow> byte list" where
  "serialize_status numIdle ca = COLL_ASSIGN_STATUS # put_int (ca_epoch ca) @ put_int numIdle"

definition serialize_requests :: "job_request list \<Rightarrow> byte list" where
  "serialize_requests requests = COLL_ASSIGN_REQUESTS # concat (map JobRequest_serialize requests)"

definition new_epoch :: "int \<Rightarrow> collective_assignment \<Rightarrow> collective_assignment" where
  "new_epoch epoch ca =
     (if epoch > ca_epoch ca
      then ca\<lparr>ca_epoch := epoch, ca_child_statuses := [], ca_status_dirty := True\<rparr> else ca)"

function receive_requests :: "byte list \<Rightarrow> collective_assignment \<Rightarrow> collective_assignment res" where
  "receive_requests bs ca =
     (if JobRequest_getTransferSize \<le> length bs
      then (case JobRequest_deserialize (take JobRequest_getTransferSize bs) of
              None \<Rightarrow> Inl Undefined_behaviour
            | Some req \<Rightarrow>
                receive_requests (drop JobRequest_getTransferSize bs)
                  (if req_balancingEpoch req \<ge> ca_epoch ca \<or> req_requestedNodeIndex req = 0
                   then ca_insert (req\<lparr>req_numHops := req_numHops req + 1\<rparr>) ca else ca))
      else Inr ca)"
  by pat_completeness auto
termination
  by (relation "measure (length \<circ> fst)") (auto simp: JobRequest_getTransferSize_def)

declare receive_requests.simps [simp del]

definition ca_deserialize :: "byte list \<Rightarrow> int \<Rightarrow> collective_assignment \<Rightarrow> collective_assignment res" where
  "ca_deserialize packed source ca =
     (case packed of
        [] \<Rightarrow> Inl Undefined_behaviour
      | kind # bs \<Rightarrow>
          if kind = COLL_ASSIGN_STATUS
          then (case rd_int bs of
                  None \<Rightarrow> Inl Undefined_behaviour
                | Some (epoch, bs) \<Rightarrow>
                    if epoch < ca_epoch ca then Inr ca
                    else (case rd_int bs of
                            None \<Rightarrow> Inl Undefined_behaviour
                          | Some (numIdle, _) \<Rightarrow>
                              let ca = new_epoch epoch ca
                              in Inr (ca\<lparr>ca_child_statuses := status_put source numIdle (ca_child_statuses ca),
                                         ca_status_dirty := True\<rparr>)))
          else if kind = COLL_ASSIGN_REQUESTS then receive_requests bs ca
          else Inr ca)"

section \<open>Roots, parents and destinations\<close>

definition getCurrentRoot :: "collective_assignment \<Rightarrow> int res" where
  "getCurrentRoot ca =
     check (ca_num_workers ca > 0) (Inr (uint (robin_hood_hash (ca_epoch ca)) mod ca_num_workers ca))"

definition getCurrentParent :: "collective_assignment \<Rightarrow> int res" where
  "getCurrentParent ca =
     res_bind (getCurrentRoot ca) (\<lambda>root.
       if nat root < length (ca_neighbor_towards_rank ca) then Inr (ca_neighbor_towards_rank ca ! nat root)
       else Inl Undefined_behaviour)"

text \<open>The state of the rest of the worker is a type parameter; the random numbers are an infinite sequence, of
  which a draw takes the first.\<close>

definition getDestination :: "bool \<Rightarrow> (nat \<Rightarrow> rat) \<Rightarrow> collective_assignment \<Rightarrow> (int \<times> (nat \<Rightarrow> rat)) res" where
  "getDestination isIdle draws ca =
     (if isIdle then Inr (ca_my_rank ca, draws)
      else
        let viableDestinations = map fst (filter (\<lambda>(rank, numIdle). numIdle > 0) (ca_child_statuses ca))
        in if viableDestinations = [] then Inr (-1, draws)
           else res_bind (random_choice (draws 0) viableDestinations) (\<lambda>dest. Inr (dest, draws \<circ> Suc)))"

definition getAggregatedStatus :: "bool \<Rightarrow> collective_assignment \<Rightarrow> int" where
  "getAggregatedStatus isIdle ca = (if isIdle then 1 else 0) + sum_list (map snd (ca_child_statuses ca))"

section \<open>Resolving requests\<close>

record 'e resolve_state =
  rs_ca :: collective_assignment
  rs_env :: 'e
  rs_draws :: "nat \<Rightarrow> rat"
  rs_keep :: "job_request list"
  rs_send :: "(int \<times> job_request list) list"

type_synonym 'e local_callback = "job_request \<Rightarrow> int \<Rightarrow> 'e \<Rightarrow> 'e \<times> job_request list \<times> bool"

fun send_to :: "int \<Rightarrow> job_request \<Rightarrow> (int \<times> job_request list) list \<Rightarrow> (int \<times> job_request list) list" where
  "send_to rank req [] = [(rank, [req])]"
| "send_to rank req ((r, reqs) # xs) =
     (if r = rank then (r, reqs @ [req]) # xs else (r, reqs) # send_to rank req xs)"

definition digest_locally :: "'e local_callback \<Rightarrow> job_request \<Rightarrow> int \<Rightarrow> 'e resolve_state \<Rightarrow> 'e resolve_state" where
  "digest_locally cb req dest rs =
     (let (env, added, dirty) = cb req dest (rs_env rs);
          ca = fold addJobRequest added (rs_ca rs)
      in rs\<lparr>rs_env := env, rs_ca := (if dirty then setStatusDirty ca else ca)\<rparr>)"

definition resolve_one ::
    "('e \<Rightarrow> bool) \<Rightarrow> 'e local_callback \<Rightarrow> job_request \<Rightarrow> 'e resolve_state \<Rightarrow> 'e resolve_state res" where
  "resolve_one idle cb req rs =
     (let ca = rs_ca rs in
      if req_balancingEpoch req < ca_epoch ca \<and> req_requestedNodeIndex req > 0 then Inr rs
      else
        res_bind (getDestination (idle (rs_env rs)) (rs_draws rs) ca) (\<lambda>(destination, draws).
          let rs = rs\<lparr>rs_draws := draws\<rparr> in
          if destination < 0
          then res_bind (getCurrentRoot ca) (\<lambda>root.
                 if root = ca_my_rank ca then Inr (rs\<lparr>rs_keep := rs_keep rs @ [req]\<rparr>)
                 else res_bind (getCurrentParent ca) (\<lambda>parent.
                        Inr (rs\<lparr>rs_send := send_to parent req (rs_send rs)\<rparr>)))
          else if destination = ca_my_rank ca then Inr (digest_locally cb req destination rs)
          else Inr (rs\<lparr>rs_send := send_to destination req (rs_send rs),
                       rs_ca := ca\<lparr>ca_child_statuses :=
                         map (\<lambda>(r, k). if r = destination then (r, k - 1) else (r, k)) (ca_child_statuses ca)\<rparr>\<rparr>)))"

text \<open>The iteration over the set, whose elements may grow while it runs.\<close>

definition next_request :: "job_request option \<Rightarrow> job_request list \<Rightarrow> job_request option" where
  "next_request cur xs =
     (case cur of None \<Rightarrow> (case xs of [] \<Rightarrow> None | x # _ \<Rightarrow> Some x)
      | Some c \<Rightarrow> find (\<lambda>r. JobRequest_less c r) xs)"

partial_function (option) resolve_loop ::
    "('e \<Rightarrow> bool) \<Rightarrow> 'e local_callback \<Rightarrow> job_request option \<Rightarrow> 'e resolve_state \<Rightarrow> 'e resolve_state res option" where
  "resolve_loop idle cb cur rs =
     (case next_request cur (ca_request_list (rs_ca rs)) of
        None \<Rightarrow> Some (Inr rs)
      | Some req \<Rightarrow>
          (case resolve_one idle cb req rs of
             Inl e \<Rightarrow> Some (Inl e)
           | Inr rs \<Rightarrow> resolve_loop idle cb (Some req) rs))"

declare resolve_loop.simps [code]

definition resolveRequests ::
    "('e \<Rightarrow> bool) \<Rightarrow> 'e local_callback \<Rightarrow> 'e \<Rightarrow> (nat \<Rightarrow> rat) \<Rightarrow> collective_assignment
       \<Rightarrow> ('e \<times> (nat \<Rightarrow> rat) \<times> collective_assignment \<times> ca_message list) res" where
  "resolveRequests idle cb env draws ca =
     (if ca_request_list ca = [] then Inr (env, draws, ca, [])
      else
        res_bind (of_opt (resolve_loop idle cb None
            \<lparr>rs_ca = ca, rs_env = env, rs_draws = draws, rs_keep = [], rs_send = []\<rparr>)) (\<lambda>r.
        res_bind r (\<lambda>rs.
          Inr (rs_env rs, rs_draws rs,
               (rs_ca rs)\<lparr>ca_request_list := fold (oset_insert JobRequest_key) (rs_keep rs) []\<rparr>,
               map (\<lambda>(rank, requests). Ca_Send rank (serialize_requests requests)) (rs_send rs)))))"

definition ca_advance ::
    "('e \<Rightarrow> bool) \<Rightarrow> 'e local_callback \<Rightarrow> 'e \<Rightarrow> (nat \<Rightarrow> rat) \<Rightarrow> int \<Rightarrow> collective_assignment
       \<Rightarrow> ('e \<times> (nat \<Rightarrow> rat) \<times> collective_assignment \<times> ca_message list) res" where
  "ca_advance idle cb env draws epoch ca =
     (if \<not> ca_active ca then Inr (env, draws, ca, [])
      else
        res_bind (resolveRequests idle cb env draws (new_epoch epoch ca)) (\<lambda>(env, draws, ca, out).
          if ca_status_dirty ca
          then res_bind (getCurrentRoot ca) (\<lambda>root.
                 if ca_my_rank ca = root then Inr (env, draws, ca\<lparr>ca_status_dirty := False\<rparr>, out)
                 else res_bind (getCurrentParent ca) (\<lambda>parent.
                        Inr (env, draws, ca\<lparr>ca_status_dirty := False\<rparr>,
                             out @ [Ca_Send parent (serialize_status (getAggregatedStatus (idle env) ca) ca)])))
          else Inr (env, draws, ca, out)))"

section \<open>The random choice stays inside the vector\<close>

lemma round_half_even_le: "of_int (round_half_even y) \<le> y + 1 / 2"
proof -
  have "of_int \<lfloor>y\<rfloor> \<le> y" by linarith
  then have "of_int \<lfloor>y\<rfloor> \<le> y + 1 / 2" by linarith
  then show ?thesis by (auto simp: round_half_even_def Let_def)
qed

lemma round24_below:
  assumes "1 \<le> n" "n < 2 ^ 24" "0 \<le> r" "r \<le> 1 - 1 / 2 ^ 24"
  shows "0 \<le> round24 (of_int n * r)" "round24 (of_int n * r) < of_int n"
proof -
  let ?n = "of_int n :: rat" and ?x = "of_int n * r"
  show "0 \<le> round24 ?x" using round_sig_mono [of 0 ?x 24] assms by (simp add: round_sig_def)
  show "round24 ?x < ?n"
  proof (cases "?x = 0")
    case True
    then show ?thesis using assms(1) by (simp add: round_sig_def)
  next
    case False
    then have x: "0 < ?x" and n: "0 < ?n" using assms by (auto simp: less_le)
    have xn: "?x \<le> ?n - ?n / 2 ^ 24"
      using mult_left_mono [OF assms(4), of ?n] n by (simp add: algebra_simps)
    let ?u = "2 powi (exponent2 ?x - 23) :: rat"
    have u: "0 < ?u" "?u = 2 powi exponent2 ?x / 2 ^ 23" by (simp_all add: power_int_diff)
    have "of_int (round_half_even (?x / ?u)) * ?u \<le> (?x / ?u + 1 / 2) * ?u"
      by (intro mult_right_mono round_half_even_le) (use u in auto)
    also have "\<dots> = ?x + ?u / 2" using u(1) by (simp add: field_simps)
    finally have "round24 ?x \<le> ?x + ?u / 2" using round_sig_unit [OF x, of 24] by simp
    then have "round24 ?x \<le> ?n - ?n / 2 ^ 24 + 2 powi exponent2 ?x / 2 ^ 24" using xn u(2) by simp
    moreover have "2 powi exponent2 ?x < ?n"
    proof -
      have "?n / 2 ^ 24 > 0" using n by simp
      then show ?thesis using exponent2_bounds(1) [OF x] xn by linarith
    qed
    then have "2 powi exponent2 ?x / 2 ^ 24 < ?n / 2 ^ 24" by (simp add: divide_strict_right_mono)
    ultimately show ?thesis by linarith
  qed
qed

lemma random_choice_spec:
  assumes "vec \<noteq> []" "length vec < 2 ^ 24" "0 \<le> r" "r \<le> 1 - 1 / 2 ^ 24"
  shows "\<exists>i < length vec. random_choice r vec = Inr (vec ! i)"
proof -
  let ?n = "int (length vec)"
  have n: "1 \<le> ?n" "?n < 2 ^ 24" using assms(1,2) by (simp_all add: Suc_le_eq)
  have "round24 (of_int ?n) = of_int ?n" using n by (intro round_sig_of_int) auto
  then have i: "round24 (of_nat (length vec)) = of_int ?n" by simp
  note below = round24_below [OF n assms(3,4)]
  let ?i = "\<lfloor>round24 (of_int ?n * r)\<rfloor>"
  have "0 \<le> ?i" "?i < ?n" using below by (simp_all add: floor_less_iff)
  then have "random_choice r vec = Inr (vec ! nat ?i)" unfolding random_choice_def i by (simp add: Let_def)
  moreover have "nat ?i < length vec" using \<open>0 \<le> ?i\<close> \<open>?i < ?n\<close> by linarith
  ultimately show ?thesis by blast
qed

text \<open>
  Property (C30): \<open>Random::choice\<close> on a non-empty vector of fewer than 2^24 elements never reads outside
  of it: for every \<open>float\<close> below one that \<open>rand()\<close> can return, rounding the product with the size to
  single precision stays below the size, so an element of the vector is returned.
\<close>
theorem random_choice_in_bounds:
  assumes "vec \<noteq> []" "length vec < 2 ^ 24" "0 \<le> r" "r \<le> 1 - 1 / 2 ^ 24"
  shows "\<exists>i < length vec. random_choice r vec = Inr (vec ! i)"
  by (rule random_choice_spec [OF assms])

theorem random_choice_in_bounds_witness:
  "\<exists>i < 3. random_choice (1 - 1 / 2 ^ 24) [4, 5, 6] = Inr ([4, 5, 6] ! i)"
  using random_choice_in_bounds [of "[4, 5, 6]" "1 - 1 / 2 ^ 24"] by (simp add: numeral_3_eq_3)

section \<open>Where the requests go\<close>

text \<open>Resolving a fixed list of requests, which the loop does unless the callback adds further ones.\<close>

fun resolve_all ::
    "('e \<Rightarrow> bool) \<Rightarrow> 'e local_callback \<Rightarrow> job_request list \<Rightarrow> 'e resolve_state \<Rightarrow> 'e resolve_state res" where
  "resolve_all idle cb [] rs = Inr rs"
| "resolve_all idle cb (req # reqs) rs = res_bind (resolve_one idle cb req rs) (resolve_all idle cb reqs)"

definition adds_nothing :: "'e local_callback \<Rightarrow> bool" where
  "adds_nothing cb \<longleftrightarrow> (\<forall>req d e. fst (snd (cb req d e)) = [])"

lemma digest_locally_ca:
  "adds_nothing cb \<Longrightarrow> \<exists>d. digest_locally cb req dest rs =
     rs\<lparr>rs_env := fst (cb req dest (rs_env rs)), rs_ca := (rs_ca rs)\<lparr>ca_status_dirty := d\<rparr>\<rparr>"
proof -
  assume "adds_nothing cb"
  then have "fst (snd (cb req dest (rs_env rs))) = []" by (simp add: adds_nothing_def)
  then obtain e' dirty where cb: "cb req dest (rs_env rs) = (e', [], dirty)" by (metis prod.collapse)
  show ?thesis
    by (rule exI [of _ "dirty \<or> ca_status_dirty (rs_ca rs)"]) (simp add: digest_locally_def cb setStatusDirty_def Let_def)
qed

lemma resolve_one_list:
  assumes "resolve_one idle cb req rs = Inr rs'" "adds_nothing cb"
  shows "ca_request_list (rs_ca rs') = ca_request_list (rs_ca rs)"
proof -
  have "ca_request_list (rs_ca (digest_locally cb req d rs')) = ca_request_list (rs_ca rs')" for d rs'
    using digest_locally_ca [OF assms(2), of req d rs'] by auto
  then show ?thesis using assms(1)
    by (auto simp: resolve_one_def Let_def res_bind_eq_Inr_iff split: if_splits)
qed

lemma find_skip: "\<forall>x \<in> set xs. \<not> P x \<Longrightarrow> P y \<Longrightarrow> find P (xs @ y # ys) = Some y"
  by (induction xs) auto

lemma resolve_loop_all:
  assumes "adds_nothing cb" "oset JobRequest_key (pre @ suf)" "ca_request_list (rs_ca rs) = pre @ suf"
    and "cur = (if pre = [] then None else Some (last pre))"
  shows "resolve_loop idle cb cur rs = Some (resolve_all idle cb suf rs)"
  using assms(2-)
proof (induction suf arbitrary: pre rs cur)
  case Nil
  have "next_request cur pre = None"
  proof (cases pre rule: rev_cases)
    case (snoc ys y)
    have "find (JobRequest_less y) (ys @ [y]) = None"
      using Nil.prems(1) snoc by (auto simp: find_None_iff JobRequest_less_iff_key sorted_wrt_append)
    then show ?thesis using Nil.prems snoc by (simp add: next_request_def)
  qed (use Nil in \<open>simp add: next_request_def\<close>)
  then show ?case using Nil by (subst resolve_loop.simps) simp
next
  case (Cons req suf)
  have nx: "next_request cur (pre @ req # suf) = Some req"
  proof (cases pre rule: rev_cases)
    case (snoc ys y)
    have "\<forall>z \<in> set (ys @ [y]). \<not> JobRequest_less y z" "JobRequest_less y req"
      using Cons.prems(1) snoc by (auto simp: JobRequest_less_iff_key sorted_wrt_append)
    then have "find (JobRequest_less y) ((ys @ [y]) @ req # suf) = Some req" by (rule find_skip)
    then show ?thesis using Cons.prems snoc by (simp add: next_request_def)
  qed (use Cons in \<open>simp add: next_request_def\<close>)
  show ?case
  proof (cases "resolve_one idle cb req rs")
    case (Inl e)
    then show ?thesis using nx Cons.prems(2) by (subst resolve_loop.simps) simp
  next
    case (Inr rs')
    have "resolve_loop idle cb (Some req) rs' = Some (resolve_all idle cb suf rs')"
      using Cons.IH [of "pre @ [req]" rs'] Cons.prems resolve_one_list [OF Inr assms(1)] by simp
    then show ?thesis using nx Inr Cons.prems(2) by (subst resolve_loop.simps) simp
  qed
qed

text \<open>The contents of the messages, and the number of requests for one destination.\<close>

abbreviation sent :: "(int \<times> job_request list) list \<Rightarrow> job_request multiset" where
  "sent xs \<equiv> mset (concat (map snd xs))"

definition sent_count :: "int \<Rightarrow> (int \<times> job_request list) list \<Rightarrow> int" where
  "sent_count r xs = (case map_of xs r of None \<Rightarrow> 0 | Some reqs \<Rightarrow> int (length reqs))"

lemma sent_send_to: "sent (send_to r req xs) = add_mset req (sent xs)"
  by (induction xs) auto

lemma keys_send_to: "fst ` set (send_to r req xs) = insert r (fst ` set xs)"
proof (induction xs)
  case (Cons x xs)
  then show ?case by (cases x) (auto simp: insert_commute)
qed simp

lemma send_to_key: "(a, b) \<in> set (send_to r req xs) \<Longrightarrow> a = r \<or> a \<in> fst ` set xs"
  using keys_send_to [of r req xs] by (metis fst_conv image_eqI insert_iff)

lemma distinct_send_to: "distinct (map fst xs) \<Longrightarrow> distinct (map fst (send_to r req xs))"
proof (induction xs)
  case (Cons x xs)
  then show ?case using keys_send_to [of r req xs] by (cases x) (auto simp flip: set_map)
qed simp

lemma count_send_to: "sent_count r (send_to q req xs) = sent_count r xs + (if r = q then 1 else 0)"
  by (induction xs) (auto simp: sent_count_def)

text \<open>The callback, remembering which requests it was given.\<close>

definition logged :: "'e local_callback \<Rightarrow> ('e \<times> job_request list) local_callback" where
  "logged cb req d = (\<lambda>(e, log). let (e', added, dirty) = cb req d e in ((e', log @ [req]), added, dirty))"

lemma logged_adds: "adds_nothing cb \<Longrightarrow> adds_nothing (logged cb)"
  by (auto simp: adds_nothing_def logged_def split: prod.splits) (metis fst_conv snd_conv)

lemma logged_env: "snd (fst (logged cb req d env)) = snd env @ [req]"
  by (auto simp: logged_def split: prod.splits)

definition live :: "collective_assignment \<Rightarrow> job_request \<Rightarrow> bool" where
  "live ca req \<longleftrightarrow> \<not> (req_balancingEpoch req < ca_epoch ca \<and> req_requestedNodeIndex req > 0)"

text \<open>Child statuses come from other processes than this one and its parent, there is an entry towards
  every possible root, and the random numbers are floats below one.\<close>

definition ca_ok :: "collective_assignment \<Rightarrow> bool" where
  "ca_ok ca \<longleftrightarrow>
     0 < ca_num_workers ca \<and> length (ca_neighbor_towards_rank ca) = nat (ca_num_workers ca)
     \<and> distinct (map fst (ca_child_statuses ca)) \<and> length (ca_child_statuses ca) < 2 ^ 24
     \<and> (\<forall>(r, k) \<in> set (ca_child_statuses ca). 0 \<le> r \<and> r \<noteq> ca_my_rank ca \<and> getCurrentParent ca \<noteq> Inr r)
     \<and> 0 \<le> ca_my_rank ca"

definition draws_ok :: "(nat \<Rightarrow> rat) \<Rightarrow> bool" where
  "draws_ok draws \<longleftrightarrow> (\<forall>i. 0 \<le> draws i \<and> draws i \<le> 1 - 1 / 2 ^ 24)"

lemma root_parent:
  assumes "ca_ok ca"
  obtains root p where "getCurrentRoot ca = Inr root" "getCurrentParent ca = Inr p"
proof -
  have n: "0 < ca_num_workers ca" "length (ca_neighbor_towards_rank ca) = nat (ca_num_workers ca)"
    using assms by (auto simp: ca_ok_def)
  let ?r = "uint (robin_hood_hash (ca_epoch ca)) mod ca_num_workers ca"
  have "0 \<le> ?r" "?r < ca_num_workers ca" using n(1) by auto
  then have "nat ?r < nat (ca_num_workers ca)" by linarith
  then show ?thesis using that n by (simp add: getCurrentParent_def getCurrentRoot_def)
qed

lemma getDestination_spec:
  assumes "ca_ok ca" "draws_ok draws"
  obtains (self) "isIdle" "getDestination isIdle draws ca = Inr (ca_my_rank ca, draws)"
    | (none) "getDestination isIdle draws ca = Inr (-1, draws)"
    | (child) r k where "getDestination isIdle draws ca = Inr (r, draws \<circ> Suc)"
        "(r, k) \<in> set (ca_child_statuses ca)" "0 < k"
proof -
  let ?v = "map fst (filter (\<lambda>(rank, numIdle). numIdle > 0) (ca_child_statuses ca))"
  show ?thesis
  proof (cases isIdle)
    case True
    then show ?thesis using self by (simp add: getDestination_def)
  next
    case idle: False
    show ?thesis
    proof (cases "?v = []")
      case True
      then show ?thesis using idle none by (simp add: getDestination_def Let_def)
    next
      case False
      have "length ?v < 2 ^ 24"
        using assms(1) length_filter_le [of _ "ca_child_statuses ca"] unfolding ca_ok_def length_map by (meson le_less_trans)
      then obtain i where i: "i < length ?v" "random_choice (draws 0) ?v = Inr (?v ! i)"
        using random_choice_spec [OF False] assms(2) unfolding draws_ok_def by blast
      then have "?v ! i \<in> set ?v" using nth_mem by blast
      then obtain k where "(?v ! i, k) \<in> set (ca_child_statuses ca)" "0 < k" by auto
      then show ?thesis using child i(2) idle False by (simp add: getDestination_def Let_def)
    qed
  qed
qed

text \<open>The bookkeeping of the loop, relative to the state \<open>ca\<close> it started from: every request that was
  looked at is kept, sent or digested, a child got as many requests as its idle count went down, and
  what goes elsewhere goes to the parent.\<close>

definition resolved ::
    "collective_assignment \<Rightarrow> job_request multiset \<Rightarrow> ('e \<times> job_request list) resolve_state \<Rightarrow> bool" where
  "resolved ca M rs \<longleftrightarrow>
     mset (rs_keep rs) + sent (rs_send rs) + mset (snd (rs_env rs)) = M
     \<and> draws_ok (rs_draws rs) \<and> distinct (map fst (rs_send rs))
     \<and> ca_my_rank (rs_ca rs) = ca_my_rank ca \<and> ca_epoch (rs_ca rs) = ca_epoch ca
     \<and> ca_num_workers (rs_ca rs) = ca_num_workers ca
     \<and> ca_neighbor_towards_rank (rs_ca rs) = ca_neighbor_towards_rank ca
     \<and> ca_child_statuses (rs_ca rs) = map (\<lambda>(r, k). (r, k - sent_count r (rs_send rs))) (ca_child_statuses ca)
     \<and> (\<forall>(r, k) \<in> set (ca_child_statuses ca). 0 \<le> k \<longrightarrow> sent_count r (rs_send rs) \<le> k)
     \<and> (\<forall>r \<in> fst ` set (rs_send rs). r \<in> fst ` set (ca_child_statuses ca)
          \<or> getCurrentParent ca = Inr r \<and> getCurrentRoot ca \<noteq> Inr (ca_my_rank ca))
     \<and> (rs_keep rs \<noteq> [] \<longrightarrow> getCurrentRoot ca = Inr (ca_my_rank ca))"

lemma resolved_ca:
  assumes "ca_ok ca" "resolved ca M rs"
  shows "ca_ok (rs_ca rs)" "getCurrentRoot (rs_ca rs) = getCurrentRoot ca"
    "getCurrentParent (rs_ca rs) = getCurrentParent ca" "live (rs_ca rs) = live ca"
proof -
  have f: "ca_epoch (rs_ca rs) = ca_epoch ca" "ca_num_workers (rs_ca rs) = ca_num_workers ca"
    "ca_neighbor_towards_rank (rs_ca rs) = ca_neighbor_towards_rank ca"
    using assms(2) by (simp_all add: resolved_def)
  show r: "getCurrentRoot (rs_ca rs) = getCurrentRoot ca" "getCurrentParent (rs_ca rs) = getCurrentParent ca"
    "live (rs_ca rs) = live ca"
    unfolding getCurrentRoot_def getCurrentParent_def f by (auto simp: live_def f)
  have S: "map fst (ca_child_statuses (rs_ca rs)) = map fst (ca_child_statuses ca)"
    "length (ca_child_statuses (rs_ca rs)) = length (ca_child_statuses ca)" "ca_my_rank (rs_ca rs) = ca_my_rank ca"
    using assms(2) by (auto simp: resolved_def)
  have "\<forall>q \<in> fst ` set (ca_child_statuses ca). 0 \<le> q \<and> q \<noteq> ca_my_rank ca \<and> getCurrentParent ca \<noteq> Inr q"
    using assms(1) by (auto simp: ca_ok_def)
  then have "\<forall>q \<in> fst ` set (ca_child_statuses (rs_ca rs)). 0 \<le> q \<and> q \<noteq> ca_my_rank ca \<and> getCurrentParent ca \<noteq> Inr q"
    using S(1) by (metis list.set_map)
  then show "ca_ok (rs_ca rs)" using assms(1) unfolding ca_ok_def r f S by auto
qed

lemma resolve_one_spec:
  assumes "ca_ok ca" "resolved ca M rs" "adds_nothing cb" "live ca req"
  shows "\<exists>rs'. resolve_one (\<lambda>e. idle (fst e)) (logged cb) req rs = Inr rs' \<and> resolved ca (add_mset req M) rs'
    \<and> (rs_keep rs' = rs_keep rs \<or> rs_keep rs' = rs_keep rs @ [req])"
proof -
  note ca = resolved_ca [OF assms(1,2)]
  obtain root p where rp: "getCurrentRoot ca = Inr root" "getCurrentParent ca = Inr p"
    using root_parent [OF assms(1)] .
  have D: "draws_ok (rs_draws rs)" "draws_ok (rs_draws rs \<circ> Suc)"
    using assms(2) by (auto simp: resolved_def draws_ok_def)
  have liv: "\<not> (req_balancingEpoch req < ca_epoch (rs_ca rs) \<and> req_requestedNodeIndex req > 0)"
    using assms(4) ca(4) by (simp add: live_def fun_eq_iff)
  have me: "0 \<le> ca_my_rank (rs_ca rs)" "ca_my_rank (rs_ca rs) = ca_my_rank ca"
    using ca(1) assms(2) by (auto simp: ca_ok_def resolved_def)
  show ?thesis
  proof (cases rule: getDestination_spec [OF ca(1) D(1), of "idle (fst (rs_env rs))"])
    case 1
    let ?rs = "digest_locally (logged cb) req (ca_my_rank (rs_ca rs)) rs"
    have "resolve_one (\<lambda>e. idle (fst e)) (logged cb) req rs = Inr ?rs"
      using 1(2) liv me by (auto simp: resolve_one_def Let_def)
    moreover obtain d where "?rs = rs\<lparr>rs_env := fst (logged cb req (ca_my_rank (rs_ca rs)) (rs_env rs)),
        rs_ca := (rs_ca rs)\<lparr>ca_status_dirty := d\<rparr>\<rparr>"
      using digest_locally_ca [OF logged_adds [OF assms(3)]] by blast
    ultimately show ?thesis using assms(2) by (auto simp: resolved_def logged_env)
  next
    case 2
    show ?thesis
    proof (cases "root = ca_my_rank ca")
      case True
      then have "resolve_one (\<lambda>e. idle (fst e)) (logged cb) req rs = Inr (rs\<lparr>rs_keep := rs_keep rs @ [req]\<rparr>)"
        using 2 liv rp ca(2) me by (auto simp: resolve_one_def Let_def)
      then show ?thesis using assms(2) True rp by (auto simp: resolved_def)
    next
      case False
      then have eq: "resolve_one (\<lambda>e. idle (fst e)) (logged cb) req rs = Inr (rs\<lparr>rs_send := send_to p req (rs_send rs)\<rparr>)"
        using 2 liv rp ca(2,3) me by (auto simp: resolve_one_def Let_def)
      have cnt: "sent_count r (send_to p req (rs_send rs)) = sent_count r (rs_send rs)"
        if "(r, k) \<in> set (ca_child_statuses ca)" for r k
        using that assms(1) rp(2) by (auto simp: count_send_to ca_ok_def)
      then have "map (\<lambda>(r, k). (r, k - sent_count r (send_to p req (rs_send rs)))) (ca_child_statuses ca) =
          map (\<lambda>(r, k). (r, k - sent_count r (rs_send rs))) (ca_child_statuses ca)"
        by (intro map_cong) auto
      moreover have "\<forall>(r, k) \<in> set (ca_child_statuses ca). 0 \<le> k \<longrightarrow> sent_count r (send_to p req (rs_send rs)) \<le> k"
        using cnt assms(2) by (auto simp: resolved_def)
      moreover have "\<forall>q \<in> fst ` set (send_to p req (rs_send rs)). q \<in> fst ` set (ca_child_statuses ca)
          \<or> getCurrentParent ca = Inr q \<and> getCurrentRoot ca \<noteq> Inr (ca_my_rank ca)"
        using assms(2) rp False unfolding keys_send_to by (auto simp: resolved_def)
      ultimately have "resolved ca (add_mset req M) (rs\<lparr>rs_send := send_to p req (rs_send rs)\<rparr>)"
        using assms(2) by (simp add: resolved_def sent_send_to distinct_send_to)
      then show ?thesis using eq by auto
    qed
  next
    case (3 r k)
    have r: "r \<in> fst ` set (ca_child_statuses ca)" "0 \<le> r" "r \<noteq> ca_my_rank ca"
    proof -
      have "map fst (ca_child_statuses (rs_ca rs)) = map fst (ca_child_statuses ca)"
        using assms(2) by (auto simp: resolved_def)
      moreover have "r \<in> set (map fst (ca_child_statuses (rs_ca rs)))" using 3(2) by force
      ultimately show "r \<in> fst ` set (ca_child_statuses ca)" by simp
      then show "0 \<le> r" "r \<noteq> ca_my_rank ca" using assms(1) by (auto simp: ca_ok_def)
    qed
    let ?rs = "rs\<lparr>rs_draws := rs_draws rs \<circ> Suc, rs_send := send_to r req (rs_send rs),
        rs_ca := (rs_ca rs)\<lparr>ca_child_statuses :=
          map (\<lambda>(q, k). if q = r then (q, k - 1) else (q, k)) (ca_child_statuses (rs_ca rs))\<rparr>\<rparr>"
    have eq: "resolve_one (\<lambda>e. idle (fst e)) (logged cb) req rs = Inr ?rs"
      using 3(1) liv r me by (auto simp: resolve_one_def Let_def)
    have "map (\<lambda>(q, k). if q = r then (q, k - 1) else (q, k)) (ca_child_statuses (rs_ca rs)) =
        map (\<lambda>(q, k). (q, k - sent_count q (send_to r req (rs_send rs)))) (ca_child_statuses ca)"
      using assms(2) by (auto simp: resolved_def count_send_to split: if_splits)
    moreover have "sent_count q (send_to r req (rs_send rs)) \<le> k'"
      if q: "(q, k') \<in> set (ca_child_statuses ca)" "0 \<le> k'" for q k'
    proof (cases "q = r")
      case True
      have "(r, k' - sent_count r (rs_send rs)) \<in> set (ca_child_statuses (rs_ca rs))"
        using assms(2) q True by (force simp: resolved_def)
      moreover have "distinct (map fst (ca_child_statuses (rs_ca rs)))" using ca(1) by (simp add: ca_ok_def)
      ultimately have "k = k' - sent_count r (rs_send rs)" using 3(2) by (meson eq_key_imp_eq_value)
      then show ?thesis using 3(3) True by (simp add: count_send_to)
    qed (use assms(2) q in \<open>auto simp: resolved_def count_send_to\<close>)
    then have "\<forall>(q, k) \<in> set (ca_child_statuses ca). 0 \<le> k \<longrightarrow> sent_count q (send_to r req (rs_send rs)) \<le> k"
      by auto
    moreover have "\<forall>q \<in> fst ` set (send_to r req (rs_send rs)). q \<in> fst ` set (ca_child_statuses ca)
        \<or> getCurrentParent ca = Inr q \<and> getCurrentRoot ca \<noteq> Inr (ca_my_rank ca)"
      using assms(2) r(1) unfolding keys_send_to by (auto simp: resolved_def)
    ultimately have "resolved ca (add_mset req M) ?rs"
      using assms(2) D(2) by (simp add: resolved_def sent_send_to distinct_send_to)
    then show ?thesis using eq by auto
  qed
qed

lemma resolve_all_spec:
  assumes "ca_ok ca" "adds_nothing cb" "resolved ca M rs" "oset JobRequest_key (rs_keep rs @ reqs)"
  shows "\<exists>rs'. resolve_all (\<lambda>e. idle (fst e)) (logged cb) reqs rs = Inr rs'
    \<and> resolved ca (M + mset (filter (live ca) reqs)) rs' \<and> oset JobRequest_key (rs_keep rs')"
  using assms(3,4)
proof (induction reqs arbitrary: M rs)
  case (Cons req reqs)
  show ?case
  proof (cases "live ca req")
    case True
    obtain rs' where rs': "resolve_one (\<lambda>e. idle (fst e)) (logged cb) req rs = Inr rs'" "resolved ca (add_mset req M) rs'"
      "rs_keep rs' = rs_keep rs \<or> rs_keep rs' = rs_keep rs @ [req]"
      using resolve_one_spec [OF assms(1) Cons.prems(1) assms(2) True] by blast
    have "oset JobRequest_key (rs_keep rs' @ reqs)" using rs'(3) Cons.prems(2) by (auto simp: sorted_wrt_append)
    then show ?thesis using Cons.IH [OF rs'(2)] rs'(1) True by simp
  next
    case False
    then have "resolve_one (\<lambda>e. idle (fst e)) (logged cb) req rs = Inr rs"
    proof -
      have "req_balancingEpoch req < ca_epoch (rs_ca rs) \<and> req_requestedNodeIndex req > 0"
        using False fun_cong [OF resolved_ca(4) [OF assms(1) Cons.prems(1)], of req] by (auto simp: live_def)
      then show ?thesis by (simp add: resolve_one_def)
    qed
    then show ?thesis using Cons.IH [OF Cons.prems(1)] Cons.prems(2) False by (auto simp: sorted_wrt_append)
  qed
qed simp


text \<open>A worker that is not idle, with two children of which one has two idle workers below it.\<close>

definition sample_assignment :: collective_assignment where
  "sample_assignment = (CollectiveAssignment 5 4 (replicate 4 0))\<lparr>ca_epoch := 3, ca_child_statuses := [(7, 0), (8, 2)],
     ca_request_list := [JobRequest 1 DUMMY 0 0 2 0 2 0, JobRequest 1 DUMMY 0 0 2 0 3 0, JobRequest 1 DUMMY 0 0 5 0 4 0]\<rparr>"


section \<open>A request that comes back is lost\<close>


end
