(* ===== verification/Spec2Isabelle.thy ===== *)
theory Spec2Isabelle
  imports Job_Database_Laws Sat_Reader Balancer_Net Assignment
begin

text \<open>
  A model of the scheduling core of Mallob (the C++ program below src/src) and of its correctness.

  \<^bold>\<open>The program.\<close> Every process (rank) runs a worker. A job is processed by a binary tree of workers, whose
  size (volume) is decided by the balancer: jobs announce their demand as events, the events of all
  processes are combined along a tree of processes and broadcast, and every process computes the same
  volumes from them. A tree node that may have more children asks workers that were its children before or
  else issues a request, which the collective assignment routes to an idle worker. A worker that commits
  to a request receives the description of the job, starts, suspends, resumes and terminates it, and
  exchanges messages with the other nodes of the tree.

  \<^bold>\<open>Theories and sources\<close> (paths below src/src):

  \<^item> \<open>Mallob_Prelude\<close>: ranges of machine integers, truncating division, the result type \<open>'a res\<close> (\<open>Inl\<close> with a
    failed assertion, undefined behaviour, an abort or a diverging call), and \<open>std::set\<close>/\<open>std::map\<close> as
    strictly sorted lists.
  \<^item> \<open>Byte_Codec\<close> (data/serializable.hpp): bytes of integers, floats and booleans; the locales
    \<open>field_codec\<close>, \<open>serializable\<close> and \<open>fixed_serializable\<close> are the contracts of a field and of a message.
  \<^item> \<open>Hashing\<close> (util/hashing.hpp, data/checksum.hpp, the integer hash of util/robin_hood.hpp).
  \<^item> \<open>Floats\<close>: binary32 patterns and rounding to 53 and 24 bits; the locales \<open>rounding\<close> and
    \<open>discrete_rounding\<close> state what the numerical proofs rely on.
  \<^item> \<open>Job_Transfer\<close>, \<open>Job_Result\<close>, \<open>Job_Description\<close> (data/job_transfer.*, data/job_result.*,
    data/job_description.*, data/app_configuration.hpp): messages, results and descriptions with their
    byte layout; round trips, and what happens to malformed data.
  \<^item> \<open>Event_Map\<close> (balancing/event_map.hpp): the replicated map of the newest event of each job.
  \<^item> \<open>Volume_Calculator\<close> (balancing/volume_calculator.hpp, balancing/balancing_entry.hpp): fair volumes from
    demands and priorities.
  \<^item> \<open>Balancer\<close>, \<open>Balancer_Net\<close> (balancing/event_driven_balancer.*, util/periodic_event.hpp): one balancer, and
    all balancers over ordered channels as a step relation \<open>net_reachable\<close>; they implement one replicated log.
  \<^item> \<open>Permutation\<close> (util/permutation.*): pseudorandom permutations and the expander graphs built from them.
  \<^item> \<open>Assignment\<close> (balancing/collective_assignment.*, \<open>Random::choice\<close> of util/random.hpp): routing of requests.
  \<^item> \<open>Scheduling_Update\<close>, \<open>Child_Interface\<close>, \<open>Local_Scheduler\<close> (scheduling/job_scheduling_update.hpp,
    scheduling/session.hpp, scheduling/local_scheduler.hpp): the inactive nodes below a tree node, the
    negotiation for one child, and the scheduler of a tree node with its reachable states \<open>ls_reachable\<close>.
  \<^item> \<open>Job_Tree\<close>, \<open>Job_Comm\<close>, \<open>Job\<close> (app/job_tree.hpp, comm/job_comm.hpp, app/job.*): the view of one node of
    the job tree, the communicator that collects the ranks of all nodes (all interleavings, relation
    \<open>comm_reachable\<close>), and the life cycle, demand and accounting of a job node.

  \<^bold>\<open>Correspondence.\<close> A class is a record with its data members, a member function a definition of the same
  name (with a prefix where names clash) that takes and returns the record. Messages that are sent and
  callbacks that are invoked are returned as lists. The clock, random draws, uninitialized members, the
  answers of the application (\<open>appl_*\<close>), \<open>std::shuffle\<close> and \<open>std::pow\<close> are arguments. Failing assertions, null
  dereferences, reads out of range and conversions out of range are errors of type \<open>fault\<close>. Loops are
  structural recursions, or \<open>partial_function (option)\<close> where their termination is a theorem (the search
  for the multiplier of the volumes, the walk of the permutation, the layers of the tree), so that \<open>Some\<close>
  in a statement includes termination; no fuel is used. Floating-point operations are rounded as in IEEE 754
  without its exponent range.

  \<^bold>\<open>What is shown.\<close> Balancing: all processes replay one log of broadcasts; computed volumes use all workers and
  respect the demands, in double precision, and the computation ends; event maps converge under any order
  of updates. Scheduling: the scheduler of a node is never stuck, suspension completes, at most four
  candidates are asked per child and epoch, node lists keep the newest entry per rank and are split along
  the tree. Requests: every request goes to exactly one place and no subtree gets more than its idle
  workers. Job nodes: the application sees exactly walks of the documented state diagram; demands are within
  bounds; rank lists are complete or absent. Data: all messages and descriptions survive the transfer.
  Negative results state where the code deviates from its intention; the manifest lists them.

  \<^bold>\<open>Not modelled.\<close> The worker and client main loops, the message queue with its MPI calls and threads, the job
  database, file system, sockets, JSON and option parsing, logging, the SAT application with its processes,
  shared memory and clause sharing, and all code below src/lib and the vendored headers. Operations on shared
  state hold their lock for a whole access, so locks are left out.
\<close>

end
